(* ===== verification/Prelude.thy ===== *)
theory Prelude
  imports Main "HOL-Library.Word"
begin

unbundle bit_operations_syntax

text \<open>
  Shared vocabulary of the development: the C integer types as words, 32-bit
  signed wrap-around, the outcome of a kernel routine and its sequencing, and
  the generic list lemmas the components use.

  A kernel routine that runs to its \<open>return\<close> yields \<open>Done\<close> with the value and the
  new state; a call of \<open>panic(msg)\<close> yields \<open>Panic msg\<close> and nothing after it runs;
  a routine that is still inside \<open>sleep(chan, lk)\<close> yields \<open>Asleep chan\<close> with the
  state in which it sleeps; one that busy-waits on a spin lock another hart holds
  yields \<open>Spins\<close> with the state in which it spins.
\<close>

type_synonym u8 = "8 word"
type_synonym u16 = "16 word"
type_synonym u32 = "32 word"
type_synonym u64 = "64 word"

named_theorems outcome_simps \<open>sequencing of outcomes\<close>

section \<open>Outcomes of kernel routines\<close>

datatype ('s, 'c, 'a) outcome = Done 'a 's | Panic string | Asleep 'c 's | Spins 's

fun obind :: "('s, 'c, 'a) outcome \<Rightarrow> ('a \<Rightarrow> 's \<Rightarrow> ('s, 'c, 'b) outcome) \<Rightarrow> ('s, 'c, 'b) outcome" where
  "obind (Done a s) f = f a s"
| "obind (Panic m) f = Panic m"
| "obind (Asleep c s) f = Asleep c s"
| "obind (Spins s) f = Spins s"

lemma obind_Done_iff [outcome_simps]:
  "obind m f = Done b t \<longleftrightarrow> (\<exists>a s. m = Done a s \<and> f a s = Done b t)"
  by (cases m) auto

lemma obind_assoc [outcome_simps]: "obind (obind m f) g = obind m (\<lambda>a s. obind (f a s) g)"
  by (cases m) auto

lemma obind_cong [fundef_cong]:
  "m = m' \<Longrightarrow> (\<And>a s. m' = Done a s \<Longrightarrow> f a s = g a s) \<Longrightarrow> obind m f = obind m' g"
  by (cases m') auto

text \<open>
  \<open>oput\<close> lifts an outcome over a part of the state to the whole: the new part is put
  back by \<open>put\<close>.
\<close>

fun oput :: "('p \<Rightarrow> 's) \<Rightarrow> ('p, 'c, 'a) outcome \<Rightarrow> ('s, 'c, 'a) outcome" where
  "oput put (Done a p) = Done a (put p)"
| "oput put (Panic m) = Panic m"
| "oput put (Asleep c p) = Asleep c (put p)"
| "oput put (Spins p) = Spins (put p)"

lemma oput_Done_iff [outcome_simps]: "oput put m = Done a s \<longleftrightarrow> (\<exists>p. m = Done a p \<and> s = put p)"
  by (cases m) auto

section \<open>C integers\<close>

text \<open>
  A C \<open>int\<close> is an \<open>int\<close> in the range of 32 bits; \<open>int32\<close> is the wrap-around of the
  RISC-V \<open>addiw\<close> instruction the compiler emits for \<open>x + 1\<close>.
\<close>

definition int32 :: "int \<Rightarrow> int" where
  "int32 x = signed_take_bit 31 x"

definition int_range :: "int \<Rightarrow> bool" where
  "int_range x \<longleftrightarrow> - (2 ^ 31) \<le> x \<and> x < 2 ^ 31"

lemma int32_range [simp, intro]: "int_range (int32 x)"
  using signed_take_bit_int_greater_eq_minus_exp [of 31 x] signed_take_bit_int_less_exp [of 31 x]
  by (simp add: int_range_def int32_def)

lemma int32_id: "int_range x \<Longrightarrow> int32 x = x"
  by (simp add: int_range_def int32_def signed_take_bit_int_eq_self)

lemma int32_small: "0 \<le> x \<Longrightarrow> x < 2147483648 \<Longrightarrow> int32 x = x"
  by (rule int32_id) (simp add: int_range_def)

section \<open>Lists as arrays\<close>

text \<open>Loops over \<open>proc[]\<close> and the like run over \<open>[0..<64]\<close>: keep such an interval folded.\<close>

declare upt_rec_numeral [simp del]

text \<open>A \<open>for\<close> loop over an array that rewrites each element in place.\<close>

definition upd_at :: "nat \<Rightarrow> ('a \<Rightarrow> 'a) \<Rightarrow> 'a list \<Rightarrow> 'a list" where
  "upd_at i f xs = xs[i := f (xs ! i)]"

lemma length_upd_at [simp]: "length (upd_at i f xs) = length xs"
  by (simp add: upd_at_def)

lemma nth_upd_at:
  "j < length xs \<Longrightarrow> upd_at i f xs ! j = (if j = i then f (xs ! j) else xs ! j)"
  by (auto simp: upd_at_def nth_list_update)

lemma nth_upd_at_same [simp]: "i < length xs \<Longrightarrow> upd_at i f xs ! i = f (xs ! i)"
  by (simp add: nth_upd_at)

lemma nth_upd_at_other [simp]: "j \<noteq> i \<Longrightarrow> upd_at i f xs ! j = xs ! j"
  by (simp add: upd_at_def)

lemma fold_upd_at_length [simp]: "length (fold (\<lambda>i. upd_at i (f i)) is xs) = length xs"
  by (induction "is" arbitrary: xs) auto

lemma fold_upd_at_nth:
  assumes "distinct is" and "j < length xs"
  shows "fold (\<lambda>i. upd_at i (f i)) is xs ! j = (if j \<in> set is then f j (xs ! j) else xs ! j)"
  using assms by (induction "is" arbitrary: xs) (auto simp: nth_upd_at)

lemma all_set_upd_at: "(\<forall>x\<in>set xs. P x) \<Longrightarrow> (i < length xs \<Longrightarrow> P (f (xs ! i))) \<Longrightarrow> \<forall>x\<in>set (upd_at i f xs). P x"
  by (metis in_set_conv_nth length_upd_at nth_mem nth_upd_at)

text \<open>The first index of a list of candidates that satisfies a test, as the scanning loops find it.\<close>

fun find_idx :: "(nat \<Rightarrow> bool) \<Rightarrow> nat list \<Rightarrow> nat option" where
  "find_idx P [] = None"
| "find_idx P (i # is) = (if P i then Some i else find_idx P is)"

lemma find_idx_None: "find_idx P is = None \<longleftrightarrow> (\<forall>i\<in>set is. \<not> P i)"
  by (induction "is") auto

lemma find_idx_Some: "find_idx P is = Some i \<Longrightarrow> i \<in> set is \<and> P i"
  by (induction "is") (auto split: if_splits)

lemma find_idx_first:
  "find_idx P is = Some i \<Longrightarrow> \<exists>as bs. is = as @ i # bs \<and> (\<forall>j\<in>set as. \<not> P j) \<and> P i"
proof (induction "is")
  case Nil
  then show ?case by simp
next
  case (Cons k ks)
  show ?case
  proof (cases "P k")
    case True
    with Cons.prems show ?thesis by (intro exI [of _ "[]"] exI [of _ ks]) auto
  next
    case False
    with Cons.prems Cons.IH obtain as bs where "ks = as @ i # bs" "\<forall>j\<in>set as. \<not> P j" "P i"
      by auto
    with False show ?thesis by (intro exI [of _ "k # as"] exI [of _ bs]) auto
  qed
qed

end
