(* ===== verification/Params.thy ===== *)
theory Params
  imports Prelude
begin

text \<open>
  The compile-time constants of \<^verbatim>\<open>kernel/param.h\<close> and \<^verbatim>\<open>kernel/memlayout.h\<close>,
  written as abbreviations so that arithmetic sees the numerals, and the wait
  channels of \<open>sleep\<close> and \<open>wakeup\<close>.  A channel in the source is the address of a
  kernel object; distinct objects have distinct addresses, so a channel is named
  here by the object it is the address of.
\<close>

section \<open>param.h\<close>

abbreviation (input) NPROC :: nat where "NPROC \<equiv> 64"
abbreviation (input) NCPU :: nat where "NCPU \<equiv> 8"
abbreviation (input) NOFILE :: nat where "NOFILE \<equiv> 16"
abbreviation (input) NFILE :: nat where "NFILE \<equiv> 100"
abbreviation (input) NINODE :: nat where "NINODE \<equiv> 50"
abbreviation (input) NDEV :: int where "NDEV \<equiv> 10"
abbreviation (input) ROOTDEV :: nat where "ROOTDEV \<equiv> 1"
abbreviation (input) MAXARG :: nat where "MAXARG \<equiv> 32"
abbreviation (input) MAXOPBLOCKS :: int where "MAXOPBLOCKS \<equiv> 10"
abbreviation (input) LOGBLOCKS :: int where "LOGBLOCKS \<equiv> 30"
abbreviation (input) NBUF :: nat where "NBUF \<equiv> 30"
abbreviation (input) FSSIZE :: nat where "FSSIZE \<equiv> 2000"
abbreviation (input) MAXPATH :: nat where "MAXPATH \<equiv> 128"
abbreviation (input) USERSTACK :: u64 where "USERSTACK \<equiv> 1"
abbreviation (input) NQUEUES :: nat where "NQUEUES \<equiv> 4"
abbreviation (input) TIME_SLICE_0 :: int where "TIME_SLICE_0 \<equiv> 4"
abbreviation (input) TIME_SLICE_1 :: int where "TIME_SLICE_1 \<equiv> 8"
abbreviation (input) TIME_SLICE_2 :: int where "TIME_SLICE_2 \<equiv> 16"
abbreviation (input) TIME_SLICE_3 :: int where "TIME_SLICE_3 \<equiv> 32"
abbreviation (input) PROMO_THRESHOLD :: int where "PROMO_THRESHOLD \<equiv> 10"
abbreviation (input) INIT_RR_INDEX :: nat where "INIT_RR_INDEX \<equiv> 0"

section \<open>riscv.h and memlayout.h\<close>

abbreviation (input) PGSIZE :: u64 where "PGSIZE \<equiv> 4096"
abbreviation (input) KERNBASE :: u64 where "KERNBASE \<equiv> 0x80000000"
abbreviation (input) PHYSTOP :: u64 where "PHYSTOP \<equiv> 0x88000000"
abbreviation (input) MAXVA :: u64 where "MAXVA \<equiv> 0x4000000000"
abbreviation (input) TRAMPOLINE :: u64 where "TRAMPOLINE \<equiv> 0x3FFFFFF000"
abbreviation (input) TRAPFRAME :: u64 where "TRAPFRAME \<equiv> 0x3FFFFFE000"
abbreviation (input) UART0 :: u64 where "UART0 \<equiv> 0x10000000"
abbreviation (input) VIRTIO0 :: u64 where "VIRTIO0 \<equiv> 0x10001000"
abbreviation (input) PLIC :: u64 where "PLIC \<equiv> 0x0c000000"
abbreviation (input) UART0_IRQ :: int where "UART0_IRQ \<equiv> 10"
abbreviation (input) VIRTIO0_IRQ :: int where "VIRTIO0_IRQ \<equiv> 1"

definition KSTACK :: "nat \<Rightarrow> u64" where
  "KSTACK p = TRAMPOLINE - (of_nat p + 1) * 2 * PGSIZE"

section \<open>Wait channels\<close>

datatype slname = SlBuf nat | SlInode nat

datatype wchan =
    ChTicks                 \<comment> \<open>\<open>&ticks\<close>\<close>
  | ChProc nat              \<comment> \<open>a \<open>struct proc *\<close>, used by \<open>kwait\<close>\<close>
  | ChPipeRead u64          \<comment> \<open>\<open>&pi->nread\<close>\<close>
  | ChPipeWrite u64         \<comment> \<open>\<open>&pi->nwrite\<close>\<close>
  | ChSleeplock slname      \<comment> \<open>a \<open>struct sleeplock *\<close>\<close>
  | ChLog                   \<comment> \<open>\<open>&log\<close>\<close>
  | ChConsR                 \<comment> \<open>\<open>&cons.r\<close>\<close>
  | ChTx                    \<comment> \<open>\<open>&tx_chan\<close>\<close>
  | ChDiskFree              \<comment> \<open>\<open>&disk.free[0]\<close>\<close>
  | ChBuf nat               \<comment> \<open>a \<open>struct buf *\<close> the disk is working on\<close>

text \<open>\<^verbatim>\<open>fcntl.h\<close>\<close>

abbreviation (input) O_RDONLY :: int where "O_RDONLY \<equiv> 0"
abbreviation (input) O_WRONLY :: int where "O_WRONLY \<equiv> 1"
abbreviation (input) O_RDWR :: int where "O_RDWR \<equiv> 2"
abbreviation (input) O_CREATE :: int where "O_CREATE \<equiv> 0x200"
abbreviation (input) O_TRUNC :: int where "O_TRUNC \<equiv> 0x400"

end
