(* ===== verification/Spinlock.thy ===== *)
theory Spinlock
  imports Params
begin

text \<open>
  \<^verbatim>\<open>kernel/spinlock.c\<close>: interrupt nesting (\<open>push_off\<close>, \<open>pop_off\<close>) and spin locks.
  A hart is its \<^verbatim>\<open>struct cpu\<close> together with the interrupt-enable bit of its
  \<open>sstatus\<close> register (\<open>intr_on\<close>, \<open>intr_off\<close>, \<open>intr_get\<close>); \<open>acquire\<close> is one
  attempt of the test-and-set loop, since the loop only repeats the attempt.
\<close>

section \<open>Per-CPU state\<close>

record cpu =
  c_proc :: "nat option"
  c_noff :: int
  c_intena :: bool
  c_sie :: bool

record spinlock =
  lk_locked :: bool
  lk_cpu :: "nat option"

definition intr_on :: "cpu \<Rightarrow> cpu" where
  "intr_on c = c\<lparr>c_sie := True\<rparr>"

definition intr_off :: "cpu \<Rightarrow> cpu" where
  "intr_off c = c\<lparr>c_sie := False\<rparr>"

definition intr_get :: "cpu \<Rightarrow> bool" where
  "intr_get c = c_sie c"

definition initlock :: "spinlock" where
  "initlock = \<lparr>lk_locked = False, lk_cpu = None\<rparr>"

definition push_off :: "cpu \<Rightarrow> cpu" where
  "push_off c =
     (let old = intr_get c;
          c = intr_off c;
          c = (if c_noff c = 0 then c\<lparr>c_intena := old\<rparr> else c)
      in c\<lparr>c_noff := c_noff c + 1\<rparr>)"

definition pop_off :: "cpu \<Rightarrow> (cpu, wchan, unit) outcome" where
  "pop_off c =
     (if intr_get c then Panic ''pop_off - interruptible''
      else if c_noff c < 1 then Panic ''pop_off''
      else let c = c\<lparr>c_noff := c_noff c - 1\<rparr>
           in Done () (if c_noff c = 0 \<and> c_intena c then intr_on c else c))"

definition holding :: "nat \<Rightarrow> spinlock \<Rightarrow> bool" where
  "holding h lk = (lk_locked lk \<and> lk_cpu lk = Some h)"

text \<open>
  The pieces of \<open>acquire\<close> and \<open>release\<close> that other harts can interleave with: the
  entry (\<open>push_off\<close> and the check that this hart does not hold the lock already),
  the atomic swap, the recording of the owner; the clearing of the owner, the
  atomic store that opens the lock, and the final \<open>pop_off\<close>.
\<close>

definition acquire_enter :: "nat \<Rightarrow> cpu \<Rightarrow> spinlock \<Rightarrow> (cpu, wchan, unit) outcome" where
  "acquire_enter h c lk =
     (let c = push_off c in if holding h lk then Panic ''acquire'' else Done () c)"

definition test_and_set :: "spinlock \<Rightarrow> bool \<times> spinlock" where
  "test_and_set lk = (lk_locked lk, lk\<lparr>lk_locked := True\<rparr>)"

definition set_owner :: "nat \<Rightarrow> spinlock \<Rightarrow> spinlock" where
  "set_owner h lk = lk\<lparr>lk_cpu := Some h\<rparr>"

definition release_enter :: "nat \<Rightarrow> spinlock \<Rightarrow> (spinlock, wchan, unit) outcome" where
  "release_enter h lk = (if \<not> holding h lk then Panic ''release'' else Done () (lk\<lparr>lk_cpu := None\<rparr>))"

definition lock_release :: "spinlock \<Rightarrow> spinlock" where
  "lock_release lk = lk\<lparr>lk_locked := False\<rparr>"

text \<open>
  The two routines as one piece of code, as the hart that runs them sees them.
  \<open>acquire\<close> spins when the swap finds the lock taken by another hart.
\<close>

definition acquire :: "nat \<Rightarrow> cpu \<times> spinlock \<Rightarrow> (cpu \<times> spinlock, wchan, unit) outcome" where
  "acquire h = (\<lambda>(c, lk).
     obind (oput (\<lambda>c. (c, lk)) (acquire_enter h c lk)) (\<lambda>_ (c, lk).
     let (old, lk) = test_and_set lk
     in if old then Spins (c, lk) else Done () (c, set_owner h lk)))"

definition release :: "nat \<Rightarrow> cpu \<times> spinlock \<Rightarrow> (cpu \<times> spinlock, wchan, unit) outcome" where
  "release h = (\<lambda>(c, lk).
     obind (oput (\<lambda>lk. (c, lk)) (release_enter h lk)) (\<lambda>_ (c, lk).
     let lk = lock_release lk
     in oput (\<lambda>c. (c, lk)) (pop_off c)))"

lemmas intr_defs = intr_on_def intr_off_def intr_get_def

section \<open>Interrupt nesting\<close>

text \<open>
  Well-formed nesting: the counter is not negative, and interrupts are off whenever
  a \<open>push_off\<close> is outstanding.
\<close>

definition nest_ok :: "cpu \<Rightarrow> bool" where
  "nest_ok c \<longleftrightarrow> 0 \<le> c_noff c \<and> (0 < c_noff c \<longrightarrow> \<not> c_sie c)"

fun push_offs :: "nat \<Rightarrow> cpu \<Rightarrow> cpu" where
  "push_offs 0 c = c"
| "push_offs (Suc n) c = push_offs n (push_off c)"

fun pop_offs :: "nat \<Rightarrow> cpu \<Rightarrow> (cpu, wchan, unit) outcome" where
  "pop_offs 0 c = Done () c"
| "pop_offs (Suc n) c = obind (pop_off c) (\<lambda>_. pop_offs n)"

lemma push_off_nest_ok: "nest_ok c \<Longrightarrow> nest_ok (push_off c)"
  by (simp add: nest_ok_def push_off_def intr_defs Let_def)

lemma pop_off_nest_ok: "nest_ok c \<Longrightarrow> pop_off c = Done u c' \<Longrightarrow> nest_ok c'"
  by (auto simp: nest_ok_def pop_off_def intr_defs Let_def split: if_splits)

lemma pop_push:
  assumes "nest_ok c"
  shows "\<exists>c'. pop_off (push_off c) = Done () c' \<and> c_noff c' = c_noff c \<and> c_sie c' = c_sie c
           \<and> c_proc c' = c_proc c \<and> nest_ok c' \<and> (0 < c_noff c \<longrightarrow> c' = c)"
  using assms by (auto simp: nest_ok_def push_off_def pop_off_def intr_defs Let_def)

lemma pop_offs_Suc_last: "pop_offs (Suc n) c = obind (pop_offs n c) (\<lambda>_. pop_off)"
proof (induction n arbitrary: c)
  case 0
  then show ?case by (cases "pop_off c") auto
next
  case (Suc n)
  have "pop_offs (Suc (Suc n)) c = obind (pop_off c) (\<lambda>_. pop_offs (Suc n))" by simp
  also have "\<dots> = obind (pop_off c) (\<lambda>_ c. obind (pop_offs n c) (\<lambda>_. pop_off))"
    using Suc.IH by presburger
  also have "\<dots> = obind (pop_offs (Suc n) c) (\<lambda>_. pop_off)"
    by (simp add: obind_assoc)
  finally show ?case .
qed

lemma push_off_noff_pos: "nest_ok c \<Longrightarrow> 0 < c_noff (push_off c)"
  by (simp add: nest_ok_def push_off_def intr_defs Let_def)

lemma nested_restores:
  assumes "nest_ok c"
  shows "\<exists>c'. pop_offs n (push_offs n c) = Done () c' \<and> c_noff c' = c_noff c \<and> c_sie c' = c_sie c
           \<and> c_proc c' = c_proc c \<and> (0 < c_noff c \<longrightarrow> c' = c)"
  using assms
proof (induction n arbitrary: c)
  case 0
  then show ?case by simp
next
  case (Suc n)
  have ok: "nest_ok (push_off c)" and pos: "0 < c_noff (push_off c)"
    using Suc.prems by (simp_all add: push_off_nest_ok push_off_noff_pos)
  from Suc.IH [OF ok] pos have "pop_offs n (push_offs n (push_off c)) = Done () (push_off c)"
    by auto
  then have "pop_offs (Suc n) (push_offs (Suc n) c) = pop_off (push_off c)"
    unfolding pop_offs_Suc_last by simp
  with pop_push [OF Suc.prems] show ?case by auto
qed

section \<open>Harts interleaving on locks\<close>

text \<open>
  Any number of harts and locks.  \<open>ph h l\<close> is where hart \<open>h\<close> is with respect to lock
  \<open>l\<close>: outside, spinning in the swap loop, past the swap with the owner not yet
  recorded, inside the critical section, past the clearing of the owner, and past
  the opening of the lock with \<open>pop_off\<close> still to come.
\<close>

datatype phase = Out | Spin | Swapped | Inside | Cleared | Opened

record locksys =
  ls_cpu :: "nat \<Rightarrow> cpu"
  ls_lock :: "nat \<Rightarrow> spinlock"
  ls_ph :: "nat \<Rightarrow> nat \<Rightarrow> phase"

definition set_ph :: "nat \<Rightarrow> nat \<Rightarrow> phase \<Rightarrow> locksys \<Rightarrow> locksys" where
  "set_ph h l p s = s\<lparr>ls_ph := (ls_ph s)(h := (ls_ph s h)(l := p))\<rparr>"

definition set_cpu :: "nat \<Rightarrow> cpu \<Rightarrow> locksys \<Rightarrow> locksys" where
  "set_cpu h c s = s\<lparr>ls_cpu := (ls_cpu s)(h := c)\<rparr>"

definition set_lock :: "nat \<Rightarrow> spinlock \<Rightarrow> locksys \<Rightarrow> locksys" where
  "set_lock l lk s = s\<lparr>ls_lock := (ls_lock s)(l := lk)\<rparr>"

inductive lock_step :: "locksys \<Rightarrow> locksys \<Rightarrow> bool" where
  enter: "ls_ph s h l = Out \<Longrightarrow> acquire_enter h (ls_cpu s h) (ls_lock s l) = Done u c \<Longrightarrow>
    lock_step s (set_ph h l Spin (set_cpu h c s))"
| swap_busy: "ls_ph s h l = Spin \<Longrightarrow> test_and_set (ls_lock s l) = (True, lk) \<Longrightarrow>
    lock_step s (set_lock l lk s)"
| swap_free: "ls_ph s h l = Spin \<Longrightarrow> test_and_set (ls_lock s l) = (False, lk) \<Longrightarrow>
    lock_step s (set_ph h l Swapped (set_lock l lk s))"
| owner: "ls_ph s h l = Swapped \<Longrightarrow>
    lock_step s (set_ph h l Inside (set_lock l (set_owner h (ls_lock s l)) s))"
| clear: "ls_ph s h l = Inside \<Longrightarrow> release_enter h (ls_lock s l) = Done u lk \<Longrightarrow>
    lock_step s (set_ph h l Cleared (set_lock l lk s))"
| openlk: "ls_ph s h l = Cleared \<Longrightarrow>
    lock_step s (set_ph h l Opened (set_lock l (lock_release (ls_lock s l)) s))"
| pop: "ls_ph s h l = Opened \<Longrightarrow> pop_off (ls_cpu s h) = Done u c \<Longrightarrow>
    lock_step s (set_ph h l Out (set_cpu h c s))"
| toggle: "c_noff (ls_cpu s h) = 0 \<Longrightarrow>
    lock_step s (set_cpu h ((ls_cpu s h)\<lparr>c_sie := b\<rparr>) s)"

definition lock_init :: "locksys" where
  "lock_init = \<lparr>ls_cpu = (\<lambda>_. \<lparr>c_proc = None, c_noff = 0, c_intena = False, c_sie = False\<rparr>),
     ls_lock = (\<lambda>_. initlock), ls_ph = (\<lambda>_ _. Out)\<rparr>"

inductive lock_reach :: "locksys \<Rightarrow> bool" where
  start: "lock_reach lock_init"
| step: "lock_reach s \<Longrightarrow> lock_step s t \<Longrightarrow> lock_reach t"

definition owns :: "phase \<Rightarrow> bool" where
  "owns p \<longleftrightarrow> p = Swapped \<or> p = Inside \<or> p = Cleared"

text \<open>
  A lock agrees with the harts' phases: it is open and nobody owns it, or exactly
  one hart owns it and is recorded as the owner exactly while it is inside.
\<close>

definition lock_ok :: "spinlock \<Rightarrow> (nat \<Rightarrow> phase) \<Rightarrow> bool" where
  "lock_ok lk f \<longleftrightarrow>
     (\<not> lk_locked lk \<and> lk_cpu lk = None \<and> (\<forall>h. \<not> owns (f h)))
   \<or> (\<exists>h. lk_locked lk \<and> owns (f h) \<and> (\<forall>h'. h' \<noteq> h \<longrightarrow> \<not> owns (f h'))
        \<and> lk_cpu lk = (if f h = Inside then Some h else None))"

definition col :: "locksys \<Rightarrow> nat \<Rightarrow> nat \<Rightarrow> phase" where
  "col s l h = ls_ph s h l"

definition lock_inv :: "locksys \<Rightarrow> bool" where
  "lock_inv s \<longleftrightarrow> (\<forall>l. lock_ok (ls_lock s l) (col s l))"

lemma owns_simps [simp]:
  "\<not> owns Out" "\<not> owns Spin" "owns Swapped" "owns Inside" "owns Cleared" "\<not> owns Opened"
  by (simp_all add: owns_def)

lemmas locksys_defs = set_ph_def set_cpu_def set_lock_def acquire_enter_def test_and_set_def
  set_owner_def release_enter_def lock_release_def

lemma lock_ok_owned:
  assumes "lock_ok lk f" and "owns (f h)"
  shows "lk_locked lk \<and> (\<forall>h'. h' \<noteq> h \<longrightarrow> \<not> owns (f h')) \<and> lk_cpu lk = (if f h = Inside then Some h else None)"
proof -
  from assms obtain h0 where o: "lk_locked lk" "owns (f h0)" "\<And>h'. h' \<noteq> h0 \<Longrightarrow> \<not> owns (f h')"
    "lk_cpu lk = (if f h0 = Inside then Some h0 else None)"
    unfolding lock_ok_def by blast
  from assms(2) o(3) [of h] have "h0 = h" by auto
  with o show ?thesis by simp
qed

lemma lock_okI:
  assumes "lk_locked lk" and "owns (f h)" and "\<And>h'. h' \<noteq> h \<Longrightarrow> \<not> owns (f h')"
    and "lk_cpu lk = (if f h = Inside then Some h else None)"
  shows "lock_ok lk f"
  using assms unfolding lock_ok_def by blast

lemma lock_ok_idle: "lock_ok lk f \<Longrightarrow> \<not> owns (f h) \<Longrightarrow> \<not> owns p \<Longrightarrow> lock_ok lk (f(h := p))"
proof -
  assume ok: "lock_ok lk f" and n: "\<not> owns (f h)" "\<not> owns p"
  from n have "owns ((f(h := p)) x) = owns (f x)" for x by simp
  moreover from n have "((f(h := p)) x = Inside) = (f x = Inside)" for x by auto
  ultimately show ?thesis using ok by (simp only: lock_ok_def)
qed

lemma lock_ok_busy: "lock_ok lk f \<Longrightarrow> lk_locked lk \<Longrightarrow> lock_ok (lk\<lparr>lk_locked := True\<rparr>) f"
  by (simp add: lock_ok_def)

lemma lock_ok_swap:
  "lock_ok lk f \<Longrightarrow> \<not> lk_locked lk \<Longrightarrow> lock_ok (lk\<lparr>lk_locked := True\<rparr>) (f(h := Swapped))"
  by (intro lock_okI [where h = h]) (simp_all add: lock_ok_def)

lemma lock_ok_owner:
  "lock_ok lk f \<Longrightarrow> f h = Swapped \<Longrightarrow> lock_ok (lk\<lparr>lk_cpu := Some h\<rparr>) (f(h := Inside))"
  using lock_ok_owned [of lk f h] by (intro lock_okI [where h = h]) auto

lemma lock_ok_clear:
  "lock_ok lk f \<Longrightarrow> f h = Inside \<Longrightarrow> lock_ok (lk\<lparr>lk_cpu := None\<rparr>) (f(h := Cleared))"
  using lock_ok_owned [of lk f h] by (intro lock_okI [where h = h]) auto

lemma lock_ok_open:
  "lock_ok lk f \<Longrightarrow> f h = Cleared \<Longrightarrow> lock_ok (lk\<lparr>lk_locked := False\<rparr>) (f(h := Opened))"
proof -
  assume ok: "lock_ok lk f" and "f h = Cleared"
  with lock_ok_owned [OF ok, of h] have "lk_cpu lk = None" and "\<And>h'. h' \<noteq> h \<Longrightarrow> \<not> owns (f h')"
    by auto
  then show ?thesis unfolding lock_ok_def by (intro disjI1) auto
qed

lemma lock_ok_holding:
  assumes "lock_ok lk f"
  shows "holding h lk \<longleftrightarrow> f h = Inside"
proof
  assume "holding h lk"
  with assms show "f h = Inside"
    by (auto simp: lock_ok_def holding_def split: if_splits)
next
  assume "f h = Inside"
  with lock_ok_owned [OF assms, of h] show "holding h lk"
    by (simp add: holding_def)
qed

lemma lock_inv_init: "lock_inv lock_init"
  by (simp add: lock_inv_def lock_init_def initlock_def lock_ok_def col_def)

lemma col_simps [simp]:
  "col (set_cpu h c s) = col s" "col (set_lock l lk s) = col s"
  "col (set_ph h l p s) l' = (if l' = l then (col s l)(h := p) else col s l')"
  by (auto simp: fun_eq_iff col_def set_cpu_def set_lock_def set_ph_def)

lemma ls_lock_simps [simp]:
  "ls_lock (set_cpu h c s) = ls_lock s" "ls_lock (set_ph h l p s) = ls_lock s"
  "ls_lock (set_lock l lk s) = (ls_lock s)(l := lk)"
  by (auto simp: set_cpu_def set_lock_def set_ph_def)

lemma lock_inv_upd:
  assumes "lock_inv s" and "lock_ok lk ((col s l)(h := p))"
  shows "lock_inv (set_ph h l p (set_lock l lk s))"
  using assms by (auto simp: lock_inv_def)

lemma lock_inv_ph:
  assumes "lock_inv s" and "\<not> owns (ls_ph s h l)" and "\<not> owns p"
  shows "lock_inv (set_ph h l p (set_cpu h c s))"
  using assms by (auto simp: lock_inv_def col_def intro: lock_ok_idle)

lemma lock_step_inv: "lock_step s t \<Longrightarrow> lock_inv s \<Longrightarrow> lock_inv t"
proof (induction rule: lock_step.induct)
  case (enter s h l u c)
  then show ?case by (intro lock_inv_ph) auto
next
  case (swap_busy s h l lk)
  then show ?case by (auto intro: lock_ok_busy simp: lock_inv_def test_and_set_def)
next
  case (swap_free s h l lk)
  then show ?case
    by (intro lock_inv_upd) (auto intro: lock_ok_swap simp: lock_inv_def test_and_set_def)
next
  case (owner s h l)
  then show ?case
    by (intro lock_inv_upd) (auto intro: lock_ok_owner simp: lock_inv_def set_owner_def col_def)
next
  case (clear s h l u lk)
  then show ?case
    by (intro lock_inv_upd)
      (auto intro: lock_ok_clear simp: lock_inv_def release_enter_def col_def split: if_splits)
next
  case (openlk s h l)
  then show ?case
    by (intro lock_inv_upd) (auto intro: lock_ok_open simp: lock_inv_def lock_release_def col_def)
next
  case (pop s h l u c)
  then show ?case by (intro lock_inv_ph) auto
next
  case (toggle s h b)
  then show ?case by (auto simp: lock_inv_def)
qed

lemma lock_reach_inv: "lock_reach s \<Longrightarrow> lock_inv s"
  by (induction rule: lock_reach.induct) (auto intro: lock_inv_init lock_step_inv)

text \<open>
  The counter of a hart counts the locks it is engaged with, so interrupts stay off
  from the entry of \<open>acquire\<close> to the end of the matching \<open>release\<close>.
\<close>

definition engaged :: "locksys \<Rightarrow> nat \<Rightarrow> nat set" where
  "engaged s h = {l. ls_ph s h l \<noteq> Out}"

definition noff_inv :: "locksys \<Rightarrow> bool" where
  "noff_inv s \<longleftrightarrow> (\<forall>h. finite (engaged s h) \<and> c_noff (ls_cpu s h) = int (card (engaged s h))
                       \<and> nest_ok (ls_cpu s h))"

lemma engaged_set_ph:
  "engaged (set_ph h l p s) h' =
     (if h' \<noteq> h then engaged s h' else if p = Out then engaged s h - {l} else insert l (engaged s h))"
  by (auto simp: engaged_def set_ph_def)

lemma engaged_frame [simp]:
  "engaged (set_lock l lk s) = engaged s" "engaged (set_cpu h c s) = engaged s"
  by (auto simp: engaged_def set_lock_def set_cpu_def)

lemma ls_cpu_simps [simp]:
  "ls_cpu (set_ph h l p s) = ls_cpu s" "ls_cpu (set_lock l lk s) = ls_cpu s"
  "ls_cpu (set_cpu h c s) = (ls_cpu s)(h := c)"
  by (auto simp: set_ph_def set_lock_def set_cpu_def)

lemma pop_off_noff: "pop_off c = Done u c' \<Longrightarrow> c_noff c' = c_noff c - 1"
  by (auto simp: pop_off_def intr_defs Let_def split: if_splits)

lemma push_off_noff: "c_noff (push_off c) = c_noff c + 1"
  by (simp add: push_off_def intr_defs Let_def)

lemma noff_inv_move:
  assumes "noff_inv s" and "ls_ph s h l \<noteq> Out" and "p \<noteq> Out"
  shows "noff_inv (set_ph h l p (set_lock l lk s))"
proof -
  from assms(2) have "insert l (engaged s h) = engaged s h"
    by (auto simp: engaged_def)
  with assms show ?thesis by (auto simp: noff_inv_def engaged_set_ph)
qed

lemma lock_step_noff_inv: "lock_step s t \<Longrightarrow> noff_inv s \<Longrightarrow> noff_inv t"
proof (induction rule: lock_step.induct)
  case (enter s h l u c)
  from enter.hyps have "l \<notin> engaged s h" by (simp add: engaged_def)
  moreover from enter.hyps have "c = push_off (ls_cpu s h)"
    by (auto simp: acquire_enter_def Let_def split: if_splits)
  ultimately show ?case
    using enter.prems by (auto simp: noff_inv_def engaged_set_ph push_off_noff push_off_nest_ok)
next
  case (pop s h l u c)
  from pop.hyps have "l \<in> engaged s h" by (simp add: engaged_def)
  then have "finite (engaged s h) \<Longrightarrow> int (card (engaged s h - {l})) = int (card (engaged s h)) - 1"
    by (metis card_Suc_Diff1 of_nat_Suc add_diff_cancel_left')
  with pop show ?case
    by (auto simp: noff_inv_def engaged_set_ph pop_off_noff intro: pop_off_nest_ok)
next
  case (toggle s h b)
  then show ?case by (auto simp: noff_inv_def nest_ok_def)
next
  case (swap_busy s h l lk)
  then show ?case by (auto simp: noff_inv_def)
next
  case (swap_free s h l lk)
  then show ?case by (simp add: noff_inv_move)
next
  case (owner s h l)
  then show ?case by (simp add: noff_inv_move)
next
  case (clear s h l u lk)
  then show ?case by (simp add: noff_inv_move)
next
  case (openlk s h l)
  then show ?case by (simp add: noff_inv_move)
qed

lemma lock_reach_noff_inv: "lock_reach s \<Longrightarrow> noff_inv s"
proof (induction rule: lock_reach.induct)
  case start
  show ?case by (simp add: noff_inv_def lock_init_def engaged_def nest_ok_def)
next
  case (step s t)
  then show ?case by (blast intro: lock_step_noff_inv)
qed

lemma interrupts_off_while_engaged:
  "lock_reach s \<Longrightarrow> ls_ph s h l \<noteq> Out \<Longrightarrow> \<not> c_sie (ls_cpu s h)"
proof -
  assume r: "lock_reach s" and p: "ls_ph s h l \<noteq> Out"
  from r have inv: "noff_inv s" by (rule lock_reach_noff_inv)
  from p have "l \<in> engaged s h" by (simp add: engaged_def)
  with inv have "0 < c_noff (ls_cpu s h)" by (auto simp: noff_inv_def card_gt_0_iff)
  with inv show ?thesis by (auto simp: noff_inv_def nest_ok_def)
qed

section \<open>Properties\<close>

text \<open>A run of one hart through \<open>acquire\<close> of lock 0, for the examples below.\<close>

lemma lock_reach_inside: "\<exists>s. lock_reach s \<and> ls_ph s 0 0 = Inside"
proof -
  let ?c = "push_off (ls_cpu lock_init 0)"
  let ?s1 = "set_ph 0 0 Spin (set_cpu 0 ?c lock_init)"
  have "lock_step lock_init ?s1"
    by (rule lock_step.enter [where u = "()"]) (simp_all add: lock_init_def acquire_enter_def holding_def initlock_def)
  then have 1: "lock_reach ?s1" by (rule lock_reach.step [OF lock_reach.start])
  let ?lk = "(ls_lock ?s1 0)\<lparr>lk_locked := True\<rparr>"
  have "lock_step ?s1 (set_ph 0 0 Swapped (set_lock 0 ?lk ?s1))"
    by (rule lock_step.swap_free) (simp_all add: locksys_defs lock_init_def initlock_def)
  then have 2: "lock_reach (set_ph 0 0 Swapped (set_lock 0 ?lk ?s1))" by (rule lock_reach.step [OF 1])
  let ?s2 = "set_ph 0 0 Swapped (set_lock 0 ?lk ?s1)"
  have "lock_step ?s2 (set_ph 0 0 Inside (set_lock 0 (set_owner 0 (ls_lock ?s2 0)) ?s2))"
    by (rule lock_step.owner) (simp add: locksys_defs)
  from lock_reach.step [OF 2 this] show ?thesis by (intro exI conjI) (assumption, simp add: locksys_defs)
qed

text \<open>C20: A spin lock excludes: whatever the harts do, at most one of them is between
  the end of \<open>acquire\<close> and the start of \<open>release\<close> of a lock, \<open>holding\<close> is true on that
  hart and on no other, and that hart's interrupts are off.\<close>

theorem spinlock_mutual_exclusion:
  assumes "lock_reach s" and "ls_ph s h l = Inside"
  shows "(\<forall>h'. holding h' (ls_lock s l) = (h' = h)) \<and> (\<forall>h'. ls_ph s h' l = Inside \<longrightarrow> h' = h)
       \<and> \<not> c_sie (ls_cpu s h)"
proof -
  from lock_reach_inv [OF assms(1)] have "lock_ok (ls_lock s l) (col s l)" by (simp add: lock_inv_def)
  from lock_ok_owned [OF this, of h] assms(2)
  have "lk_locked (ls_lock s l)" "\<forall>h'. h' \<noteq> h \<longrightarrow> \<not> owns (ls_ph s h' l)" "lk_cpu (ls_lock s l) = Some h"
    by (simp_all add: col_def)
  moreover have "\<not> c_sie (ls_cpu s h)" using interrupts_off_while_engaged [OF assms(1), of h l] assms(2) by simp
  ultimately show ?thesis by (auto simp: holding_def)
qed

theorem spinlock_mutual_exclusion_witness:
  "\<exists>s. lock_reach s \<and> ls_ph s 0 0 = Inside \<and> \<not> holding 1 (ls_lock s 0) \<and> ls_ph s 1 0 \<noteq> Inside"
proof -
  from lock_reach_inside obtain s where s: "lock_reach s" "ls_ph s 0 0 = Inside" by blast
  from spinlock_mutual_exclusion [OF s] have "\<not> holding 1 (ls_lock s 0)" "ls_ph s 1 0 \<noteq> Inside" by auto
  with s show ?thesis by blast
qed

text \<open>C21: The four panics of \<open>spinlock.c\<close> never fire in code that acquires and releases
  each lock in turn: a hart outside a lock enters \<open>acquire\<close>, a hart inside enters
  \<open>release\<close>, and one that has opened the lock passes both checks of \<open>pop_off\<close>.\<close>

theorem spinlock_never_panics:
  assumes "lock_reach s"
  shows "case ls_ph s h l of
      Out \<Rightarrow> \<exists>c. acquire_enter h (ls_cpu s h) (ls_lock s l) = Done () c
    | Inside \<Rightarrow> \<exists>lk. release_enter h (ls_lock s l) = Done () lk
    | Opened \<Rightarrow> \<exists>c. pop_off (ls_cpu s h) = Done () c
    | _ \<Rightarrow> True"
proof (cases "ls_ph s h l")
  case Out
  from lock_reach_inv [OF assms] have ok: "lock_ok (ls_lock s l) (col s l)" by (simp add: lock_inv_def)
  have "\<not> holding h (ls_lock s l)"
  proof
    assume "holding h (ls_lock s l)"
    with ok obtain h0 where "owns (col s l h0)" "lk_cpu (ls_lock s l) = Some h"
      "lk_cpu (ls_lock s l) = (if col s l h0 = Inside then Some h0 else None)"
      unfolding lock_ok_def holding_def by blast
    then have "col s l h = Inside" by (auto split: if_splits)
    with Out show False by (simp add: col_def)
  qed
  with Out show ?thesis by (simp add: acquire_enter_def Let_def)
next
  case Inside
  from lock_reach_inv [OF assms] have "lock_ok (ls_lock s l) (col s l)" by (simp add: lock_inv_def)
  from lock_ok_owned [OF this, of h] Inside have "holding h (ls_lock s l)" by (simp add: col_def holding_def)
  with Inside show ?thesis by (simp add: release_enter_def)
next
  case Opened
  from lock_reach_noff_inv [OF assms] have inv: "noff_inv s" .
  from Opened have "l \<in> engaged s h" by (simp add: engaged_def)
  with inv have "0 < c_noff (ls_cpu s h)" by (auto simp: noff_inv_def card_gt_0_iff)
  moreover have "\<not> c_sie (ls_cpu s h)" using interrupts_off_while_engaged [OF assms, of h l] Opened by simp
  ultimately show ?thesis using Opened by (simp add: pop_off_def intr_get_def Let_def)
qed auto

theorem spinlock_never_panics_witness:
  "\<exists>s. lock_reach s \<and> ls_ph s 0 0 = Inside \<and> (\<exists>lk. release_enter 0 (ls_lock s 0) = Done () lk)"
proof -
  from lock_reach_inside obtain s where s: "lock_reach s" "ls_ph s 0 0 = Inside" by blast
  with spinlock_never_panics [OF s(1), of 0 0] show ?thesis by auto
qed

text \<open>\<open>push_off\<close> and \<open>pop_off\<close> match: \<open>n\<close> of each, nested, restore the counter and
  the interrupt state the hart started with, whatever they were.\<close>

lemma push_pop_restores:
  assumes "nest_ok c"
  shows "\<exists>c'. pop_offs n (push_offs n c) = Done () c' \<and> c_noff c' = c_noff c \<and> c_sie c' = c_sie c
           \<and> c_proc c' = c_proc c"
  using nested_restores [OF assms] by blast

end
