(* ===== verification/Proc.thy ===== *)
theory Proc
  imports Spinlock
begin

text \<open>
  The process table of \<^verbatim>\<open>kernel/proc.h\<close> and the routines of \<^verbatim>\<open>kernel/proc.c\<close> that
  work on it alone: initialisation, pid allocation, \<open>wakeup\<close>, \<open>kkill\<close>, \<open>setkilled\<close>,
  \<open>killed\<close>, \<open>reparent\<close>, and the helper functions of the multilevel feedback queue.
  A \<open>struct proc *\<close> is an index into \<open>proc[]\<close>, a \<open>struct file *\<close> an index into
  \<open>ftable.file[]\<close>, a \<open>struct inode *\<close> an index into \<open>itable.inode[]\<close>, and the null
  pointer is \<open>None\<close>.  A section of code between \<open>acquire\<close> and \<open>release\<close> of one lock is
  one step: theory \<open>Spinlock\<close> shows that the lock excludes every other hart from it.
\<close>

section \<open>proc.h\<close>

record kcontext =
  ctx_ra :: u64
  ctx_sp :: u64
  ctx_s :: "u64 list"  \<comment> \<open>\<open>s0\<close> to \<open>s11\<close>\<close>

record trapframe =
  tf_kernel_satp :: u64
  tf_kernel_sp :: u64
  tf_kernel_trap :: u64
  tf_epc :: u64
  tf_kernel_hartid :: u64
  tf_ra :: u64
  tf_sp :: u64
  tf_gp :: u64
  tf_tp :: u64
  tf_t :: "u64 list"  \<comment> \<open>\<open>t0\<close> to \<open>t6\<close>\<close>
  tf_s :: "u64 list"  \<comment> \<open>\<open>s0\<close> to \<open>s11\<close>\<close>
  tf_a0 :: u64
  tf_a1 :: u64
  tf_a2 :: u64
  tf_a3 :: u64
  tf_a4 :: u64
  tf_a5 :: u64
  tf_a6 :: u64
  tf_a7 :: u64

datatype procstate = UNUSED | USED | SLEEPING | RUNNABLE | RUNNING | ZOMBIE

record proc =
  p_lock :: spinlock
  p_state :: procstate
  p_chan :: "wchan option"
  p_killed :: int
  p_xstate :: int
  p_pid :: int
  p_parent :: "nat option"
  p_kstack :: u64
  p_sz :: u64
  p_pagetable :: u64
  p_trapframe :: u64
  p_context :: kcontext
  p_ofile :: "nat option list"
  p_cwd :: "nat option"
  p_name :: "u8 list"
  p_priority :: int
  p_timer_ticks_used :: int
  p_wait_timer_ticks :: int
  p_max_time_slice :: int
  p_queue_level :: int
  p_voluntarily_yielded :: int

text \<open>
  Addresses the linker fixes (\<^verbatim>\<open>kernel.ld\<close>, the assembly files): the model takes them
  as part of the state, whatever they are.
\<close>

record ksyms =
  sym_trampoline :: u64
  sym_uservec :: u64
  sym_userret :: u64
  sym_forkret :: u64
  sym_usertrap :: u64
  sym_kernelvec :: u64
  sym_end :: u64
  sym_etext :: u64

text \<open>
  The globals of \<^verbatim>\<open>proc.c\<close> and \<^verbatim>\<open>trap.c\<close>, the hart number in register \<open>tp\<close>, and the
  trap frames, which are pages reached through \<open>p->trapframe\<close>.
\<close>

record ptable =
  procs :: "proc list"
  cpus :: "cpu list"
  tp :: nat
  initproc :: "nat option"
  nextpid :: int
  rr_state :: "nat list list"
  ticks :: u32
  tframes :: "u64 \<Rightarrow> trapframe"
  syms :: ksyms

text \<open>The globals before any initialisation: zeroes, but for \<open>nextpid\<close>.\<close>

definition zero_proc :: proc where
  "zero_proc = \<lparr>p_lock = initlock, p_state = UNUSED, p_chan = None, p_killed = 0, p_xstate = 0,
     p_pid = 0, p_parent = None, p_kstack = 0, p_sz = 0, p_pagetable = 0, p_trapframe = 0,
     p_context = \<lparr>ctx_ra = 0, ctx_sp = 0, ctx_s = replicate 12 0\<rparr>,
     p_ofile = replicate NOFILE None, p_cwd = None, p_name = replicate 16 0,
     p_priority = 0, p_timer_ticks_used = 0, p_wait_timer_ticks = 0, p_max_time_slice = 0,
     p_queue_level = 0, p_voluntarily_yielded = 0\<rparr>"

definition zero_cpu :: cpu where
  "zero_cpu = \<lparr>c_proc = None, c_noff = 0, c_intena = False, c_sie = False\<rparr>"

definition zero_trapframe :: trapframe where
  "zero_trapframe = \<lparr>tf_kernel_satp = 0, tf_kernel_sp = 0, tf_kernel_trap = 0, tf_epc = 0,
     tf_kernel_hartid = 0, tf_ra = 0, tf_sp = 0, tf_gp = 0, tf_tp = 0, tf_t = replicate 7 0,
     tf_s = replicate 12 0, tf_a0 = 0, tf_a1 = 0, tf_a2 = 0, tf_a3 = 0, tf_a4 = 0, tf_a5 = 0,
     tf_a6 = 0, tf_a7 = 0\<rparr>"

definition zero_syms :: ksyms where
  "zero_syms = \<lparr>sym_trampoline = 0, sym_uservec = 0, sym_userret = 0, sym_forkret = 0,
     sym_usertrap = 0, sym_kernelvec = 0, sym_end = 0, sym_etext = 0\<rparr>"

definition zero_table :: ptable where
  "zero_table = \<lparr>procs = replicate NPROC zero_proc, cpus = replicate NCPU zero_cpu, tp = 0,
     initproc = None, nextpid = 1, rr_state = replicate NCPU (replicate NQUEUES 0), ticks = 0,
     tframes = (\<lambda>_. zero_trapframe), syms = zero_syms\<rparr>"

section \<open>Access\<close>

definition mycpu :: "'a ptable_scheme \<Rightarrow> cpu" where
  "mycpu s = cpus s ! tp s"

definition myproc :: "'a ptable_scheme \<Rightarrow> nat option" where
  "myproc s = c_proc (mycpu s)"

definition upd_proc :: "nat \<Rightarrow> (proc \<Rightarrow> proc) \<Rightarrow> 'a ptable_scheme \<Rightarrow> 'a ptable_scheme" where
  "upd_proc i f s = s\<lparr>procs := upd_at i f (procs s)\<rparr>"

definition upd_cpu :: "(cpu \<Rightarrow> cpu) \<Rightarrow> 'a ptable_scheme \<Rightarrow> 'a ptable_scheme" where
  "upd_cpu f s = s\<lparr>cpus := upd_at (tp s) f (cpus s)\<rparr>"

definition procinit :: "'a ptable_scheme \<Rightarrow> 'a ptable_scheme" where
  "procinit s =
     (let s = s\<lparr>rr_state := replicate NCPU (replicate NQUEUES INIT_RR_INDEX)\<rparr>
      in fold (\<lambda>i. upd_proc i (\<lambda>p. p\<lparr>p_lock := initlock, p_state := UNUSED, p_kstack := KSTACK i\<rparr>))
           [0..<NPROC] s)"

definition allocpid :: "'a ptable_scheme \<Rightarrow> int \<times> 'a ptable_scheme" where
  "allocpid s = (let pid = nextpid s in (pid, s\<lparr>nextpid := int32 (nextpid s + 1)\<rparr>))"

section \<open>Sleepers\<close>

definition wakeup :: "wchan \<Rightarrow> 'a ptable_scheme \<Rightarrow> 'a ptable_scheme" where
  "wakeup ch s =
     fold (\<lambda>i s.
         if Some i \<noteq> myproc s then
           upd_proc i (\<lambda>p. if p_state p = SLEEPING \<and> p_chan p = Some ch
                           then p\<lparr>p_state := RUNNABLE\<rparr> else p) s
         else s)
       [0..<NPROC] s"

fun kkill_loop :: "nat list \<Rightarrow> int \<Rightarrow> 'a ptable_scheme \<Rightarrow> int \<times> 'a ptable_scheme" where
  "kkill_loop [] pid s = (-1, s)"
| "kkill_loop (i # is) pid s =
     (if p_pid (procs s ! i) = pid then
        (0, upd_proc i (\<lambda>p. let p = p\<lparr>p_killed := 1\<rparr>
                            in if p_state p = SLEEPING then p\<lparr>p_state := RUNNABLE\<rparr> else p) s)
      else kkill_loop is pid s)"

definition kkill :: "int \<Rightarrow> 'a ptable_scheme \<Rightarrow> int \<times> 'a ptable_scheme" where
  "kkill pid s = kkill_loop [0..<NPROC] pid s"

definition setkilled :: "nat \<Rightarrow> 'a ptable_scheme \<Rightarrow> 'a ptable_scheme" where
  "setkilled i = upd_proc i (\<lambda>p. p\<lparr>p_killed := 1\<rparr>)"

definition killed :: "nat \<Rightarrow> 'a ptable_scheme \<Rightarrow> int" where
  "killed i s = p_killed (procs s ! i)"

text \<open>
  \<open>wakeup(initproc)\<close> in \<open>reparent\<close> wakes the sleepers on the \<open>struct proc\<close> of \<open>init\<close>;
  before \<open>userinit\<close> the pointer is null and no process sleeps on the null channel.
\<close>

definition reparent :: "nat \<Rightarrow> 'a ptable_scheme \<Rightarrow> 'a ptable_scheme" where
  "reparent p s =
     fold (\<lambda>i s.
         if p_parent (procs s ! i) = Some p then
           (let s = upd_proc i (\<lambda>pp. pp\<lparr>p_parent := initproc s\<rparr>) s
            in case initproc s of Some ip \<Rightarrow> wakeup (ChProc ip) s | None \<Rightarrow> s)
         else s)
       [0..<NPROC] s"

section \<open>Multilevel feedback queue helpers\<close>

definition get_time_slice :: "int \<Rightarrow> int" where
  "get_time_slice level =
     (if level = 0 then TIME_SLICE_0
      else if level = 1 then TIME_SLICE_1
      else if level = 2 then TIME_SLICE_2
      else if level = 3 then TIME_SLICE_3
      else TIME_SLICE_3)"

definition has_to_demote :: "proc \<Rightarrow> bool" where
  "has_to_demote p = (p_timer_ticks_used p \<ge> p_max_time_slice p)"

definition has_to_promote :: "proc \<Rightarrow> bool" where
  "has_to_promote p =
     (let level_slice = get_time_slice (p_queue_level p)
      in p_wait_timer_ticks p \<ge> level_slice * PROMO_THRESHOLD)"

section \<open>Life of a table entry\<close>

text \<open>
  The fields of a \<open>struct proc\<close> that \<open>allocproc\<close> sets on the entry it found, that
  \<open>kfork\<close> gives the child from its parent, that \<open>freeproc\<close> clears, and that \<open>kexit\<close>
  leaves for the parent to find.
\<close>

definition alloc_fields :: "int \<Rightarrow> proc \<Rightarrow> proc" where
  "alloc_fields pid p =
     p\<lparr>p_pid := pid, p_state := USED, p_priority := 0, p_timer_ticks_used := 0,
       p_wait_timer_ticks := 0, p_queue_level := 0, p_parent := None,
       p_max_time_slice := TIME_SLICE_0, p_voluntarily_yielded := 0\<rparr>"

definition fork_fields :: "proc \<Rightarrow> proc \<Rightarrow> proc" where
  "fork_fields p np =
     (let np = np\<lparr>p_priority := p_priority p, p_queue_level := p_queue_level p,
                 p_timer_ticks_used := 0, p_wait_timer_ticks := 0\<rparr>
      in np\<lparr>p_max_time_slice := get_time_slice (p_queue_level np), p_voluntarily_yielded := 0\<rparr>)"

definition free_fields :: "proc \<Rightarrow> proc" where
  "free_fields p =
     p\<lparr>p_trapframe := 0, p_pagetable := 0, p_sz := 0, p_pid := 0, p_parent := None,
       p_name := (p_name p)[0 := 0], p_chan := None, p_killed := 0, p_xstate := 0,
       p_state := UNUSED, p_priority := 0, p_timer_ticks_used := 0, p_wait_timer_ticks := 0,
       p_queue_level := 0, p_voluntarily_yielded := 0\<rparr>"

definition exit_fields :: "int \<Rightarrow> proc \<Rightarrow> proc" where
  "exit_fields status p = p\<lparr>p_xstate := status, p_state := ZOMBIE\<rparr>"

section \<open>Frame lemmas\<close>

lemma upd_proc_simps [simp]:
  "procs (upd_proc i f s) = upd_at i f (procs s)"
  "cpus (upd_proc i f s) = cpus s"
  "tp (upd_proc i f s) = tp s"
  "initproc (upd_proc i f s) = initproc s"
  "nextpid (upd_proc i f s) = nextpid s"
  "rr_state (upd_proc i f s) = rr_state s"
  "ticks (upd_proc i f s) = ticks s"
  "tframes (upd_proc i f s) = tframes s"
  "syms (upd_proc i f s) = syms s"
  "ptable.more (upd_proc i f s) = ptable.more s"
  by (simp_all add: upd_proc_def)

lemma mycpu_upd_proc [simp]: "mycpu (upd_proc i f s) = mycpu s"
  by (simp add: mycpu_def)

lemma myproc_upd_proc [simp]: "myproc (upd_proc i f s) = myproc s"
  by (simp add: myproc_def)

lemma myproc_procs_update [simp]: "myproc (s\<lparr>procs := ps\<rparr>) = myproc s"
  by (simp add: myproc_def mycpu_def)

lemma upd_at_same [simp]: "upd_at i (\<lambda>x. x) xs = xs"
  by (simp add: upd_at_def)

lemma upd_proc_same [simp]: "upd_proc i (\<lambda>p. p) s = s"
  by (simp add: upd_proc_def)

text \<open>
  A loop over the table whose body rewrites one entry, with a rewriting that may
  look at the running process, is a pointwise rewriting of the table.
\<close>

lemma fold_upd_proc:
  "fold (\<lambda>i s. upd_proc i (f (myproc s) i) s) is s =
     s\<lparr>procs := fold (\<lambda>i. upd_at i (f (myproc s) i)) is (procs s)\<rparr>"
proof (induction "is" arbitrary: s)
  case Nil
  then show ?case by simp
next
  case (Cons i "is")
  then show ?case by (simp add: upd_proc_def)
qed

section \<open>What wakeup does\<close>

definition wakes :: "wchan \<Rightarrow> nat option \<Rightarrow> nat \<Rightarrow> proc \<Rightarrow> proc" where
  "wakes ch me i p =
     (if Some i \<noteq> me \<and> p_state p = SLEEPING \<and> p_chan p = Some ch then p\<lparr>p_state := RUNNABLE\<rparr> else p)"

lemma wakeup_eq:
  "wakeup ch s = s\<lparr>procs := fold (\<lambda>i. upd_at i (wakes ch (myproc s) i)) [0..<NPROC] (procs s)\<rparr>"
proof -
  have body: "(\<lambda>i s. if Some i \<noteq> myproc s then
           upd_proc i (\<lambda>p. if p_state p = SLEEPING \<and> p_chan p = Some ch
                           then p\<lparr>p_state := RUNNABLE\<rparr> else p) s
         else s) = (\<lambda>i (s :: 'a ptable_scheme). upd_proc i (wakes ch (myproc s) i) s)"
    by (intro ext) (simp add: wakes_def [abs_def])
  show ?thesis unfolding wakeup_def body by (rule fold_upd_proc)
qed

lemma wakeup_frame [simp]:
  "cpus (wakeup ch s) = cpus s"
  "tp (wakeup ch s) = tp s"
  "initproc (wakeup ch s) = initproc s"
  "nextpid (wakeup ch s) = nextpid s"
  "rr_state (wakeup ch s) = rr_state s"
  "ticks (wakeup ch s) = ticks s"
  "tframes (wakeup ch s) = tframes s"
  "syms (wakeup ch s) = syms s"
  "ptable.more (wakeup ch s) = ptable.more s"
  "length (procs (wakeup ch s)) = length (procs s)"
  by (simp_all add: wakeup_eq)

lemma myproc_wakeup [simp]: "myproc (wakeup ch s) = myproc s"
  by (simp add: wakeup_eq)

lemma wakeup_nth:
  "length (procs s) = NPROC \<Longrightarrow> i < NPROC \<Longrightarrow>
     procs (wakeup ch s) ! i = wakes ch (myproc s) i (procs s ! i)"
  by (simp add: wakeup_eq fold_upd_at_nth)

lemma wakes_simps [simp]:
  "p_parent (wakes ch m i p) = p_parent p"
  "p_pid (wakes ch m i p) = p_pid p"
  "p_killed (wakes ch m i p) = p_killed p"
  "p_chan (wakes ch m i p) = p_chan p"
  "p_queue_level (wakes ch m i p) = p_queue_level p"
  "p_priority (wakes ch m i p) = p_priority p"
  by (simp_all add: wakes_def)

lemma wakes_idem [simp]: "wakes ch m i (wakes ch m i p) = wakes ch m i p"
  by (simp add: wakes_def)

text \<open>\<open>wakeup(chan)\<close> makes runnable exactly the processes that sleep on \<open>chan\<close>, other
  than the caller itself, and changes nothing else of any process or of the rest of
  the kernel's globals.\<close>

lemma wakeup_exact:
  assumes "length (procs s) = NPROC"
  shows "wakeup ch s = s\<lparr>procs := procs (wakeup ch s)\<rparr>
       \<and> (\<forall>i < NPROC. procs (wakeup ch s) ! i =
            (if Some i \<noteq> myproc s \<and> p_state (procs s ! i) = SLEEPING \<and> p_chan (procs s ! i) = Some ch
             then (procs s ! i)\<lparr>p_state := RUNNABLE\<rparr> else procs s ! i))"
proof
  show "wakeup ch s = s\<lparr>procs := procs (wakeup ch s)\<rparr>" by (simp add: wakeup_eq)
qed (use assms in \<open>simp add: wakeup_nth wakes_def\<close>)

lemma myproc_procs [simp]: "myproc (s\<lparr>procs := ps\<rparr>) = myproc s" "myproc (s\<lparr>initproc := ip\<rparr>) = myproc s"
  by (simp_all add: myproc_def mycpu_def)

lemma zero_table_simps [simp]:
  "procs zero_table = replicate NPROC zero_proc" "myproc zero_table = None" "initproc zero_table = None"
  "tp zero_table = 0" "cpus zero_table = replicate NCPU zero_cpu"
  "rr_state zero_table = replicate NCPU (replicate NQUEUES 0)"
  by (simp_all add: zero_table_def myproc_def mycpu_def zero_cpu_def)

section \<open>What kkill does\<close>

lemma kkill_loop_find:
  "kkill_loop is pid s =
     (case find_idx (\<lambda>i. p_pid (procs s ! i) = pid) is of
        None \<Rightarrow> (-1, s)
      | Some i \<Rightarrow> (0, upd_proc i (\<lambda>p. let p = p\<lparr>p_killed := 1\<rparr>
                            in if p_state p = SLEEPING then p\<lparr>p_state := RUNNABLE\<rparr> else p) s))"
  by (induction "is") auto

text \<open>C22: \<open>kkill(pid)\<close> returns -1 and changes nothing when no process has that pid; otherwise
  it returns 0, marks the first process with that pid as killed, makes it runnable if
  it was sleeping, and leaves every other process alone.\<close>

theorem kkill_spec:
  assumes "length (procs s) = NPROC"
  shows "(fst (kkill pid s) = -1 \<and> snd (kkill pid s) = s \<and> (\<forall>i < NPROC. p_pid (procs s ! i) \<noteq> pid))
       \<or> (\<exists>i < NPROC. p_pid (procs s ! i) = pid \<and> (\<forall>j < i. p_pid (procs s ! j) \<noteq> pid)
            \<and> fst (kkill pid s) = 0
            \<and> procs (snd (kkill pid s)) = (procs s)[i := (procs s ! i)
                 \<lparr>p_killed := 1,
                  p_state := (if p_state (procs s ! i) = SLEEPING then RUNNABLE
                              else p_state (procs s ! i))\<rparr>])"
proof (cases "find_idx (\<lambda>i. p_pid (procs s ! i) = pid) [0..<NPROC]")
  case None
  then have "\<forall>i < NPROC. p_pid (procs s ! i) \<noteq> pid" by (auto simp: find_idx_None)
  with None show ?thesis by (intro disjI1) (simp add: kkill_def kkill_loop_find)
next
  case (Some i)
  from find_idx_first [OF Some] obtain as bs where
    split: "[0..<NPROC] = as @ i # bs" "\<forall>j\<in>set as. p_pid (procs s ! j) \<noteq> pid" "p_pid (procs s ! i) = pid"
    by blast
  have "i < NPROC" using find_idx_Some [OF Some] by simp
  have "as = [0..<i]"
  proof -
    have "[0..<NPROC] ! length as = i" using split(1) by simp
    moreover have "length as < NPROC" using arg_cong [OF split(1), of length] by simp
    ultimately have "length as = i" by simp
    then have "as = take i [0..<NPROC]" using split(1) by simp
    with \<open>i < NPROC\<close> show ?thesis by simp
  qed
  with split(2) have "\<forall>j < i. p_pid (procs s ! j) \<noteq> pid" by auto
  then show ?thesis
    using Some \<open>i < NPROC\<close> split(3) assms
    by (intro disjI2 exI [of _ i]) (simp add: kkill_def kkill_loop_find upd_at_def Let_def)
qed

theorem kkill_spec_witness:
  "let s = zero_table\<lparr>procs := (procs zero_table)[2 := zero_proc\<lparr>p_pid := 7, p_state := SLEEPING\<rparr>]\<rparr>
   in length (procs s) = NPROC \<and> fst (kkill 7 s) = 0 \<and> p_state (procs (snd (kkill 7 s)) ! 2) = RUNNABLE"
proof -
  let ?s = "zero_table\<lparr>procs := (procs zero_table)[2 := zero_proc\<lparr>p_pid := 7, p_state := SLEEPING\<rparr>]\<rparr>"
  have pid: "p_pid (procs ?s ! i) = 7 \<longleftrightarrow> i = 2" if "i < NPROC" for i
    using that by (cases "i = 2") (simp_all add: zero_proc_def)
  have len: "length (procs ?s) = NPROC" by simp
  have "(2::nat) < NPROC" by simp
  then have some: "\<not> (\<forall>i < NPROC. p_pid (procs ?s ! i) \<noteq> 7)" using pid by blast
  have "\<exists>i < NPROC. p_pid (procs ?s ! i) = 7 \<and> fst (kkill 7 ?s) = 0
      \<and> procs (snd (kkill 7 ?s)) = (procs ?s)[i := (procs ?s ! i)\<lparr>p_killed := 1,
          p_state := (if p_state (procs ?s ! i) = SLEEPING then RUNNABLE else p_state (procs ?s ! i))\<rparr>]"
    using kkill_spec [OF len, of 7] some by blast
  then obtain i where i: "i < NPROC" "p_pid (procs ?s ! i) = 7" and res: "fst (kkill 7 ?s) = 0"
      "procs (snd (kkill 7 ?s)) = (procs ?s)[i := (procs ?s ! i)\<lparr>p_killed := 1,
          p_state := (if p_state (procs ?s ! i) = SLEEPING then RUNNABLE else p_state (procs ?s ! i))\<rparr>]"
    by blast
  from pid [OF i(1)] i(2) have "i = 2" by blast
  with res show ?thesis unfolding Let_def by simp
qed

section \<open>What reparent does\<close>

definition has_child :: "nat \<Rightarrow> nat \<Rightarrow> 'a ptable_scheme \<Rightarrow> bool" where
  "has_child n p s \<longleftrightarrow> (\<exists>c < n. p_parent (procs s ! c) = Some p)"

definition adopt :: "nat \<Rightarrow> nat \<Rightarrow> 'a ptable_scheme \<Rightarrow> nat \<Rightarrow> proc" where
  "adopt n p s i =
     (let q = procs s ! i;
          q = (if i < n \<and> p_parent q = Some p then q\<lparr>p_parent := initproc s\<rparr> else q)
      in case initproc s of
           Some ip \<Rightarrow> if has_child n p s then wakes (ChProc ip) (myproc s) i q else q
         | None \<Rightarrow> q)"

lemma has_child_Suc: "has_child (Suc n) p s \<longleftrightarrow> has_child n p s \<or> p_parent (procs s ! n) = Some p"
  by (auto simp: has_child_def less_Suc_eq)

lemma adopt_parent_later [simp]: "n \<le> i \<Longrightarrow> p_parent (adopt n p s i) = p_parent (procs s ! i)"
  by (auto simp: adopt_def Let_def split: option.split)

lemma wakes_parent_update:
  "wakes ch m i (q\<lparr>p_parent := x\<rparr>) = (wakes ch m i q)\<lparr>p_parent := x\<rparr>"
  by (simp add: wakes_def)

lemma adopt_skip:
  "p_parent (procs s ! n) \<noteq> Some p \<Longrightarrow> adopt (Suc n) p s i = adopt n p s i"
  by (cases "i = n") (auto simp: adopt_def has_child_Suc less_Suc_eq Let_def split: option.split)

lemma adopt_take:
  assumes "p_parent (procs s ! n) = Some p"
  shows "adopt (Suc n) p s i =
    (case initproc s of
       Some ip \<Rightarrow> wakes (ChProc ip) (myproc s) i
         (if i = n then (adopt n p s i)\<lparr>p_parent := initproc s\<rparr> else adopt n p s i)
     | None \<Rightarrow> (if i = n then (adopt n p s i)\<lparr>p_parent := initproc s\<rparr> else adopt n p s i))"
  using assms
  by (cases "initproc s") (auto simp: adopt_def has_child_Suc less_Suc_eq Let_def wakes_parent_update)

lemma reparent_prefix:
  assumes len: "length (procs s) = NPROC" and n: "n \<le> NPROC"
  shows "\<exists>ps. fold (\<lambda>i s. if p_parent (procs s ! i) = Some p then
           (let s = upd_proc i (\<lambda>pp. pp\<lparr>p_parent := initproc s\<rparr>) s
            in case initproc s of Some ip \<Rightarrow> wakeup (ChProc ip) s | None \<Rightarrow> s)
         else s) [0..<n] s = s\<lparr>procs := ps\<rparr>
      \<and> length ps = NPROC \<and> (\<forall>i < NPROC. ps ! i = adopt n p s i)"
  using n
proof (induction n)
  case 0
  have "\<forall>i < NPROC. procs s ! i = adopt 0 p s i"
    by (simp add: adopt_def has_child_def Let_def split: option.split)
  with len show ?case by (intro exI [of _ "procs s"]) simp
next
  case (Suc n)
  then obtain ps where ps: "fold (\<lambda>i s. if p_parent (procs s ! i) = Some p then
           (let s = upd_proc i (\<lambda>pp. pp\<lparr>p_parent := initproc s\<rparr>) s
            in case initproc s of Some ip \<Rightarrow> wakeup (ChProc ip) s | None \<Rightarrow> s)
         else s) [0..<n] s = s\<lparr>procs := ps\<rparr>" "length ps = NPROC" "\<forall>i < NPROC. ps ! i = adopt n p s i"
    by auto
  from Suc.prems ps(3) have par: "p_parent (ps ! n) = p_parent (procs s ! n)" by simp
  show ?case
  proof (cases "p_parent (procs s ! n) = Some p")
    case False
    with ps par show ?thesis
      by (intro exI [of _ ps]) (simp add: adopt_skip)
  next
    case True
    define t where "t = upd_proc n (\<lambda>pp. pp\<lparr>p_parent := initproc s\<rparr>) (s\<lparr>procs := ps\<rparr>)"
    define u where "u = (case initproc s of Some ip \<Rightarrow> wakeup (ChProc ip) t | None \<Rightarrow> t)"
    have "fold (\<lambda>i s. if p_parent (procs s ! i) = Some p then
           (let s = upd_proc i (\<lambda>pp. pp\<lparr>p_parent := initproc s\<rparr>) s
            in case initproc s of Some ip \<Rightarrow> wakeup (ChProc ip) s | None \<Rightarrow> s)
         else s) [0..<Suc n] s = u"
      using ps(1) par True unfolding u_def t_def by (simp add: Let_def)
    moreover have "u = s\<lparr>procs := procs u\<rparr>"
      by (cases "initproc s") (simp_all add: u_def t_def wakeup_eq upd_proc_def)
    moreover have "length (procs u) = NPROC"
      using ps(2) by (cases "initproc s") (simp_all add: u_def t_def)
    moreover have "\<forall>i < NPROC. procs u ! i = adopt (Suc n) p s i"
      using ps(2,3) Suc.prems
      by (cases "initproc s") (auto simp: u_def t_def wakeup_nth adopt_take [OF True] nth_upd_at)
    ultimately show ?thesis by (intro exI [of _ "procs u"]) (simp only: simp_thms)
  qed
qed

text \<open>\<open>reparent(p)\<close> hands every child of \<open>p\<close> to \<open>init\<close>, leaves the parents of all other
  processes alone, and wakes \<open>init\<close>'s sleepers exactly when \<open>p\<close> had a child; no other
  field of any process changes.\<close>

lemma reparent_spec:
  assumes "length (procs s) = NPROC" and "initproc s = Some ip" and "i < NPROC"
  shows "procs (reparent p s) ! i = (procs s ! i)
    \<lparr>p_parent := (if p_parent (procs s ! i) = Some p then Some ip else p_parent (procs s ! i)),
     p_state := (if has_child NPROC p s \<and> Some i \<noteq> myproc s \<and> p_state (procs s ! i) = SLEEPING
                    \<and> p_chan (procs s ! i) = Some (ChProc ip)
                 then RUNNABLE else p_state (procs s ! i))\<rparr>"
proof -
  from reparent_prefix [OF assms(1) order.refl] obtain ps where
    "reparent p s = s\<lparr>procs := ps\<rparr>" "\<forall>i < NPROC. ps ! i = adopt NPROC p s i"
    unfolding reparent_def by blast
  with assms show ?thesis by (auto simp: adopt_def Let_def wakes_def)
qed

end
