(* ===== verification/Sched.thy ===== *)
theory Sched
  imports Proc
begin

text \<open>
  The multilevel feedback queue scheduler of \<^verbatim>\<open>kernel/proc.c\<close> (\<open>scheduler\<close>) and the
  routines that enter it (\<open>sched\<close>, \<open>yield\<close>, \<open>sleep\<close>).  One round of \<open>scheduler\<close> is a
  promotion pass over the table, the search for a process, the switch to it and the
  demotion check after it comes back.  \<open>swtch\<close> hands the processor to another context
  until it is handed back: what happens in between is a parameter \<open>env\<close>, a function on
  the kernel state, because other processes run there.  A null \<open>struct proc *\<close> that is
  dereferenced faults in the kernel, and \<open>kerneltrap\<close> panics.
\<close>

section \<open>Locks of processes\<close>

definition acquire_proc :: "nat \<Rightarrow> 'a ptable_scheme \<Rightarrow> ('a ptable_scheme, wchan, unit) outcome" where
  "acquire_proc i s =
     oput (\<lambda>(c, lk). upd_proc i (\<lambda>p. p\<lparr>p_lock := lk\<rparr>) (upd_cpu (\<lambda>_. c) s))
       (acquire (tp s) (mycpu s, p_lock (procs s ! i)))"

definition release_proc :: "nat \<Rightarrow> 'a ptable_scheme \<Rightarrow> ('a ptable_scheme, wchan, unit) outcome" where
  "release_proc i s =
     oput (\<lambda>(c, lk). upd_proc i (\<lambda>p. p\<lparr>p_lock := lk\<rparr>) (upd_cpu (\<lambda>_. c) s))
       (release (tp s) (mycpu s, p_lock (procs s ! i)))"

section \<open>The scheduler\<close>

definition promote :: "proc \<Rightarrow> proc" where
  "promote p =
     (if p_state p = RUNNABLE then
        let p = p\<lparr>p_wait_timer_ticks := int32 (p_wait_timer_ticks p + 1)\<rparr>;
            level_slice = get_time_slice (p_queue_level p)
        in if p_wait_timer_ticks p \<ge> level_slice * PROMO_THRESHOLD \<and> p_queue_level p > 0 then
             let p = p\<lparr>p_queue_level := p_queue_level p - 1\<rparr>;
                 p = p\<lparr>p_priority := p_queue_level p\<rparr>;
                 p = p\<lparr>p_max_time_slice := get_time_slice (p_queue_level p)\<rparr>;
                 p = p\<lparr>p_timer_ticks_used := 0\<rparr>
             in p\<lparr>p_wait_timer_ticks := 0\<rparr>
           else p
      else p)"

definition promote_pass :: "'a ptable_scheme \<Rightarrow> 'a ptable_scheme" where
  "promote_pass s = fold (\<lambda>i. upd_proc i promote) [0..<NPROC] s"

definition eligible :: "nat \<Rightarrow> proc \<Rightarrow> bool" where
  "eligible q p \<longleftrightarrow> p_state p = RUNNABLE \<and> p_queue_level p = int q"

text \<open>The inner \<open>while\<close> loop: round robin over the table from \<open>start_index\<close>.\<close>

function pick_level :: "nat \<Rightarrow> nat \<Rightarrow> nat \<Rightarrow> proc list \<Rightarrow> nat option" where
  "pick_level q start_index checked ps =
     (if checked < NPROC then
        let idx = (start_index + checked) mod NPROC
        in if eligible q (ps ! idx) then Some idx
           else pick_level q start_index (checked + 1) ps
      else None)"
  by pat_completeness auto
termination
  by (relation "measure (\<lambda>(q, st, checked, ps). NPROC - checked)") auto

declare pick_level.simps [simp del]

text \<open>The outer \<open>for\<close> loop over the queues, with the update of \<open>last_queued_proc[q]\<close>.\<close>

fun pick_queues :: "nat list \<Rightarrow> nat list \<Rightarrow> proc list \<Rightarrow> (nat \<times> nat list) option" where
  "pick_queues [] lqp ps = None"
| "pick_queues (q # qs) lqp ps =
     (case pick_level q (lqp ! q) 0 ps of
        Some idx \<Rightarrow> Some (idx, lqp[q := (idx + 1) mod NPROC])
      | None \<Rightarrow> pick_queues qs lqp ps)"

definition pick :: "'a ptable_scheme \<Rightarrow> nat option \<times> 'a ptable_scheme" where
  "pick s =
     (case pick_queues [0..<NQUEUES] (rr_state s ! tp s) (procs s) of
        None \<Rightarrow> (None, s)
      | Some (chosen, lqp) \<Rightarrow> (Some chosen, s\<lparr>rr_state := (rr_state s)[tp s := lqp]\<rparr>))"

definition demote :: "proc \<Rightarrow> proc" where
  "demote p =
     (if p_voluntarily_yielded p = 0 \<and> has_to_demote p \<and> p_queue_level p < int NQUEUES - 1 then
        let p = p\<lparr>p_queue_level := p_queue_level p + 1\<rparr>;
            p = p\<lparr>p_priority := p_queue_level p\<rparr>;
            p = p\<lparr>p_max_time_slice := get_time_slice (p_queue_level p)\<rparr>;
            p = p\<lparr>p_timer_ticks_used := 0\<rparr>
        in p\<lparr>p_wait_timer_ticks := 0\<rparr>
      else p)"

text \<open>Up to the \<open>swtch\<close> into the chosen process, and from its return on.\<close>

definition dispatch :: "nat \<Rightarrow> 'a ptable_scheme \<Rightarrow> ('a ptable_scheme, wchan, unit) outcome" where
  "dispatch chosen s =
     obind (acquire_proc chosen s) (\<lambda>_ s.
     let s = upd_proc chosen (\<lambda>p. p\<lparr>p_state := RUNNING, p_voluntarily_yielded := 0\<rparr>) s
     in Done () (upd_cpu (\<lambda>c. c\<lparr>c_proc := Some chosen\<rparr>) s))"

definition undispatch :: "nat \<Rightarrow> 'a ptable_scheme \<Rightarrow> ('a ptable_scheme, wchan, unit) outcome" where
  "undispatch chosen s =
     (let s = upd_cpu (\<lambda>c. c\<lparr>c_proc := None\<rparr>) s;
          s = upd_proc chosen demote s
      in release_proc chosen s)"

text \<open>
  One round of the endless loop of \<open>scheduler\<close>.  \<open>wfi\<close>, when there is nothing to run,
  waits for an interrupt and changes nothing here.
\<close>

definition scheduler_round ::
  "('a ptable_scheme \<Rightarrow> 'a ptable_scheme) \<Rightarrow> 'a ptable_scheme \<Rightarrow> ('a ptable_scheme, wchan, unit) outcome" where
  "scheduler_round env s =
     (let s = upd_cpu intr_on s;
          s = upd_cpu intr_off s;
          s = promote_pass s;
          (chosen, s) = pick s
      in case chosen of
           None \<Rightarrow> Done () s
         | Some idx \<Rightarrow> obind (dispatch idx s) (\<lambda>_ s. undispatch idx (env s)))"

section \<open>Leaving the processor\<close>

definition sched_enter :: "'a ptable_scheme \<Rightarrow> ('a ptable_scheme, wchan, bool) outcome" where
  "sched_enter s =
     (case myproc s of
        None \<Rightarrow> Panic ''kerneltrap''
      | Some i \<Rightarrow>
          if \<not> holding (tp s) (p_lock (procs s ! i)) then Panic ''sched p->lock''
          else if c_noff (mycpu s) \<noteq> 1 then Panic ''sched locks''
          else if p_state (procs s ! i) = RUNNING then Panic ''sched RUNNING''
          else if intr_get (mycpu s) then Panic ''sched interruptible''
          else Done (c_intena (mycpu s)) s)"

definition sched ::
  "('a ptable_scheme \<Rightarrow> 'a ptable_scheme) \<Rightarrow> 'a ptable_scheme \<Rightarrow> ('a ptable_scheme, wchan, unit) outcome" where
  "sched env s =
     obind (sched_enter s) (\<lambda>intena s.
     let s = env s in Done () (upd_cpu (\<lambda>c. c\<lparr>c_intena := intena\<rparr>) s))"

text \<open>The end of \<open>kexit\<close>, up to the call of \<open>sched\<close> that never returns.\<close>

definition kexit_enter :: "int \<Rightarrow> 'a ptable_scheme \<Rightarrow> ('a ptable_scheme, wchan, unit) outcome" where
  "kexit_enter status s =
     (case myproc s of
        None \<Rightarrow> Panic ''kerneltrap''
      | Some i \<Rightarrow>
          obind (acquire_proc i s) (\<lambda>_ s. Done () (upd_proc i (exit_fields status) s)))"

text \<open>\<open>yield\<close> up to the point where it calls \<open>sched\<close>, and the whole of it.\<close>

definition yield_enter :: "'a ptable_scheme \<Rightarrow> ('a ptable_scheme, wchan, unit) outcome" where
  "yield_enter s =
     (case myproc s of
        None \<Rightarrow> Panic ''kerneltrap''
      | Some i \<Rightarrow>
          obind (acquire_proc i s) (\<lambda>_ s.
          let s = upd_proc i (\<lambda>p. p\<lparr>p_state := RUNNABLE\<rparr>) s
          in Done () (upd_proc i (\<lambda>p. p\<lparr>p_voluntarily_yielded := 1\<rparr>) s)))"

definition yield ::
  "('a ptable_scheme \<Rightarrow> 'a ptable_scheme) \<Rightarrow> 'a ptable_scheme \<Rightarrow> ('a ptable_scheme, wchan, unit) outcome" where
  "yield env s =
     (case myproc s of
        None \<Rightarrow> Panic ''kerneltrap''
      | Some i \<Rightarrow>
          obind (yield_enter s) (\<lambda>_ s.
          obind (sched env s) (\<lambda>_ s. release_proc i s)))"

text \<open>
  \<open>sleep\<close> with its condition lock: \<open>rel\<close> and \<open>acq\<close> are \<open>release(lk)\<close> and \<open>acquire(lk)\<close>
  for the lock the caller passes.
\<close>

definition sleep_enter ::
  "wchan \<Rightarrow> ('a ptable_scheme \<Rightarrow> ('a ptable_scheme, wchan, unit) outcome)
   \<Rightarrow> 'a ptable_scheme \<Rightarrow> ('a ptable_scheme, wchan, unit) outcome" where
  "sleep_enter ch rel s =
     (case myproc s of
        None \<Rightarrow> Panic ''kerneltrap''
      | Some i \<Rightarrow>
          obind (acquire_proc i s) (\<lambda>_ s.
          obind (rel s) (\<lambda>_ s.
          let s = upd_proc i (\<lambda>p. p\<lparr>p_chan := Some ch\<rparr>) s;
              s = upd_proc i (\<lambda>p. p\<lparr>p_state := SLEEPING\<rparr>) s
          in Done () (upd_proc i (\<lambda>p. p\<lparr>p_voluntarily_yielded := 1\<rparr>) s))))"

definition sleep ::
  "('a ptable_scheme \<Rightarrow> 'a ptable_scheme) \<Rightarrow> wchan
   \<Rightarrow> ('a ptable_scheme \<Rightarrow> ('a ptable_scheme, wchan, unit) outcome)
   \<Rightarrow> ('a ptable_scheme \<Rightarrow> ('a ptable_scheme, wchan, unit) outcome)
   \<Rightarrow> 'a ptable_scheme \<Rightarrow> ('a ptable_scheme, wchan, unit) outcome" where
  "sleep env ch rel acq s =
     (case myproc s of
        None \<Rightarrow> Panic ''kerneltrap''
      | Some i \<Rightarrow>
          obind (sleep_enter ch rel s) (\<lambda>_ s.
          obind (sched env s) (\<lambda>_ s.
          let s = upd_proc i (\<lambda>p. p\<lparr>p_chan := None\<rparr>) s
          in obind (release_proc i s) (\<lambda>_ s. acq s))))"

section \<open>Round robin within a queue\<close>

text \<open>How far the search has to go from \<open>st\<close> to reach \<open>i\<close>, going round the table.\<close>

definition rr_dist :: "nat \<Rightarrow> nat \<Rightarrow> nat" where
  "rr_dist st i = (i + NPROC - st) mod NPROC"

lemma rr_dist_less [simp]: "rr_dist st i < NPROC"
  by (simp add: rr_dist_def)

lemma rr_dist_inv: "st < NPROC \<Longrightarrow> i < NPROC \<Longrightarrow> (st + rr_dist st i) mod NPROC = i"
  unfolding rr_dist_def by (simp add: mod_simps)

lemma rr_dist_add: "st < NPROC \<Longrightarrow> k < NPROC \<Longrightarrow> rr_dist st ((st + k) mod NPROC) = k"
  unfolding rr_dist_def by (cases "st + k < NPROC") (simp_all add: mod_if)

lemma rr_dist_step:
  assumes "st < NPROC" "i < NPROC" "j < NPROC" "rr_dist st j < rr_dist st i"
  shows "rr_dist ((j + 1) mod NPROC) i < rr_dist st i"
  using assms unfolding rr_dist_def by (auto simp: mod_if split: if_splits)

lemma pick_level_find:
  "pick_level q st c ps = find_idx (\<lambda>i. eligible q (ps ! i)) (map (\<lambda>k. (st + k) mod NPROC) [c..<NPROC])"
proof (induction q st c ps rule: pick_level.induct)
  case (1 q st c ps)
  show ?case
  proof (cases "c < NPROC")
    case True
    then have "[c..<NPROC] = c # [c + 1..<NPROC]" by (simp add: upt_rec)
    with True 1 show ?thesis by (simp add: pick_level.simps [of q st c ps] Let_def)
  next
    case False
    then show ?thesis by (simp add: pick_level.simps [of q st c ps])
  qed
qed

lemma pick_level_None:
  assumes "st < NPROC"
  shows "pick_level q st 0 ps = None \<longleftrightarrow> (\<forall>i < NPROC. \<not> eligible q (ps ! i))"
proof
  assume none: "pick_level q st 0 ps = None"
  show "\<forall>i < NPROC. \<not> eligible q (ps ! i)"
  proof (intro allI impI)
    fix i assume "i < NPROC"
    then have "i = (st + rr_dist st i) mod NPROC" using assms by (simp add: rr_dist_inv)
    then have "i \<in> (\<lambda>k. (st + k) mod NPROC) ` set [0..<NPROC]" by (rule image_eqI) simp
    with none show "\<not> eligible q (ps ! i)" by (auto simp: pick_level_find find_idx_None)
  qed
qed (auto simp: pick_level_find find_idx_None)

lemma pick_level_Some:
  assumes st: "st < NPROC" and pick: "pick_level q st 0 ps = Some idx"
  shows "idx < NPROC" and "eligible q (ps ! idx)"
    and "j < NPROC \<Longrightarrow> eligible q (ps ! j) \<Longrightarrow> rr_dist st idx \<le> rr_dist st j"
proof -
  let ?f = "\<lambda>k. (st + k) mod NPROC"
  from pick have find: "find_idx (\<lambda>i. eligible q (ps ! i)) (map ?f [0..<NPROC]) = Some idx"
    by (simp add: pick_level_find)
  from find_idx_Some [OF find] show "idx < NPROC" and "eligible q (ps ! idx)" by auto
  from find_idx_first [OF find] obtain as bs where
    split: "map ?f [0..<NPROC] = as @ idx # bs" "\<forall>j\<in>set as. \<not> eligible q (ps ! j)" by blast
  have len: "length as < NPROC" using arg_cong [OF split(1), of length] by simp
  have nth: "?f (length as) = idx"
  proof -
    have "map ?f [0..<NPROC] ! length as = idx" using split(1) by simp
    with len show ?thesis by simp
  qed
  then have dist: "rr_dist st idx = length as" using rr_dist_add [OF st len] by simp
  show "rr_dist st idx \<le> rr_dist st j" if j: "j < NPROC" "eligible q (ps ! j)"
  proof (rule ccontr)
    assume "\<not> rr_dist st idx \<le> rr_dist st j"
    with dist have lt: "rr_dist st j < length as" by simp
    then have "as ! rr_dist st j = map ?f [0..<NPROC] ! rr_dist st j"
      using split(1) by (simp add: nth_append)
    also have "\<dots> = j" using j(1) st by (simp add: rr_dist_inv)
    finally have "j \<in> set as" using lt by (metis nth_mem)
    with split(2) j(2) show False by blast
  qed
qed

section \<open>The search over the queues\<close>

lemma pick_queues_None:
  assumes "\<And>q. q \<in> set qs \<Longrightarrow> lqp ! q < NPROC"
  shows "pick_queues qs lqp ps = None \<longleftrightarrow> (\<forall>q\<in>set qs. \<forall>i < NPROC. \<not> eligible q (ps ! i))"
  using assms
proof (induction qs)
  case Nil
  then show ?case by simp
next
  case (Cons q qs)
  then show ?case using pick_level_None [of "lqp ! q" q ps] by (auto split: option.split)
qed

lemma pick_queues_Some:
  assumes "\<And>q. q \<in> set qs \<Longrightarrow> lqp ! q < NPROC" and "pick_queues qs lqp ps = Some (idx, lqp')"
  shows "\<exists>q as bs. qs = as @ q # bs \<and> (\<forall>q'\<in>set as. \<forall>i < NPROC. \<not> eligible q' (ps ! i))
      \<and> pick_level q (lqp ! q) 0 ps = Some idx \<and> lqp' = lqp[q := (idx + 1) mod NPROC]"
  using assms
proof (induction qs)
  case Nil
  then show ?case by simp
next
  case (Cons q qs)
  show ?case
  proof (cases "pick_level q (lqp ! q) 0 ps")
    case None
    with Cons obtain q' as bs where
      "qs = as @ q' # bs" "\<forall>q''\<in>set as. \<forall>i < NPROC. \<not> eligible q'' (ps ! i)"
      "pick_level q' (lqp ! q') 0 ps = Some idx" "lqp' = lqp[q' := (idx + 1) mod NPROC]" by auto
    moreover from None Cons.prems(1) have "\<forall>i < NPROC. \<not> eligible q (ps ! i)"
      by (simp add: pick_level_None)
    ultimately show ?thesis by (intro exI [of _ q'] exI [of _ "q # as"] exI [of _ bs]) auto
  next
    case (Some i)
    with Cons.prems(2) show ?thesis
      by (intro exI [of _ q] exI [of _ "[]"] exI [of _ qs]) auto
  qed
qed

lemma upt_split:
  assumes "[0..<n] = as @ q # bs"
  shows "q < n \<and> as = [0..<q]"
proof -
  have len: "length as < n" using arg_cong [OF assms, of length] by simp
  have "[0..<n] ! length as = q" using assms by simp
  with len have q: "length as = q" by simp
  then have "as = take q [0..<n]" using assms by simp
  with len q show ?thesis by simp
qed

text \<open>The rows of \<open>rr_state\<close> hold table indices.\<close>

definition row_ok :: "nat list \<Rightarrow> bool" where
  "row_ok lqp \<longleftrightarrow> length lqp = NQUEUES \<and> (\<forall>q < NQUEUES. lqp ! q < NPROC)"

lemma pick_queues_row_ok: "row_ok lqp \<Longrightarrow> pick_queues qs lqp ps = Some (idx, lqp') \<Longrightarrow> row_ok lqp'"
proof (induction qs)
  case Nil
  then show ?case by simp
next
  case (Cons q qs)
  show ?case
  proof (cases "pick_level q (lqp ! q) 0 ps")
    case None
    with Cons show ?thesis by simp
  next
    case (Some i)
    with Cons.prems have "lqp' = lqp[q := (idx + 1) mod NPROC]" by auto
    with Cons.prems(1) show ?thesis
      by (cases "q < length lqp") (auto simp: row_ok_def nth_list_update)
  qed
qed

lemma pick_queues_levels:
  assumes row: "row_ok lqp" and pick: "pick_queues [0..<NQUEUES] lqp ps = Some (idx, lqp')"
  obtains q where "q < NQUEUES" and "\<And>q' i. q' < q \<Longrightarrow> i < NPROC \<Longrightarrow> \<not> eligible q' (ps ! i)"
    and "pick_level q (lqp ! q) 0 ps = Some idx" and "lqp' = lqp[q := (idx + 1) mod NPROC]"
proof -
  from row have "\<And>q. q \<in> set [0..<NQUEUES] \<Longrightarrow> lqp ! q < NPROC" by (auto simp: row_ok_def)
  from pick_queues_Some [OF this pick] obtain q as bs where
    split: "[0..<NQUEUES] = as @ q # bs" "\<forall>q'\<in>set as. \<forall>i < NPROC. \<not> eligible q' (ps ! i)"
      "pick_level q (lqp ! q) 0 ps = Some idx" "lqp' = lqp[q := (idx + 1) mod NPROC]" by blast
  from upt_split [OF split(1)] split(2-4) show thesis by (intro that [of q]) auto
qed

section \<open>Properties of the choice\<close>

definition rr_ok :: "'a ptable_scheme \<Rightarrow> bool" where
  "rr_ok s \<longleftrightarrow> tp s < length (rr_state s) \<and> (\<forall>row\<in>set (rr_state s). row_ok row)"

lemma rr_ok_row: "rr_ok s \<Longrightarrow> row_ok (rr_state s ! tp s)"
  by (simp add: rr_ok_def)

lemma pick_rr_ok: "rr_ok s \<Longrightarrow> pick s = (r, s') \<Longrightarrow> rr_ok s'"
proof -
  assume ok: "rr_ok s" and p: "pick s = (r, s')"
  show "rr_ok s'"
  proof (cases "pick_queues [0..<NQUEUES] (rr_state s ! tp s) (procs s)")
    case None
    with ok p show ?thesis by (simp add: pick_def)
  next
    case (Some z)
    obtain idx row where z: "z = (idx, row)" by (cases z)
    with Some ok have "row_ok row" using pick_queues_row_ok rr_ok_row by blast
    with Some z p ok show ?thesis
      using set_update_subset_insert [of "rr_state s" "tp s" row] by (auto simp: pick_def rr_ok_def)
  qed
qed

text \<open>C3: The scheduler chooses a process of the highest non-empty queue: if it chooses
  nobody then no process of levels 0 to 3 is runnable; if it chooses \<open>idx\<close>, that process
  is runnable, no runnable process has a smaller level, and among the runnable
  processes of the same level it is the first one at or after this CPU's round robin
  index, which then moves to the slot after it.  The process table does not change.\<close>

theorem pick_highest_queue:
  assumes len: "length (procs s) = NPROC" and ok: "rr_ok s"
    and lv: "\<forall>i < NPROC. p_state (procs s ! i) = RUNNABLE \<longrightarrow> 0 \<le> p_queue_level (procs s ! i)
               \<and> p_queue_level (procs s ! i) < int NQUEUES"
  shows "case pick s of
      (None, s') \<Rightarrow> s' = s \<and> (\<forall>i < NPROC. p_state (procs s ! i) \<noteq> RUNNABLE)
    | (Some idx, s') \<Rightarrow> idx < NPROC \<and> p_state (procs s ! idx) = RUNNABLE
        \<and> (\<forall>j < NPROC. p_state (procs s ! j) = RUNNABLE \<longrightarrow>
             p_queue_level (procs s ! idx) \<le> p_queue_level (procs s ! j)
           \<and> (p_queue_level (procs s ! j) = p_queue_level (procs s ! idx) \<longrightarrow>
                rr_dist (rr_state s ! tp s ! nat (p_queue_level (procs s ! idx))) idx
                \<le> rr_dist (rr_state s ! tp s ! nat (p_queue_level (procs s ! idx))) j))
        \<and> s' = s\<lparr>rr_state := (rr_state s)[tp s :=
             (rr_state s ! tp s)[nat (p_queue_level (procs s ! idx)) := (idx + 1) mod NPROC]]\<rparr>"
proof (cases "pick_queues [0..<NQUEUES] (rr_state s ! tp s) (procs s)")
  case None
  with pick_queues_None [of "[0..<NQUEUES]" "rr_state s ! tp s" "procs s"] rr_ok_row [OF ok]
  have none: "\<And>q i. q < NQUEUES \<Longrightarrow> i < NPROC \<Longrightarrow> \<not> eligible q (procs s ! i)"
    by (auto simp: row_ok_def)
  have "p_state (procs s ! i) \<noteq> RUNNABLE" if "i < NPROC" for i
  proof
    assume "p_state (procs s ! i) = RUNNABLE"
    moreover from this lv that have "0 \<le> p_queue_level (procs s ! i)" "p_queue_level (procs s ! i) < 4"
      by auto
    ultimately show False
      using none [of "nat (p_queue_level (procs s ! i))" i] that by (auto simp: eligible_def nat_less_iff)
  qed
  with None show ?thesis by (simp add: pick_def)
next
  case (Some z)
  obtain idx row where z: "z = (idx, row)" by (cases z)
  from pick_queues_levels [OF rr_ok_row [OF ok] Some [unfolded z]] obtain q where
    q: "q < NQUEUES" "\<And>q' i. q' < q \<Longrightarrow> i < NPROC \<Longrightarrow> \<not> eligible q' (procs s ! i)"
      "pick_level q (rr_state s ! tp s ! q) 0 (procs s) = Some idx"
      "row = (rr_state s ! tp s)[q := (idx + 1) mod NPROC]" by blast
  have st: "rr_state s ! tp s ! q < NPROC" using rr_ok_row [OF ok] q(1) by (simp add: row_ok_def)
  note sel = pick_level_Some [OF st q(3)]
  have lvl: "p_queue_level (procs s ! idx) = int q" using sel(2) by (simp add: eligible_def)
  have min: "p_queue_level (procs s ! idx) \<le> p_queue_level (procs s ! j)"
    if "j < NPROC" "p_state (procs s ! j) = RUNNABLE" for j
    using q(2) [of "nat (p_queue_level (procs s ! j))" j] lv that lvl by (force simp: eligible_def)
  show ?thesis
    using Some z sel lvl min q(4) by (auto simp: pick_def eligible_def)
qed

theorem pick_highest_queue_witness:
  "let s = zero_table\<lparr>procs := (procs zero_table)
             [3 := zero_proc\<lparr>p_state := RUNNABLE, p_queue_level := 2\<rparr>,
              9 := zero_proc\<lparr>p_state := RUNNABLE, p_queue_level := 1\<rparr>]\<rparr>
   in rr_ok s \<and> fst (pick s) = Some 9"
proof -
  let ?s = "zero_table\<lparr>procs := (procs zero_table)
             [3 := zero_proc\<lparr>p_state := RUNNABLE, p_queue_level := 2\<rparr>,
              9 := zero_proc\<lparr>p_state := RUNNABLE, p_queue_level := 1\<rparr>]\<rparr>"
  have run: "p_state (procs ?s ! i) = RUNNABLE \<longleftrightarrow> i = 3 \<or> i = 9" if "i < NPROC" for i
    using that by (auto simp: nth_list_update zero_proc_def)
  have ok: "rr_ok ?s" by (simp add: rr_ok_def row_ok_def)
  have len: "length (procs ?s) = NPROC" by simp
  have lv: "\<forall>i < NPROC. p_state (procs ?s ! i) = RUNNABLE \<longrightarrow> 0 \<le> p_queue_level (procs ?s ! i)
               \<and> p_queue_level (procs ?s ! i) < int NQUEUES"
    using run by (auto simp: nth_list_update)
  obtain r s' where p: "pick ?s = (r, s')" by fastforce
  have "r \<noteq> None"
  proof
    assume "r = None"
    with pick_highest_queue [OF len ok lv] p have none: "\<forall>i < NPROC. p_state (procs ?s ! i) \<noteq> RUNNABLE" by simp
    have "(3::nat) < NPROC" by simp
    with none run show False by blast
  qed
  then obtain idx where r: "r = Some idx" by blast
  with pick_highest_queue [OF len ok lv] p have idx: "idx < NPROC" "p_state (procs ?s ! idx) = RUNNABLE"
    and le: "\<forall>j < NPROC. p_state (procs ?s ! j) = RUNNABLE \<longrightarrow>
        p_queue_level (procs ?s ! idx) \<le> p_queue_level (procs ?s ! j)" by auto
  have "(9::nat) < NPROC" by simp
  with le run have "p_queue_level (procs ?s ! idx) \<le> p_queue_level (procs ?s ! 9)" by blast
  with run [OF idx(1)] idx(2) have "idx = 9" by auto
  with ok p r show ?thesis by (simp add: Let_def)
qed

section \<open>No starvation within a queue\<close>

text \<open>
  The choices one CPU makes one after the other, while the process table evolves in
  any way between them: \<open>pss\<close> lists the table at each choice.
\<close>

fun sched_picks :: "nat list \<Rightarrow> proc list list \<Rightarrow> nat list" where
  "sched_picks lqp [] = []"
| "sched_picks lqp (ps # pss) =
     (case pick_queues [0..<NQUEUES] lqp ps of
        None \<Rightarrow> sched_picks lqp pss
      | Some (idx, lqp') \<Rightarrow> idx # sched_picks lqp' pss)"

definition contender :: "nat \<Rightarrow> nat \<Rightarrow> proc list \<Rightarrow> bool" where
  "contender q i ps \<longleftrightarrow> eligible q (ps ! i) \<and> (\<forall>q' < q. \<forall>j < NPROC. \<not> eligible q' (ps ! j))"

lemma contender_pick:
  assumes row: "row_ok lqp" and q: "q < NQUEUES" and i: "i < NPROC" and c: "contender q i ps"
  obtains idx where "pick_queues [0..<NQUEUES] lqp ps = Some (idx, lqp[q := (idx + 1) mod NPROC])"
    and "idx < NPROC" and "rr_dist (lqp ! q) idx \<le> rr_dist (lqp ! q) i"
proof -
  have "pick_queues [0..<NQUEUES] lqp ps \<noteq> None"
    using pick_queues_None [of "[0..<NQUEUES]" lqp ps] row q i c by (auto simp: row_ok_def contender_def)
  then obtain idx lqp' where p: "pick_queues [0..<NQUEUES] lqp ps = Some (idx, lqp')" by auto
  from pick_queues_levels [OF row p] obtain q' where
    q': "q' < NQUEUES" "\<And>q'' i. q'' < q' \<Longrightarrow> i < NPROC \<Longrightarrow> \<not> eligible q'' (ps ! i)"
      "pick_level q' (lqp ! q') 0 ps = Some idx" "lqp' = lqp[q' := (idx + 1) mod NPROC]" by blast
  have st: "lqp ! q' < NPROC" using row q'(1) by (simp add: row_ok_def)
  note sel = pick_level_Some [OF st q'(3)]
  have "q' = q"
  proof (rule ccontr)
    assume "q' \<noteq> q"
    then consider "q' < q" | "q < q'" by linarith
    then show False
    proof cases
      case 1
      with c sel(1,2) show False by (auto simp: contender_def)
    next
      case 2
      with q'(2) i c show False by (auto simp: contender_def)
    qed
  qed
  with p q'(4) sel i c show thesis by (intro that [of idx]) (auto simp: contender_def)
qed

lemma sched_picks_reaches:
  assumes "row_ok lqp" and "q < NQUEUES" and "i < NPROC" and "\<forall>ps\<in>set pss. contender q i ps"
    and "rr_dist (lqp ! q) i < length pss"
  shows "i \<in> set (sched_picks lqp pss)"
  using assms
proof (induction pss arbitrary: lqp)
  case Nil
  then show ?case by simp
next
  case (Cons ps pss)
  from Cons.prems(4) have "contender q i ps" by simp
  from contender_pick [OF Cons.prems(1-3) this] obtain idx where
    idx: "pick_queues [0..<NQUEUES] lqp ps = Some (idx, lqp[q := (idx + 1) mod NPROC])"
      "idx < NPROC" "rr_dist (lqp ! q) idx \<le> rr_dist (lqp ! q) i" by blast
  show ?case
  proof (cases "idx = i")
    case True
    with idx(1) show ?thesis by simp
  next
    case False
    have st: "lqp ! q < NPROC" using Cons.prems(1,2) by (simp add: row_ok_def)
    have "rr_dist (lqp ! q) idx \<noteq> rr_dist (lqp ! q) i"
      using False rr_dist_inv [OF st idx(2)] rr_dist_inv [OF st Cons.prems(3)] by metis
    with idx(3) have "rr_dist ((idx + 1) mod NPROC) i < rr_dist (lqp ! q) i"
      using rr_dist_step [OF st Cons.prems(3) idx(2)] by simp
    moreover have "row_ok (lqp[q := (idx + 1) mod NPROC])"
      using pick_queues_row_ok [OF Cons.prems(1) idx(1)] .
    moreover have "lqp[q := (idx + 1) mod NPROC] ! q = (idx + 1) mod NPROC"
      using Cons.prems(1,2) by (simp add: row_ok_def)
    ultimately have "i \<in> set (sched_picks (lqp[q := (idx + 1) mod NPROC]) pss)"
      using Cons.prems by (intro Cons.IH) auto
    with idx(1) show ?thesis by simp
  qed
qed

text \<open>C5: Round robin does not starve: a process that stays runnable at level \<open>q\<close>, while no
  process of a higher-priority queue is runnable, is chosen by this CPU within
  \<open>NPROC\<close> consecutive choices, however the rest of the table changes between them.\<close>

theorem round_robin_bounded_bypass:
  assumes "row_ok lqp" and "q < NQUEUES" and "i < NPROC"
    and "\<forall>ps\<in>set pss. contender q i ps" and "NPROC \<le> length pss"
  shows "i \<in> set (sched_picks lqp (take NPROC pss))"
proof (rule sched_picks_reaches [OF assms(1-3)])
  show "\<forall>ps\<in>set (take NPROC pss). contender q i ps" using assms(4) by (auto dest: in_set_takeD)
  show "rr_dist (lqp ! q) i < length (take NPROC pss)" using assms(5) by simp
qed

theorem round_robin_bounded_bypass_witness:
  "let ps = replicate NPROC (zero_proc\<lparr>p_state := RUNNABLE\<rparr>)
   in 63 \<in> set (sched_picks (replicate NQUEUES 0) (take NPROC (replicate NPROC ps)))"
proof -
  have "contender 0 63 (replicate NPROC (zero_proc\<lparr>p_state := RUNNABLE\<rparr>))"
    by (simp add: contender_def eligible_def zero_proc_def)
  then show ?thesis unfolding Let_def
    by (intro round_robin_bounded_bypass [where q = 0]) (auto simp: row_ok_def)
qed

section \<open>The queue fields stay consistent\<close>

text \<open>
  What holds of the scheduling fields of every process: the level is one of the four,
  \<open>priority\<close> mirrors it, the slice belongs to it, and above level 0 the waiting counter
  is below the threshold of promotion.  At level 0 that counter is never reset, so it
  may wrap around; only its range is known.
\<close>

definition queue_ok :: "proc \<Rightarrow> bool" where
  "queue_ok p \<longleftrightarrow>
     0 \<le> p_queue_level p \<and> p_queue_level p < int NQUEUES
   \<and> p_priority p = p_queue_level p
   \<and> (0 < p_queue_level p \<longrightarrow> 0 \<le> p_wait_timer_ticks p
        \<and> p_wait_timer_ticks p < get_time_slice (p_queue_level p) * PROMO_THRESHOLD)
   \<and> int_range (p_wait_timer_ticks p) \<and> int_range (p_timer_ticks_used p)"

definition mlfq_ok :: "proc \<Rightarrow> bool" where
  "mlfq_ok p \<longleftrightarrow> queue_ok p
     \<and> (p_state p \<noteq> UNUSED \<longrightarrow> p_max_time_slice p = get_time_slice (p_queue_level p))"

lemma get_time_slice_bounds: "4 \<le> get_time_slice l" "get_time_slice l \<le> 32"
  by (simp_all add: get_time_slice_def)

lemma int_range_0 [simp]: "int_range 0"
  by (simp add: int_range_def)

lemma int32_wait:
  "0 \<le> w \<Longrightarrow> w < get_time_slice l * PROMO_THRESHOLD \<Longrightarrow> int32 (w + 1) = w + 1"
  using get_time_slice_bounds [of l] by (intro int32_small) linarith+

lemma promote_queue_ok: "queue_ok p \<Longrightarrow> queue_ok (promote p)"
proof -
  assume ok: "queue_ok p"
  show ?thesis
  proof (cases "0 < p_queue_level p")
    case True
    with ok have "int32 (p_wait_timer_ticks p + 1) = p_wait_timer_ticks p + 1"
      by (intro int32_wait [of _ "p_queue_level p"]) (auto simp: queue_ok_def)
    moreover have "0 < get_time_slice (p_queue_level p - 1)"
      using get_time_slice_bounds(1) [of "p_queue_level p - 1"] by linarith
    moreover have "int_range (p_wait_timer_ticks p + 1)"
      using calculation(1) int32_range by metis
    ultimately show ?thesis using ok True by (auto simp: queue_ok_def promote_def Let_def)
  next
    case False
    with ok show ?thesis by (auto simp: queue_ok_def promote_def Let_def)
  qed
qed

lemma promote_mlfq_ok: "mlfq_ok p \<Longrightarrow> mlfq_ok (promote p)"
  by (simp add: mlfq_ok_def promote_queue_ok) (simp add: promote_def Let_def)

lemma demote_queue_ok: "queue_ok p \<Longrightarrow> queue_ok (demote p)"
  by (auto simp: queue_ok_def demote_def Let_def get_time_slice_def)

lemma demote_mlfq_ok: "mlfq_ok p \<Longrightarrow> mlfq_ok (demote p)"
  by (simp add: mlfq_ok_def demote_queue_ok) (simp add: demote_def Let_def)

lemma promote_simps [simp]:
  "p_state (promote p) = p_state p"
  "p_lock (promote p) = p_lock p"
  "p_pid (promote p) = p_pid p"
  "p_voluntarily_yielded (promote p) = p_voluntarily_yielded p"
  by (simp_all add: promote_def Let_def)

lemma demote_simps [simp]:
  "p_state (demote p) = p_state p"
  "p_lock (demote p) = p_lock p"
  "p_pid (demote p) = p_pid p"
  "p_voluntarily_yielded (demote p) = p_voluntarily_yielded p"
  by (simp_all add: demote_def Let_def)

lemma promote_level_le: "p_queue_level (promote p) \<le> p_queue_level p"
  by (simp add: promote_def Let_def)

lemma demote_voluntary: "p_voluntarily_yielded p \<noteq> 0 \<Longrightarrow> demote p = p"
  by (simp add: demote_def)

lemma promote_pass_eq:
  "promote_pass s = s\<lparr>procs := fold (\<lambda>i. upd_at i promote) [0..<NPROC] (procs s)\<rparr>"
  by (simp add: promote_pass_def fold_upd_proc [of "\<lambda>_ _. promote"])

lemma promote_pass_nth:
  "length (procs s) = NPROC \<Longrightarrow> i < NPROC \<Longrightarrow> procs (promote_pass s) ! i = promote (procs s ! i)"
  by (simp add: promote_pass_eq fold_upd_at_nth)

lemma promote_pass_length [simp]: "length (procs (promote_pass s)) = length (procs s)"
  by (simp add: promote_pass_eq)

lemma promote_pass_iter:
  "length (procs s) = NPROC \<Longrightarrow> i < NPROC \<Longrightarrow>
     length (procs ((promote_pass ^^ n) s)) = NPROC
   \<and> procs ((promote_pass ^^ n) s) ! i = (promote ^^ n) (procs s ! i)"
  by (induction n) (auto simp: promote_pass_nth)

section \<open>Promotion bounds the wait\<close>

text \<open>The number of passes a runnable process still needs to reach level 0.\<close>

definition boost_left :: "proc \<Rightarrow> int" where
  "boost_left p =
     (if p_queue_level p = 1 then 80 - p_wait_timer_ticks p
      else if p_queue_level p = 2 then 240 - p_wait_timer_ticks p
      else if p_queue_level p = 3 then 560 - p_wait_timer_ticks p
      else 0)"

lemma boost_left_0: "mlfq_ok p \<Longrightarrow> boost_left p \<le> 0 \<longleftrightarrow> p_queue_level p = 0"
  by (auto simp: mlfq_ok_def queue_ok_def boost_left_def get_time_slice_def split: if_splits)

lemma boost_left_le: "mlfq_ok p \<Longrightarrow> boost_left p \<le> 560"
  by (auto simp: mlfq_ok_def queue_ok_def boost_left_def)

lemma boost_left_promote:
  assumes "mlfq_ok p" and "p_state p = RUNNABLE" and "0 < p_queue_level p"
  shows "boost_left (promote p) = boost_left p - 1"
proof -
  have "int32 (p_wait_timer_ticks p + 1) = p_wait_timer_ticks p + 1"
    using assms by (intro int32_wait [of _ "p_queue_level p"]) (auto simp: mlfq_ok_def queue_ok_def)
  moreover have "p_queue_level p = 1 \<or> p_queue_level p = 2 \<or> p_queue_level p = 3"
    using assms by (auto simp: mlfq_ok_def queue_ok_def)
  ultimately show ?thesis
    using assms by (auto simp: promote_def Let_def boost_left_def get_time_slice_def mlfq_ok_def queue_ok_def)
qed

lemma promote_iter:
  assumes "mlfq_ok p" and "p_state p = RUNNABLE"
  shows "mlfq_ok ((promote ^^ n) p) \<and> p_state ((promote ^^ n) p) = RUNNABLE
       \<and> boost_left ((promote ^^ n) p) \<le> max 0 (boost_left p - int n)"
proof (induction n)
  case 0
  then show ?case using assms by simp
next
  case (Suc n)
  let ?q = "(promote ^^ n) p"
  have ok: "mlfq_ok (promote ?q)" "p_state (promote ?q) = RUNNABLE"
    using Suc by (simp_all add: promote_mlfq_ok)
  have "boost_left (promote ?q) \<le> max 0 (boost_left p - int (Suc n))"
  proof (cases "p_queue_level ?q = 0")
    case True
    then have "p_queue_level (promote ?q) = 0" by (simp add: promote_def Let_def)
    with ok(1) boost_left_0 show ?thesis by (simp add: max.coboundedI1)
  next
    case False
    with Suc have "0 < p_queue_level ?q" by (auto simp: mlfq_ok_def queue_ok_def)
    with Suc boost_left_promote show ?thesis
      using boost_left_0 [of ?q] False by fastforce
  qed
  with ok show ?case by simp
qed

text \<open>C6: Promotion prevents starvation: a process that stays runnable is at the highest
  level after 560 scheduler passes at the latest, whatever its level was, and is still
  runnable there.\<close>

theorem promotion_reaches_top:
  assumes "length (procs s) = NPROC" and "i < NPROC" and "mlfq_ok (procs s ! i)"
    and "p_state (procs s ! i) = RUNNABLE" and "560 \<le> n"
  shows "p_queue_level (procs ((promote_pass ^^ n) s) ! i) = 0
       \<and> p_state (procs ((promote_pass ^^ n) s) ! i) = RUNNABLE"
proof -
  let ?q = "(promote ^^ n) (procs s ! i)"
  from promote_iter [OF assms(3,4), of n] have q: "mlfq_ok ?q" "p_state ?q = RUNNABLE"
    "boost_left ?q \<le> max 0 (boost_left (procs s ! i) - int n)" by auto
  moreover have "boost_left (procs s ! i) \<le> 560" using assms(3) by (rule boost_left_le)
  ultimately have "boost_left ?q \<le> 0" using assms(5) by linarith
  with q boost_left_0 have "p_queue_level ?q = 0" by blast
  with q promote_pass_iter [OF assms(1,2), of n] show ?thesis by simp
qed

theorem promotion_reaches_top_witness:
  "let p = zero_proc\<lparr>p_state := RUNNABLE, p_queue_level := 3, p_priority := 3, p_max_time_slice := 32\<rparr>
   in p_queue_level (procs ((promote_pass ^^ 560) (zero_table\<lparr>procs := replicate NPROC p\<rparr>)) ! 7) = 0"
proof -
  let ?p = "zero_proc\<lparr>p_state := RUNNABLE, p_queue_level := 3, p_priority := 3, p_max_time_slice := 32\<rparr>"
  have "mlfq_ok ?p" by (simp add: mlfq_ok_def queue_ok_def zero_proc_def get_time_slice_def)
  then show ?thesis
    using promotion_reaches_top [of "zero_table\<lparr>procs := replicate NPROC ?p\<rparr>" 7 560] by (simp add: Let_def)
qed

section \<open>Handing the processor over\<close>

lemma upd_cpu_simps [simp]:
  "procs (upd_cpu f s) = procs s"
  "tp (upd_cpu f s) = tp s"
  "rr_state (upd_cpu f s) = rr_state s"
  "initproc (upd_cpu f s) = initproc s"
  "length (cpus (upd_cpu f s)) = length (cpus s)"
  "ptable.more (upd_cpu f s) = ptable.more s"
  by (simp_all add: upd_cpu_def)

lemma mycpu_upd_cpu [simp]: "tp s < length (cpus s) \<Longrightarrow> mycpu (upd_cpu f s) = f (mycpu s)"
  by (simp add: mycpu_def upd_cpu_def)

lemma upd_cpu_upd_proc [simp]: "upd_cpu f (upd_proc i g s) = upd_proc i g (upd_cpu f s)"
  by (simp add: upd_cpu_def upd_proc_def)

lemma upd_cpu_upd_cpu [simp]: "upd_cpu f (upd_cpu g s) = upd_cpu (\<lambda>c. f (g c)) s"
  by (cases "tp s < length (cpus s)") (simp_all add: upd_cpu_def upd_at_def list_update_beyond)

lemma upd_proc_upd_proc [simp]: "upd_proc i f (upd_proc i g s) = upd_proc i (\<lambda>p. f (g p)) s"
  by (cases "i < length (procs s)") (simp_all add: upd_proc_def upd_at_def list_update_beyond)

lemma upd_proc_cong:
  "i < length (procs s) \<Longrightarrow> f (procs s ! i) = g (procs s ! i) \<Longrightarrow> upd_proc i f s = upd_proc i g s"
  by (simp add: upd_proc_def upd_at_def)

lemma upd_cpu_cong: "f (mycpu s) = g (mycpu s) \<Longrightarrow> upd_cpu f s = upd_cpu g s"
  by (simp add: upd_cpu_def upd_at_def mycpu_def)

lemma acquire_free:
  "\<not> lk_locked lk \<Longrightarrow> acquire h (c, lk) = Done () (push_off c, \<lparr>lk_locked = True, lk_cpu = Some h\<rparr>)"
  by (simp add: acquire_def acquire_enter_def test_and_set_def set_owner_def holding_def Let_def)

lemma release_held:
  "holding h lk \<Longrightarrow> release h (c, lk) = oput (\<lambda>c. (c, initlock)) (pop_off c)"
  by (cases lk) (simp add: release_def release_enter_def lock_release_def initlock_def)

lemma acquire_proc_free:
  "\<not> lk_locked (p_lock (procs s ! i)) \<Longrightarrow> acquire_proc i s =
     Done () (upd_proc i (\<lambda>p. p\<lparr>p_lock := \<lparr>lk_locked = True, lk_cpu = Some (tp s)\<rparr>\<rparr>) (upd_cpu (\<lambda>_. push_off (mycpu s)) s))"
  by (simp add: acquire_proc_def acquire_free)

lemma pop_off_outer:
  "\<not> c_sie c \<Longrightarrow> c_noff c = 1 \<Longrightarrow> pop_off c = Done () (c\<lparr>c_noff := 0, c_sie := c_intena c\<rparr>)"
  by (cases "c_intena c") (simp_all add: pop_off_def intr_defs Let_def)

lemma push_off_outer:
  "c_noff c = 0 \<Longrightarrow> push_off c = c\<lparr>c_noff := 1, c_intena := c_sie c, c_sie := False\<rparr>"
  by (simp add: push_off_def intr_defs Let_def)

lemma undispatch_held:
  assumes "tp t < length (cpus t)" and "i < length (procs t)"
    and "holding (tp t) (p_lock (procs t ! i))" and "\<not> c_sie (mycpu t)" and "c_noff (mycpu t) = 1"
  shows "undispatch i t = Done () (upd_proc i (\<lambda>p. (demote p)\<lparr>p_lock := initlock\<rparr>)
           (upd_cpu (\<lambda>c. c\<lparr>c_proc := None, c_noff := 0, c_sie := c_intena c\<rparr>) t))"
  using assms
  by (simp add: undispatch_def release_proc_def release_held pop_off_outer Let_def)
    (simp add: upd_cpu_def upd_proc_def upd_at_def mycpu_def)

text \<open>C19: A process that calls \<open>yield\<close> holding no lock passes all four checks of \<open>sched\<close>, and
  the scheduler that resumes finds the processor as it left it: the process's lock is
  open again, the nesting counter is 0, the interrupt state is the one before the call,
  and the process is runnable at the level it had, however many ticks it has used.\<close>

theorem yield_hands_over:
  assumes tp: "tp s < length (cpus s)" and me: "myproc s = Some i" and i: "i < length (procs s)"
    and free: "\<not> lk_locked (p_lock (procs s ! i))" and noff: "c_noff (mycpu s) = 0"
  shows "\<exists>t u. yield_enter s = Done () t
    \<and> sched_enter t = Done (c_sie (mycpu s)) t
    \<and> undispatch i t = Done () u
    \<and> procs u = (procs s)[i := (procs s ! i)
        \<lparr>p_state := RUNNABLE, p_voluntarily_yielded := 1, p_lock := initlock\<rparr>]
    \<and> mycpu u = (mycpu s)\<lparr>c_proc := None, c_intena := c_sie (mycpu s)\<rparr>"
proof -
  let ?lk = "\<lparr>lk_locked = True, lk_cpu = Some (tp s)\<rparr>"
  let ?t = "upd_proc i (\<lambda>p. p\<lparr>p_lock := ?lk, p_state := RUNNABLE, p_voluntarily_yielded := 1\<rparr>)
              (upd_cpu (\<lambda>_. push_off (mycpu s)) s)"
  have enter: "yield_enter s = Done () ?t"
    using me free by (simp add: yield_enter_def acquire_proc_free Let_def)
  have cpu: "mycpu ?t = (mycpu s)\<lparr>c_noff := 1, c_intena := c_sie (mycpu s), c_sie := False\<rparr>"
    using tp noff by (simp add: push_off_outer)
  have hold: "holding (tp ?t) (p_lock (procs ?t ! i))" using i by (simp add: holding_def)
  have "myproc ?t = Some i" using me cpu by (simp add: myproc_def)
  then have sch: "sched_enter ?t = Done (c_sie (mycpu s)) ?t"
    using hold cpu i by (simp add: sched_enter_def intr_get_def)
  have und: "undispatch i ?t = Done () (upd_proc i (\<lambda>p. (demote p)\<lparr>p_lock := initlock\<rparr>)
           (upd_cpu (\<lambda>c. c\<lparr>c_proc := None, c_noff := 0, c_sie := c_intena c\<rparr>) ?t))"
    using tp i hold cpu by (intro undispatch_held) auto
  let ?u = "upd_proc i (\<lambda>p. (demote p)\<lparr>p_lock := initlock\<rparr>)
              (upd_cpu (\<lambda>c. c\<lparr>c_proc := None, c_noff := 0, c_sie := c_intena c\<rparr>) ?t)"
  have "procs ?u = (procs s)[i := (procs s ! i)
        \<lparr>p_state := RUNNABLE, p_voluntarily_yielded := 1, p_lock := initlock\<rparr>]"
    using i by (simp add: upd_proc_def upd_at_def demote_voluntary)
  moreover have "mycpu ?u = (mycpu s)\<lparr>c_proc := None, c_intena := c_sie (mycpu s)\<rparr>"
    using tp noff by (simp add: push_off_outer)
  ultimately show ?thesis using enter sch und by blast
qed

theorem yield_hands_over_witness:
  "let s = zero_table\<lparr>cpus := [zero_cpu\<lparr>c_proc := Some 2, c_sie := True\<rparr>],
             procs := (procs zero_table)[2 := zero_proc\<lparr>p_state := RUNNING, p_timer_ticks_used := 9\<rparr>]\<rparr>
   in \<exists>t u. yield_enter s = Done () t \<and> sched_enter t = Done True t \<and> undispatch 2 t = Done () u
        \<and> p_queue_level (procs u ! 2) = 0 \<and> p_state (procs u ! 2) = RUNNABLE \<and> c_sie (mycpu u)"
proof -
  let ?s = "zero_table\<lparr>cpus := [zero_cpu\<lparr>c_proc := Some 2, c_sie := True\<rparr>],
             procs := (procs zero_table)[2 := zero_proc\<lparr>p_state := RUNNING, p_timer_ticks_used := 9\<rparr>]\<rparr>"
  have "myproc ?s = Some 2" by (simp add: myproc_def mycpu_def)
  moreover have "mycpu ?s = zero_cpu\<lparr>c_proc := Some 2, c_sie := True\<rparr>" by (simp add: mycpu_def)
  ultimately show ?thesis unfolding Let_def
    using yield_hands_over [of ?s 2] by (auto simp: zero_cpu_def zero_proc_def initlock_def)
qed

end
