(* ===== verification/Smp.thy ===== *)
theory Smp
  imports Sched
begin

text \<open>
  The scheduler loops of several harts over one process table.  \<^verbatim>\<open>scheduler()\<close> releases
  the lock of a process between the steps of a round, so the steps of different harts
  interleave; here each step of a hart is one critical section of \<^verbatim>\<open>p->lock\<close>, and
  \<open>sc_pc\<close> records where each hart stands and the local variables it keeps there.  The
  theorems are about every interleaving: the queue fields stay consistent, only an
  exiting process is ever demoted, and a process can be chosen by two harts at once.
\<close>

section \<open>Where a hart stands\<close>

text \<open>
  In the promotion loop at entry \<open>i\<close>; in the search of queue \<open>q\<close> from \<open>start_index\<close>
  with \<open>checked\<close> entries seen; with \<open>chosen\<close> set and no lock held; in the kernel thread
  of the process just after \<open>swtch\<close>, still holding its lock; running the process; and
  in \<open>kfork\<close> after the child's entry is filled, and after its parent is set.
\<close>

datatype spc = SPromote nat | SSearch nat nat nat | SChosen nat | SSwitched nat | SRun nat
  | SForked nat nat | SAdopted nat nat

record smp = ptable +
  sc_pc :: "spc list"

definition on_hart :: "nat \<Rightarrow> smp \<Rightarrow> smp" where
  "on_hart h s = s\<lparr>tp := h\<rparr>"

definition set_pc :: "nat \<Rightarrow> spc \<Rightarrow> smp \<Rightarrow> smp" where
  "set_pc h c s = s\<lparr>sc_pc := (sc_pc s)[h := c]\<rparr>"

text \<open>\<open>acquire(&p->lock)\<close>, an update of the entry, \<open>release(&p->lock)\<close>.\<close>

definition locked :: "nat \<Rightarrow> (proc \<Rightarrow> proc) \<Rightarrow> 'a ptable_scheme \<Rightarrow> ('a ptable_scheme, wchan, unit) outcome" where
  "locked i f s = obind (acquire_proc i s) (\<lambda>_ s. release_proc i (upd_proc i f s))"

text \<open>From the call of \<open>sched\<close> to the next round of the loop it returns into.\<close>

definition leave :: "nat \<Rightarrow> 'a ptable_scheme \<Rightarrow> ('a ptable_scheme, wchan, unit) outcome" where
  "leave i s =
     obind (sched_enter s) (\<lambda>_ s.
     obind (undispatch i s) (\<lambda>_ s. Done () (upd_cpu intr_off (upd_cpu intr_on s))))"

section \<open>Steps\<close>

inductive smp_step :: "smp \<Rightarrow> smp \<Rightarrow> bool" where
  promote: "h < length (cpus s) \<Longrightarrow> sc_pc s ! h = SPromote i \<Longrightarrow> i < NPROC \<Longrightarrow>
    locked i promote (on_hart h s) = Done () t \<Longrightarrow>
    smp_step s (set_pc h (if i + 1 < NPROC then SPromote (i + 1) else SSearch 0 (rr_state s ! h ! 0) 0) t)"
| hit: "h < length (cpus s) \<Longrightarrow> sc_pc s ! h = SSearch q st checked \<Longrightarrow> checked < NPROC \<Longrightarrow>
    idx = (st + checked) mod NPROC \<Longrightarrow> eligible q (procs s ! idx) \<Longrightarrow>
    locked idx id (on_hart h s) = Done () t \<Longrightarrow>
    smp_step s (set_pc h (SChosen idx)
      (t\<lparr>rr_state := (rr_state t)[h := (rr_state t ! h)[q := (idx + 1) mod NPROC]]\<rparr>))"
| miss: "h < length (cpus s) \<Longrightarrow> sc_pc s ! h = SSearch q st checked \<Longrightarrow> checked < NPROC \<Longrightarrow>
    idx = (st + checked) mod NPROC \<Longrightarrow> \<not> eligible q (procs s ! idx) \<Longrightarrow>
    locked idx id (on_hart h s) = Done () t \<Longrightarrow>
    smp_step s (set_pc h (SSearch q st (checked + 1)) t)"
| next_queue: "h < length (cpus s) \<Longrightarrow> sc_pc s ! h = SSearch q st checked \<Longrightarrow> \<not> checked < NPROC \<Longrightarrow>
    q + 1 < NQUEUES \<Longrightarrow> smp_step s (set_pc h (SSearch (q + 1) (rr_state s ! h ! (q + 1)) 0) s)"
| idle: "h < length (cpus s) \<Longrightarrow> sc_pc s ! h = SSearch q st checked \<Longrightarrow> \<not> checked < NPROC \<Longrightarrow>
    \<not> q + 1 < NQUEUES \<Longrightarrow> smp_step s (set_pc h (SPromote 0) s)"
| dispatch: "h < length (cpus s) \<Longrightarrow> sc_pc s ! h = SChosen i \<Longrightarrow>
    dispatch i (on_hart h s) = Done () t \<Longrightarrow> smp_step s (set_pc h (SSwitched i) t)"
| start: "h < length (cpus s) \<Longrightarrow> sc_pc s ! h = SSwitched i \<Longrightarrow>
    release_proc i (upd_proc i (\<lambda>p. if from_sleep then p\<lparr>p_chan := None\<rparr> else p)
      (upd_cpu (\<lambda>c. c\<lparr>c_intena := intena\<rparr>) (on_hart h s))) = Done () t \<Longrightarrow>
    smp_step s (set_pc h (SRun i) t)"
| yield: "h < length (cpus s) \<Longrightarrow> sc_pc s ! h = SRun i \<Longrightarrow>
    obind (yield_enter (on_hart h s)) (\<lambda>_. leave i) = Done () t \<Longrightarrow>
    smp_step s (set_pc h (SPromote 0) t)"
| sleep: "h < length (cpus s) \<Longrightarrow> sc_pc s ! h = SRun i \<Longrightarrow>
    obind (sleep_enter ch (Done ()) (on_hart h s)) (\<lambda>_. leave i) = Done () t \<Longrightarrow>
    smp_step s (set_pc h (SPromote 0) t)"
| exit: "h < length (cpus s) \<Longrightarrow> sc_pc s ! h = SRun i \<Longrightarrow> initproc s \<noteq> Some i \<Longrightarrow>
    obind (kexit_enter status (on_hart h s)) (\<lambda>_. leave i) = Done () t \<Longrightarrow>
    smp_step s (set_pc h (SPromote 0) t)"
| wake: "h < length (cpus s) \<Longrightarrow> j < NPROC \<Longrightarrow> sc_pc s ! h = SRun i \<or> sc_pc s ! h = SPromote 0 \<Longrightarrow>
    c_proc (cpus s ! h) \<noteq> Some j \<Longrightarrow>
    locked j (\<lambda>p. if p_state p = SLEEPING \<and> p_chan p = Some ch then p\<lparr>p_state := RUNNABLE\<rparr> else p)
      (on_hart h s) = Done () t \<Longrightarrow> smp_step s t"
| tick: "h < length (cpus s) \<Longrightarrow> sc_pc s ! h = SRun i \<Longrightarrow> c_proc (cpus s ! h) = Some i \<Longrightarrow>
    p_state (procs s ! i) = RUNNING \<Longrightarrow>
    locked i (\<lambda>p. p\<lparr>p_timer_ticks_used := int32 (p_timer_ticks_used p + 1)\<rparr>) (on_hart h s) = Done () t \<Longrightarrow>
    smp_step s t"
| kill: "h < length (cpus s) \<Longrightarrow> j < NPROC \<Longrightarrow> sc_pc s ! h = SRun i \<Longrightarrow>
    locked j (\<lambda>p. let p = p\<lparr>p_killed := 1\<rparr>
                  in if p_state p = SLEEPING then p\<lparr>p_state := RUNNABLE\<rparr> else p) (on_hart h s) = Done () t \<Longrightarrow>
    smp_step s t"
| reap: "h < length (cpus s) \<Longrightarrow> j < NPROC \<Longrightarrow> sc_pc s ! h = SRun i \<Longrightarrow> p_parent (procs s ! j) = Some i \<Longrightarrow>
    p_state (procs s ! j) = ZOMBIE \<Longrightarrow>
    locked j free_fields (on_hart h s) = Done () t \<Longrightarrow> smp_step s t"
| fork: "h < length (cpus s) \<Longrightarrow> i < NPROC \<Longrightarrow> j < NPROC \<Longrightarrow> sc_pc s ! h = SRun i \<Longrightarrow> p_state (procs s ! j) = UNUSED \<Longrightarrow>
    locked j (\<lambda>p. fork_fields (procs s ! i) (alloc_fields (nextpid s) p))
      (on_hart h (snd (allocpid s))) = Done () t \<Longrightarrow> smp_step s (set_pc h (SForked i j) t)"
| adopt: "h < length (cpus s) \<Longrightarrow> sc_pc s ! h = SForked i j \<Longrightarrow>
    smp_step s (set_pc h (SAdopted i j) (upd_proc j (\<lambda>p. p\<lparr>p_parent := Some i\<rparr>) s))"
| ready: "h < length (cpus s) \<Longrightarrow> sc_pc s ! h = SAdopted i j \<Longrightarrow>
    locked j (\<lambda>p. p\<lparr>p_state := RUNNABLE\<rparr>) (on_hart h s) = Done () t \<Longrightarrow>
    smp_step s (set_pc h (SRun i) t)"

text \<open>
  After \<open>procinit\<close> and \<open>userinit\<close>: entry 0 is \<open>init\<close> and every hart enters its loop.
\<close>

definition init_entry :: proc where
  "init_entry = (alloc_fields 1 zero_proc)\<lparr>p_state := RUNNABLE\<rparr>"

definition smp_init :: "nat \<Rightarrow> smp \<Rightarrow> bool" where
  "smp_init n s \<longleftrightarrow>
     procs s = init_entry # replicate (NPROC - 1) zero_proc
   \<and> cpus s = replicate n \<lparr>c_proc = None, c_noff = 0, c_intena = False, c_sie = False\<rparr>
   \<and> rr_state s = replicate NCPU (replicate NQUEUES INIT_RR_INDEX)
   \<and> initproc s = Some 0 \<and> nextpid s = 2
   \<and> sc_pc s = replicate n (SPromote 0)"

definition boot :: "nat \<Rightarrow> smp" where
  "boot n = \<lparr>procs = init_entry # replicate (NPROC - 1) zero_proc,
     cpus = replicate n \<lparr>c_proc = None, c_noff = 0, c_intena = False, c_sie = False\<rparr>, tp = 0,
     initproc = Some 0, nextpid = 2, rr_state = replicate NCPU (replicate NQUEUES INIT_RR_INDEX),
     ticks = 0, tframes = (\<lambda>_. zero_trapframe), syms = zero_syms, sc_pc = replicate n (SPromote 0)\<rparr>"

lemma boot_init: "smp_init n (boot n)"
  by (simp add: smp_init_def boot_def)

inductive smp_reach :: "nat \<Rightarrow> smp \<Rightarrow> bool" for n where
  init: "smp_init n s \<Longrightarrow> smp_reach n s"
| step: "smp_reach n s \<Longrightarrow> smp_step s t \<Longrightarrow> smp_reach n t"

section \<open>The effect of a step on the table\<close>

text \<open>What one step may do to one entry, apart from its lock, and to the hart's place.\<close>

inductive act :: "proc list \<Rightarrow> spc \<Rightarrow> nat \<Rightarrow> proc \<Rightarrow> proc \<Rightarrow> spc \<Rightarrow> bool" for ps where
  promote: "pc' = SPromote (i + 1) \<or> pc' = SSearch 0 st 0 \<Longrightarrow> act ps (SPromote i) i p (promote p) pc'"
| hit: "eligible q p \<Longrightarrow> i < NPROC \<Longrightarrow> act ps (SSearch q st c) i p p (SChosen i)"
| miss: "act ps (SSearch q st c) i p p (SSearch q' st' c')"
| idle: "act ps (SSearch q st c) i p p (SPromote 0)"
| dispatch: "act ps (SChosen i) i p (p\<lparr>p_state := RUNNING, p_voluntarily_yielded := 0\<rparr>) (SSwitched i)"
| start: "act ps (SSwitched i) i p (p\<lparr>p_chan := ch\<rparr>) (SRun i)"
| yield: "act ps (SRun i) i p (p\<lparr>p_state := RUNNABLE, p_voluntarily_yielded := 1\<rparr>) (SPromote 0)"
| sleep: "act ps (SRun i) i p (p\<lparr>p_chan := Some ch, p_state := SLEEPING, p_voluntarily_yielded := 1\<rparr>) (SPromote 0)"
| exit: "act ps (SRun i) i p (demote (exit_fields status p)) (SPromote 0)"
| wake: "pc = SRun i \<or> pc = SPromote 0 \<Longrightarrow> p_state p = SLEEPING \<Longrightarrow> act ps pc j p (p\<lparr>p_state := RUNNABLE\<rparr>) pc"
| stay: "act ps pc j p p pc"
| tick: "act ps (SRun i) i p (p\<lparr>p_timer_ticks_used := int32 (p_timer_ticks_used p + 1)\<rparr>) (SRun i)"
| kill: "act ps (SRun i) j p (p\<lparr>p_killed := 1\<rparr>) (SRun i)"
| kill_wake: "p_state p = SLEEPING \<Longrightarrow> act ps (SRun i) j p (p\<lparr>p_killed := 1, p_state := RUNNABLE\<rparr>) (SRun i)"
| reap: "p_state p = ZOMBIE \<Longrightarrow> act ps (SRun i) j p (free_fields p) (SRun i)"
| fork: "p_state p = UNUSED \<Longrightarrow> i < NPROC \<Longrightarrow> j < NPROC \<Longrightarrow>
    act ps (SRun i) j p (fork_fields (ps ! i) (alloc_fields pid p)) (SForked i j)"
| adopt: "act ps (SForked i j) j p (p\<lparr>p_parent := Some i\<rparr>) (SAdopted i j)"
| ready: "act ps (SAdopted i j) j p (p\<lparr>p_state := RUNNABLE\<rparr>) (SRun i)"

inductive_cases act_cases: "act ps pc i p p' pc'"

lemma smp_more: "ptable.more s = ptable.more t \<Longrightarrow> sc_pc s = sc_pc t"
  by (cases s; cases t) simp

lemma lock_free_commute [simp]:
  "promote (p\<lparr>p_lock := lk\<rparr>) = (promote p)\<lparr>p_lock := lk\<rparr>"
  "demote (p\<lparr>p_lock := lk\<rparr>) = (demote p)\<lparr>p_lock := lk\<rparr>"
  "free_fields (p\<lparr>p_lock := lk\<rparr>) = (free_fields p)\<lparr>p_lock := lk\<rparr>"
  "exit_fields st (p\<lparr>p_lock := lk\<rparr>) = (exit_fields st p)\<lparr>p_lock := lk\<rparr>"
  "alloc_fields pid (p\<lparr>p_lock := lk\<rparr>) = (alloc_fields pid p)\<lparr>p_lock := lk\<rparr>"
  "fork_fields q (p\<lparr>p_lock := lk\<rparr>) = (fork_fields q p)\<lparr>p_lock := lk\<rparr>"
  by (simp_all add: promote_def demote_def free_fields_def exit_fields_def alloc_fields_def
      fork_fields_def has_to_demote_def Let_def)

lemma lock_outermost [simp]:
  "p\<lparr>p_lock := lk, p_state := a\<rparr> = p\<lparr>p_state := a, p_lock := lk\<rparr>"
  "p\<lparr>p_lock := lk, p_voluntarily_yielded := b\<rparr> = p\<lparr>p_voluntarily_yielded := b, p_lock := lk\<rparr>"
  "p\<lparr>p_lock := lk, p_chan := ch\<rparr> = p\<lparr>p_chan := ch, p_lock := lk\<rparr>"
  "p\<lparr>p_lock := lk, p_killed := k\<rparr> = p\<lparr>p_killed := k, p_lock := lk\<rparr>"
  "p\<lparr>p_lock := lk, p_timer_ticks_used := n\<rparr> = p\<lparr>p_timer_ticks_used := n, p_lock := lk\<rparr>"
  "p\<lparr>p_lock := lk, p_parent := pp\<rparr> = p\<lparr>p_parent := pp, p_lock := lk\<rparr>"
  by simp_all

lemma push_off_proc [simp]: "c_proc (push_off c) = c_proc c"
  by (simp add: push_off_def intr_defs Let_def)

lemma pop_off_proc: "pop_off c = Done u c' \<Longrightarrow> c_proc c' = c_proc c"
  by (auto simp: pop_off_def intr_defs Let_def split: if_splits)

lemma set_owner_locked [simp]:
  "set_owner h (lk\<lparr>lk_locked := True\<rparr>) = \<lparr>lk_locked = True, lk_cpu = Some h\<rparr>"
  by (cases lk) (simp add: set_owner_def)

lemma acquire_proc_Done:
  "acquire_proc i s = Done u t \<Longrightarrow>
     t = upd_proc i (\<lambda>p. p\<lparr>p_lock := \<lparr>lk_locked = True, lk_cpu = Some (tp s)\<rparr>\<rparr>)
           (upd_cpu (\<lambda>_. push_off (mycpu s)) s)
   \<and> \<not> lk_locked (p_lock (procs s ! i))"
  by (cases "lk_locked (p_lock (procs s ! i))")
    (auto simp: acquire_proc_free acquire_proc_def acquire_def acquire_enter_def test_and_set_def
      Let_def split: if_splits)

lemma release_proc_Done:
  assumes "release_proc i s = Done u t"
  shows "\<exists>c. t = upd_proc i (\<lambda>p. p\<lparr>p_lock := initlock\<rparr>) (upd_cpu (\<lambda>_. c) s)
           \<and> c_proc c = c_proc (mycpu s)"
proof -
  have "holding (tp s) (p_lock (procs s ! i))"
    using assms by (auto simp: release_proc_def release_def release_enter_def split: if_splits)
  with assms show ?thesis
    by (auto simp: release_proc_def release_held oput_Done_iff dest: pop_off_proc)
qed

text \<open>The three shapes of a critical section: what it makes of the table and of the hart.\<close>

definition touched :: "nat \<Rightarrow> (proc \<Rightarrow> proc) \<Rightarrow> nat option \<Rightarrow> 'a ptable_scheme \<Rightarrow> 'a ptable_scheme \<Rightarrow> bool" where
  "touched i F cp s t \<longleftrightarrow>
     (\<exists>c lk. t = upd_proc i (\<lambda>p. (F p)\<lparr>p_lock := lk\<rparr>) (upd_cpu (\<lambda>_. c) s) \<and> c_proc c = cp)"

lemma touchedI:
  "t = upd_proc i (\<lambda>p. (F p)\<lparr>p_lock := lk\<rparr>) (upd_cpu (\<lambda>_. c) s) \<Longrightarrow> c_proc c = cp \<Longrightarrow> touched i F cp s t"
  unfolding touched_def by blast

lemma locked_touched:
  assumes "locked i f s = Done () t" and "tp s < length (cpus s)"
    and "\<And>p lk. f (p\<lparr>p_lock := lk\<rparr>) = (f p)\<lparr>p_lock := lk\<rparr>"
  shows "touched i f (c_proc (mycpu s)) s t"
proof -
  from assms(1) obtain s1 where a: "acquire_proc i s = Done () s1"
    and r: "release_proc i (upd_proc i f s1) = Done () t"
    by (auto simp: locked_def outcome_simps)
  from acquire_proc_Done [OF a] have s1:
    "s1 = upd_proc i (\<lambda>p. p\<lparr>p_lock := \<lparr>lk_locked = True, lk_cpu = Some (tp s)\<rparr>\<rparr>)
            (upd_cpu (\<lambda>_. push_off (mycpu s)) s)" by blast
  from release_proc_Done [OF r] obtain c where
    t: "t = upd_proc i (\<lambda>p. p\<lparr>p_lock := initlock\<rparr>) (upd_cpu (\<lambda>_. c) (upd_proc i f s1))"
    and c: "c_proc c = c_proc (mycpu s1)" by auto
  show ?thesis
    by (rule touchedI [of _ _ initlock _ c]) (use t c s1 assms(2,3) in simp_all)
qed

lemma leave_touched:
  assumes "leave i s = Done () t" and "tp s < length (cpus s)"
  shows "touched i demote None s t"
proof -
  from assms(1) obtain s1 s2 b where e: "sched_enter s = Done b s1" and u: "undispatch i s1 = Done () s2"
    and t: "t = upd_cpu intr_off (upd_cpu intr_on s2)"
    by (auto simp: leave_def outcome_simps)
  from e have s1: "s1 = s" by (auto simp: sched_enter_def split: option.splits if_splits)
  from u obtain c where "s2 = upd_proc i (\<lambda>p. p\<lparr>p_lock := initlock\<rparr>) (upd_cpu (\<lambda>_. c)
       (upd_proc i demote (upd_cpu (\<lambda>c. c\<lparr>c_proc := None\<rparr>) s)))"
    and "c_proc c = c_proc (mycpu (upd_cpu (\<lambda>c. c\<lparr>c_proc := None\<rparr>) s))"
    using release_proc_Done by (fastforce simp: undispatch_def Let_def s1)
  then show ?thesis
    by (intro touchedI [of _ _ initlock _ "intr_off (intr_on c)"])
      (use t assms(2) in \<open>simp_all add: intr_defs\<close>)
qed

lemma touched_trans:
  assumes "touched i F cp s t" and "touched i G cp' t u"
    and "\<And>p lk. G (p\<lparr>p_lock := lk\<rparr>) = (G p)\<lparr>p_lock := lk\<rparr>"
  shows "touched i (\<lambda>p. G (F p)) cp' s u"
proof -
  from assms(1) obtain c lk where
    t: "t = upd_proc i (\<lambda>p. (F p)\<lparr>p_lock := lk\<rparr>) (upd_cpu (\<lambda>_. c) s)" by (auto simp: touched_def)
  from assms(2) obtain c' lk' where
    u: "u = upd_proc i (\<lambda>p. (G p)\<lparr>p_lock := lk'\<rparr>) (upd_cpu (\<lambda>_. c') t)" "c_proc c' = cp'"
    by (auto simp: touched_def)
  show ?thesis by (rule touchedI [of _ _ lk' _ c']) (use t u assms(3) in simp_all)
qed

lemma yield_enter_touched:
  assumes "yield_enter s = Done () t" and "myproc s = Some i"
  shows "touched i (\<lambda>p. p\<lparr>p_state := RUNNABLE, p_voluntarily_yielded := 1\<rparr>) (Some i) s t"
  using assms by (auto simp: yield_enter_def outcome_simps Let_def myproc_def dest!: acquire_proc_Done
      intro!: touchedI [of _ _ "\<lparr>lk_locked = True, lk_cpu = Some (tp s)\<rparr>" _ "push_off (mycpu s)"])

lemma sleep_enter_touched:
  assumes "sleep_enter ch (Done ()) s = Done () t" and "myproc s = Some i"
  shows "touched i (\<lambda>p. p\<lparr>p_chan := Some ch, p_state := SLEEPING, p_voluntarily_yielded := 1\<rparr>) (Some i) s t"
  using assms by (auto simp: sleep_enter_def outcome_simps Let_def myproc_def dest!: acquire_proc_Done
      intro!: touchedI [of _ _ "\<lparr>lk_locked = True, lk_cpu = Some (tp s)\<rparr>" _ "push_off (mycpu s)"])

lemma kexit_enter_touched:
  assumes "kexit_enter status s = Done () t" and "myproc s = Some i"
  shows "touched i (exit_fields status) (Some i) s t"
  using assms by (auto simp: kexit_enter_def outcome_simps Let_def myproc_def dest!: acquire_proc_Done
      intro!: touchedI [of _ _ "\<lparr>lk_locked = True, lk_cpu = Some (tp s)\<rparr>" _ "push_off (mycpu s)"])

lemma dispatch_touched:
  assumes "dispatch i s = Done () t"
  shows "touched i (\<lambda>p. p\<lparr>p_state := RUNNING, p_voluntarily_yielded := 0\<rparr>) (Some i) s t"
  using assms by (auto simp: dispatch_def outcome_simps Let_def dest!: acquire_proc_Done
      intro!: touchedI [of _ _ "\<lparr>lk_locked = True, lk_cpu = Some (tp s)\<rparr>" _ "(push_off (mycpu s))\<lparr>c_proc := Some i\<rparr>"])

section \<open>A running hart's process\<close>

fun pc_proc :: "spc \<Rightarrow> nat option" where
  "pc_proc (SSwitched i) = Some i"
| "pc_proc (SRun i) = Some i"
| "pc_proc (SForked i j) = Some i"
| "pc_proc (SAdopted i j) = Some i"
| "pc_proc _ = None"

definition pc_ok :: "smp \<Rightarrow> bool" where
  "pc_ok s \<longleftrightarrow> length (sc_pc s) = length (cpus s)
     \<and> (\<forall>h < length (cpus s). pc_proc (sc_pc s ! h) \<noteq> None \<longrightarrow> c_proc (cpus s ! h) = pc_proc (sc_pc s ! h))"

lemma on_hart_simps [simp]:
  "procs (on_hart h s) = procs s" "cpus (on_hart h s) = cpus s" "tp (on_hart h s) = h"
  "rr_state (on_hart h s) = rr_state s" "initproc (on_hart h s) = initproc s"
  "sc_pc (on_hart h s) = sc_pc s" "mycpu (on_hart h s) = cpus s ! h"
  "myproc (on_hart h s) = c_proc (cpus s ! h)"
  by (simp_all add: on_hart_def mycpu_def myproc_def)

lemma set_pc_simps [simp]:
  "procs (set_pc h c s) = procs s" "cpus (set_pc h c s) = cpus s"
  "rr_state (set_pc h c s) = rr_state s" "sc_pc (set_pc h c s) = (sc_pc s)[h := c]"
  by (simp_all add: set_pc_def)

lemma sc_pc_upd [simp]: "sc_pc (upd_proc i f s) = sc_pc s" "sc_pc (upd_cpu g s) = sc_pc s"
  by (simp_all add: upd_proc_def upd_cpu_def)

lemma touched_on_hart:
  assumes "touched i F cp (on_hart h s) t"
  shows "\<exists>lk c. procs t = upd_at i (\<lambda>p. (F p)\<lparr>p_lock := lk\<rparr>) (procs s)
      \<and> cpus t = (cpus s)[h := c] \<and> c_proc c = cp \<and> sc_pc t = sc_pc s \<and> rr_state t = rr_state s"
proof -
  from assms obtain c lk where t: "t = upd_proc i (\<lambda>p. (F p)\<lparr>p_lock := lk\<rparr>) (upd_cpu (\<lambda>_. c) (on_hart h s))"
    and c: "c_proc c = cp" unfolding touched_def by blast
  have "cpus t = (cpus s)[h := c]" by (simp add: t upd_cpu_def upd_at_def)
  with t c show ?thesis by (intro exI [of _ lk] exI [of _ c]) simp
qed

text \<open>
  A step of hart \<open>h\<close> touches one entry, leaves every other hart alone and moves \<open>h\<close> to
  \<open>pc'\<close>, with \<open>c->proc\<close> pointing to the process it runs there.
\<close>

definition moves :: "nat \<Rightarrow> nat \<Rightarrow> (proc \<Rightarrow> proc) \<Rightarrow> spc \<Rightarrow> smp \<Rightarrow> smp \<Rightarrow> bool" where
  "moves h i F pc' s t \<longleftrightarrow>
     (\<exists>lk c. procs t = upd_at i (\<lambda>p. (F p)\<lparr>p_lock := lk\<rparr>) (procs s)
       \<and> cpus t = (cpus s)[h := c] \<and> sc_pc t = (sc_pc s)[h := pc']
       \<and> (pc_proc pc' \<noteq> None \<longrightarrow> c_proc c = pc_proc pc'))"

lemma moves_touched:
  assumes "touched i F cp (on_hart h s) t" and "pc_proc pc' \<noteq> None \<Longrightarrow> cp = pc_proc pc'"
    and "u = set_pc h pc' t \<or> u = set_pc h pc' (t\<lparr>rr_state := r\<rparr>)"
  shows "moves h i F pc' s u"
proof -
  from touched_on_hart [OF assms(1)] obtain lk c where
    "procs t = upd_at i (\<lambda>p. (F p)\<lparr>p_lock := lk\<rparr>) (procs s)" "cpus t = (cpus s)[h := c]"
    "c_proc c = cp" "sc_pc t = sc_pc s" by blast
  with assms(2,3) show ?thesis unfolding moves_def
    by (intro exI [of _ lk] exI [of _ c]) (auto simp: set_pc_def)
qed

lemma moves_touched_stay:
  assumes "touched i F (c_proc (cpus s ! h)) (on_hart h s) t" and "pc_ok s" and "h < length (cpus s)"
  shows "moves h i F (sc_pc s ! h) s t"
proof -
  from touched_on_hart [OF assms(1)] obtain lk c where
    "procs t = upd_at i (\<lambda>p. (F p)\<lparr>p_lock := lk\<rparr>) (procs s)" "cpus t = (cpus s)[h := c]"
    "c_proc c = c_proc (cpus s ! h)" "sc_pc t = sc_pc s" by blast
  with assms(2,3) show ?thesis unfolding moves_def pc_ok_def
    by (intro exI [of _ lk] exI [of _ c]) (auto simp del: not_None_eq)
qed

lemma moves_pc_ok:
  assumes "pc_ok s" and "h < length (cpus s)" and "moves h i F pc' s t"
  shows "pc_ok t"
proof -
  from assms(3) obtain c where c: "cpus t = (cpus s)[h := c]" "sc_pc t = (sc_pc s)[h := pc']"
    "pc_proc pc' \<noteq> None \<longrightarrow> c_proc c = pc_proc pc'" unfolding moves_def by blast
  show ?thesis unfolding pc_ok_def
  proof (intro conjI allI impI)
    show "length (sc_pc t) = length (cpus t)" using c assms(1) by (simp add: pc_ok_def)
    fix k assume k: "k < length (cpus t)" "pc_proc (sc_pc t ! k) \<noteq> None"
    show "c_proc (cpus t ! k) = pc_proc (sc_pc t ! k)"
    proof (cases "k = h")
      case True
      with c k assms(1) show ?thesis by (simp add: pc_ok_def del: not_None_eq)
    next
      case False
      with c k assms(1) show ?thesis by (simp add: pc_ok_def del: not_None_eq)
    qed
  qed
qed

lemma moves_idle: "t = set_pc h pc' s \<Longrightarrow> pc_proc pc' = None \<Longrightarrow> moves h i (\<lambda>p. p) pc' s t"
  unfolding moves_def
  by (intro exI [of _ "p_lock (procs s ! i)"] exI [of _ "cpus s ! h"]) (simp add: upd_at_def)

definition acts :: "smp \<Rightarrow> smp \<Rightarrow> bool" where
  "acts s t \<longleftrightarrow> (\<exists>h i F pc'. h < length (cpus s) \<and> moves h i F pc' s t
      \<and> act (procs s) (sc_pc s ! h) i (procs s ! i) (F (procs s ! i)) pc')"

lemma actsI:
  "moves h i F pc' s t \<Longrightarrow> h < length (cpus s) \<Longrightarrow>
   act (procs s) (sc_pc s ! h) i (procs s ! i) (F (procs s ! i)) pc' \<Longrightarrow> acts s t"
  unfolding acts_def by blast

lemma acts_locked:
  assumes "locked i f (on_hart h s) = Done () t" and "h < length (cpus s)"
    and "\<And>p lk. f (p\<lparr>p_lock := lk\<rparr>) = (f p)\<lparr>p_lock := lk\<rparr>"
    and "pc_proc pc' \<noteq> None \<Longrightarrow> c_proc (cpus s ! h) = pc_proc pc'"
    and "u = set_pc h pc' t \<or> u = set_pc h pc' (t\<lparr>rr_state := r\<rparr>)"
    and "act (procs s) (sc_pc s ! h) i (procs s ! i) (f (procs s ! i)) pc'"
  shows "acts s u"
proof -
  have "touched i f (c_proc (cpus s ! h)) (on_hart h s) t"
    using locked_touched [OF assms(1) _ assms(3)] assms(2) by simp
  from moves_touched [OF this assms(4,5)] assms(2,6) show ?thesis by (intro actsI)
qed

lemma acts_locked_stay:
  assumes "locked i f (on_hart h s) = Done () t" and "h < length (cpus s)" and "pc_ok s"
    and "\<And>p lk. f (p\<lparr>p_lock := lk\<rparr>) = (f p)\<lparr>p_lock := lk\<rparr>"
    and "act (procs s) (sc_pc s ! h) i (procs s ! i) (f (procs s ! i)) (sc_pc s ! h)"
  shows "acts s t"
proof -
  have "touched i f (c_proc (cpus s ! h)) (on_hart h s) t"
    using locked_touched [OF assms(1) _ assms(4)] assms(2) by simp
  from moves_touched_stay [OF this assms(3,2)] assms(2,5) show ?thesis by (intro actsI)
qed

lemma acts_leave:
  assumes "touched i F cp (on_hart h s) s1" and "leave i s1 = Done () t" and "h < length (cpus s)"
    and "act (procs s) (sc_pc s ! h) i (procs s ! i) (demote (F (procs s ! i))) (SPromote 0)"
  shows "acts s (set_pc h (SPromote 0) t)"
proof -
  have "tp s1 < length (cpus s1)" using assms(1,3) by (auto simp: touched_def)
  then have "touched i demote None s1 t" using assms(2) by (rule leave_touched [rotated])
  from touched_trans [OF assms(1) this] have "touched i (\<lambda>p. demote (F p)) None (on_hart h s) t" by simp
  then have "moves h i (\<lambda>p. demote (F p)) (SPromote 0) s (set_pc h (SPromote 0) t)"
    by (rule moves_touched) auto
  then show ?thesis using assms(3,4) by (intro actsI)
qed

lemma pc_ok_run:
  "pc_ok s \<Longrightarrow> h < length (cpus s) \<Longrightarrow> pc_proc (sc_pc s ! h) = Some i \<Longrightarrow> c_proc (cpus s ! h) = Some i"
  by (simp add: pc_ok_def)

lemma smp_step_acts:
  assumes "smp_step s t" and "pc_ok s"
  shows "acts s t"
  using assms
proof (induction rule: smp_step.induct)
  case (promote h s i t)
  then show ?case
    by (intro acts_locked [OF promote(4,1), where
          pc' = "if i + 1 < NPROC then SPromote (i + 1) else SSearch 0 (rr_state s ! h ! 0) 0"])
      (auto intro: act.promote split: if_splits)
next
  case (hit h s q st checked idx t)
  then show ?case by (intro acts_locked [OF hit(6,1)]) (auto intro: act.hit)
next
  case (miss h s q st checked idx t)
  then show ?case by (intro acts_locked [OF miss(6,1)]) (auto intro: act.miss)
next
  case (next_queue h s q st checked)
  then show ?case by (intro actsI [OF moves_idle]) (auto intro: act.miss)
next
  case (idle h s q st checked)
  then show ?case by (intro actsI [OF moves_idle]) (auto intro: act.idle)
next
  case (dispatch h s i t)
  show ?case
    by (intro actsI [OF moves_touched [OF dispatch_touched [OF dispatch(3)]]])
      (use dispatch in \<open>auto intro: act.dispatch\<close>)
next
  case (start h s i from_sleep intena t)
  let ?F = "\<lambda>p. if from_sleep then p\<lparr>p_chan := None\<rparr> else p"
  from release_proc_Done [OF start(3)] obtain c where
    t: "t = upd_proc i (\<lambda>p. p\<lparr>p_lock := initlock\<rparr>) (upd_cpu (\<lambda>_. c)
          (upd_proc i ?F (upd_cpu (\<lambda>c. c\<lparr>c_intena := intena\<rparr>) (on_hart h s))))"
    and c: "c_proc c = c_proc (cpus s ! h)" using start(1) by auto
  have "c_proc (cpus s ! h) = Some i" using start by (intro pc_ok_run) auto
  then have "touched i ?F (Some i) (on_hart h s) t"
    by (intro touchedI [of _ _ initlock _ c]) (use t c in simp_all)
  moreover have "\<exists>ch. ?F (procs s ! i) = (procs s ! i)\<lparr>p_chan := ch\<rparr>"
    by (cases from_sleep) (auto intro: exI [of _ "p_chan (procs s ! i)"])
  then have "act (procs s) (sc_pc s ! h) i (procs s ! i) (?F (procs s ! i)) (SRun i)"
    using start(2) act.start by metis
  ultimately show ?case using start(1) by (intro actsI [OF moves_touched]) auto
next
  case (yield h s i t)
  then have me: "myproc (on_hart h s) = Some i" by (simp add: pc_ok_run)
  from yield(3) obtain s1 where s1: "yield_enter (on_hart h s) = Done () s1" "leave i s1 = Done () t"
    by (auto simp: outcome_simps)
  show ?case by (rule acts_leave [OF yield_enter_touched [OF s1(1) me] s1(2) yield(1)])
      (use yield(2) in \<open>simp add: demote_voluntary act.yield\<close>)
next
  case (sleep h s i ch t)
  then have me: "myproc (on_hart h s) = Some i" by (simp add: pc_ok_run)
  from sleep(3) obtain s1 where s1: "sleep_enter ch (Done ()) (on_hart h s) = Done () s1" "leave i s1 = Done () t"
    by (auto simp: outcome_simps)
  show ?case by (rule acts_leave [OF sleep_enter_touched [OF s1(1) me] s1(2) sleep(1)])
      (use sleep(2) in \<open>simp add: demote_voluntary act.sleep\<close>)
next
  case (exit h s i status t)
  then have me: "myproc (on_hart h s) = Some i" by (simp add: pc_ok_run)
  from exit(4) obtain s1 where s1: "kexit_enter status (on_hart h s) = Done () s1" "leave i s1 = Done () t"
    by (auto simp: outcome_simps)
  show ?case by (rule acts_leave [OF kexit_enter_touched [OF s1(1) me] s1(2) exit(1)])
      (use exit(2) in \<open>simp add: act.exit\<close>)
next
  case (wake h j s i ch t)
  then show ?case by (intro acts_locked_stay [OF wake(5,1)]) (auto intro: act.wake act.stay)
next
  case (tick h s i t)
  then show ?case by (intro acts_locked_stay [OF tick(5,1)]) (auto intro: act.tick)
next
  case (kill h j s i t)
  then show ?case by (intro acts_locked_stay [OF kill(4,1)]) (auto simp: Let_def intro: act.kill act.kill_wake)
next
  case (reap h j s i t)
  then show ?case by (intro acts_locked_stay [OF reap(6,1)]) (auto intro: act.reap)
next
  case (fork h s i j t)
  let ?s = "snd (allocpid s)"
  have s: "procs ?s = procs s" "cpus ?s = cpus s" "sc_pc ?s = sc_pc s"
    by (simp_all add: allocpid_def Let_def)
  have "pc_ok ?s" using fork.prems by (simp add: pc_ok_def s)
  then have "acts ?s (set_pc h (SForked i j) t)"
    by (intro acts_locked [OF fork(6)]) (use fork in \<open>auto simp: s pc_ok_run intro: act.fork\<close>)
  then show ?case by (simp add: acts_def moves_def s)
next
  case (adopt h s i j)
  have "moves h j (\<lambda>p. p\<lparr>p_parent := Some i\<rparr>) (SAdopted i j) s
      (set_pc h (SAdopted i j) (upd_proc j (\<lambda>p. p\<lparr>p_parent := Some i\<rparr>) s))"
    unfolding moves_def using adopt
    by (intro exI [of _ "p_lock (procs s ! j)"] exI [of _ "cpus s ! h"]) (auto simp: upd_at_def pc_ok_run)
  then show ?case using adopt by (intro actsI) (auto intro: act.adopt)
next
  case (ready h s i j t)
  then show ?case by (intro acts_locked [OF ready(3,1)]) (auto simp: pc_ok_run intro: act.ready)
qed

lemma smp_init_pc_ok: "smp_init n s \<Longrightarrow> pc_ok s"
  by (simp add: smp_init_def pc_ok_def)

lemma acts_pc_ok: "acts s t \<Longrightarrow> pc_ok s \<Longrightarrow> pc_ok t"
  unfolding acts_def using moves_pc_ok by blast

lemma smp_reach_pc_ok: "smp_reach n s \<Longrightarrow> pc_ok s"
  by (induction rule: smp_reach.induct) (auto intro: smp_init_pc_ok smp_step_acts acts_pc_ok)

section \<open>Queue fields under every interleaving\<close>

lemma queue_ok_lock [simp]: "queue_ok (p\<lparr>p_lock := lk\<rparr>) = queue_ok p"
  by (simp add: queue_ok_def)

lemma queue_ok_state [simp]:
  "queue_ok (p\<lparr>p_state := st\<rparr>) = queue_ok p"
  "queue_ok (p\<lparr>p_chan := ch\<rparr>) = queue_ok p"
  "queue_ok (p\<lparr>p_voluntarily_yielded := v\<rparr>) = queue_ok p"
  "queue_ok (p\<lparr>p_killed := k\<rparr>) = queue_ok p"
  "queue_ok (p\<lparr>p_parent := pp\<rparr>) = queue_ok p"
  by (simp_all add: queue_ok_def)

lemma act_queue_ok:
  assumes "act ps pc i p p' pc'" and "queue_ok p" and "\<And>k. k < NPROC \<Longrightarrow> queue_ok (ps ! k)"
  shows "queue_ok p'"
  using assms
proof (induction rule: act.induct)
  case (exit i p status)
  then show ?case by (intro demote_queue_ok) (simp add: queue_ok_def exit_fields_def)
next
  case (tick i p)
  then show ?case by (auto simp: queue_ok_def)
next
  case (fork p i j pid)
  from fork(5) [OF fork(2)] show ?case
    by (auto simp: queue_ok_def fork_fields_def alloc_fields_def Let_def get_time_slice_def)
next
  case (reap p i j)
  then show ?case by (auto simp: queue_ok_def free_fields_def)
qed (auto intro: promote_queue_ok)

definition table_ok :: "(proc \<Rightarrow> bool) \<Rightarrow> smp \<Rightarrow> bool" where
  "table_ok P s \<longleftrightarrow> length (procs s) = NPROC \<and> (\<forall>i < NPROC. P (procs s ! i))"

lemma moves_table:
  assumes "moves h i F pc' s t" and "length (procs s) = NPROC"
  shows "length (procs t) = NPROC"
    and "j \<noteq> i \<Longrightarrow> procs t ! j = procs s ! j"
    and "i < NPROC \<Longrightarrow> \<exists>lk. procs t ! i = (F (procs s ! i))\<lparr>p_lock := lk\<rparr>"
  using assms by (auto simp: moves_def)

lemma smp_init_table: "smp_init n s \<Longrightarrow> length (procs s) = NPROC \<and> (\<forall>i < NPROC. procs s ! i = (if i = 0 then init_entry else zero_proc))"
  by (auto simp: smp_init_def nth_Cons' )

lemma acts_queue_ok:
  assumes "acts s t" and "table_ok queue_ok s"
  shows "table_ok queue_ok t"
proof -
  from assms(1) obtain h i F pc' where m: "moves h i F pc' s t"
    and a: "act (procs s) (sc_pc s ! h) i (procs s ! i) (F (procs s ! i)) pc'"
    unfolding acts_def by blast
  have len: "length (procs s) = NPROC" and ok: "\<And>k. k < NPROC \<Longrightarrow> queue_ok (procs s ! k)"
    using assms(2) by (auto simp: table_ok_def)
  have "queue_ok (procs t ! k)" if "k < NPROC" for k
  proof (cases "k = i")
    case True
    with that moves_table(3) [OF m len] act_queue_ok [OF a ok ok] show ?thesis by auto
  next
    case False
    with that moves_table(2) [OF m len] ok show ?thesis by simp
  qed
  with moves_table(1) [OF m len] show ?thesis by (simp add: table_ok_def)
qed

lemma smp_reach_queue_ok: "smp_reach n s \<Longrightarrow> table_ok queue_ok s"
proof (induction rule: smp_reach.induct)
  case (init s)
  have "queue_ok init_entry" "queue_ok zero_proc"
    by (auto simp: queue_ok_def init_entry_def alloc_fields_def zero_proc_def)
  with smp_init_table [OF init] show ?case by (auto simp: table_ok_def)
next
  case (step s t)
  then show ?case using smp_reach_pc_ok smp_step_acts acts_queue_ok by blast
qed



section \<open>Only an exiting process is demoted\<close>

lemma act_level:
  assumes "act ps pc i p p' pc'" and "p_state p \<noteq> UNUSED" and "p_queue_level p < p_queue_level p'"
    and "queue_ok p"
  shows "p_state p' = ZOMBIE"
  using assms promote_level_le [of p]
  by (induction rule: act.induct) (auto simp: exit_fields_def free_fields_def queue_ok_def dest: leD)

text \<open>C8: On any number of harts, a step never moves a process in use to a lower queue (a
  greater level), except the step in which it exits.  Preemption by the timer goes through
  \<open>yield\<close>, which reports the process as having given up the processor by itself, so the
  demotion check never demotes a process that goes on living.\<close>

theorem only_exit_demotes:
  assumes "smp_reach n s" and "smp_step s t" and "i < NPROC" and "p_state (procs s ! i) \<noteq> UNUSED"
  shows "p_queue_level (procs t ! i) \<le> p_queue_level (procs s ! i) \<or> p_state (procs t ! i) = ZOMBIE"
proof -
  from smp_step_acts [OF assms(2) smp_reach_pc_ok [OF assms(1)]]
  obtain h j F pc' where m: "moves h j F pc' s t"
    and a: "act (procs s) (sc_pc s ! h) j (procs s ! j) (F (procs s ! j)) pc'"
    unfolding acts_def by blast
  have len: "length (procs s) = NPROC" and ok: "queue_ok (procs s ! i)"
    using smp_reach_queue_ok [OF assms(1)] assms(3) by (simp_all add: table_ok_def)
  show ?thesis
  proof (cases "i = j")
    case True
    with moves_table(3) [OF m len] assms(3) obtain lk where
      "procs t ! i = (F (procs s ! i))\<lparr>p_lock := lk\<rparr>" by auto
    with act_level [OF a] ok assms(4) True show ?thesis
      by (cases "p_queue_level (procs s ! i) < p_queue_level (procs t ! i)") simp_all
  next
    case False
    with moves_table(2) [OF m len] show ?thesis by simp
  qed
qed

section \<open>One hart: every live process is at the top\<close>

text \<open>On one hart, the entry the scheduler's local variable points to is in the state it was found in.\<close>

fun pc_st :: "spc \<Rightarrow> proc list \<Rightarrow> bool" where
  "pc_st (SChosen i) ps = (i < NPROC \<and> p_state (ps ! i) = RUNNABLE)"
| "pc_st (SSwitched i) ps = (i < NPROC \<and> p_state (ps ! i) = RUNNING)"
| "pc_st (SRun i) ps = (i < NPROC \<and> p_state (ps ! i) = RUNNING)"
| "pc_st (SForked i j) ps = (i < NPROC \<and> j < NPROC \<and> p_state (ps ! i) = RUNNING \<and> p_state (ps ! j) = USED)"
| "pc_st (SAdopted i j) ps = (i < NPROC \<and> j < NPROC \<and> p_state (ps ! i) = RUNNING \<and> p_state (ps ! j) = USED)"
| "pc_st _ ps = True"

definition top_ok :: "proc \<Rightarrow> bool" where
  "top_ok p \<longleftrightarrow> (p_state p \<noteq> ZOMBIE \<longrightarrow> p_queue_level p = 0)"

lemma promote_top: "p_queue_level p = 0 \<Longrightarrow> p_queue_level (promote p) = 0"
  by (simp add: promote_def Let_def)

lemma act_top_ok:
  assumes "act ps pc i p p' pc'" and "p = ps ! i" and "pc_st pc ps"
    and "\<And>k. k < NPROC \<Longrightarrow> top_ok (ps ! k)" and "i < NPROC"
  shows "top_ok p'"
  using assms(1-3,5) assms(4) [of i] assms(4)
  by (induction rule: act.induct)
    (auto simp: top_ok_def promote_top exit_fields_def free_fields_def fork_fields_def alloc_fields_def Let_def)

lemma nth_list_update_if: "xs[i := x] ! j = (if i = j \<and> j < length xs then x else xs ! j)"
  by (cases "i = j") (auto simp: list_update_beyond)

lemma act_pc_st:
  assumes "act ps pc i p p' pc'" and "p = ps ! i" and "pc_st pc ps" and "length ps = NPROC"
  shows "pc_st pc' (ps[i := p'\<lparr>p_lock := lk\<rparr>])"
  using assms
proof (induction rule: act.induct)
  case (stay pc j p)
  then show ?case by (cases pc) (auto simp: nth_list_update_if)
qed (auto simp: nth_list_update_if eligible_def fork_fields_def alloc_fields_def free_fields_def Let_def)

definition solo :: "smp \<Rightarrow> bool" where
  "solo s \<longleftrightarrow> length (cpus s) = 1 \<and> table_ok top_ok s \<and> pc_st (sc_pc s ! 0) (procs s)"

lemma acts_solo:
  assumes "acts s t" and "solo s" and "pc_ok s"
  shows "solo t"
proof -
  from assms(1) obtain h i F pc' where h: "h < length (cpus s)" and m: "moves h i F pc' s t"
    and a: "act (procs s) (sc_pc s ! h) i (procs s ! i) (F (procs s ! i)) pc'"
    unfolding acts_def by blast
  from h assms(2) have [simp]: "h = 0" by (simp add: solo_def)
  have len: "length (procs s) = NPROC" and ok: "\<And>k. k < NPROC \<Longrightarrow> top_ok (procs s ! k)"
    and pc: "pc_st (sc_pc s ! 0) (procs s)"
    using assms(2) by (auto simp: solo_def table_ok_def)
  from m obtain lk c where t: "procs t = (procs s)[i := (F (procs s ! i))\<lparr>p_lock := lk\<rparr>]"
    "cpus t = (cpus s)[0 := c]" "sc_pc t = (sc_pc s)[0 := pc']"
    unfolding moves_def by (auto simp: upd_at_def)
  have "top_ok (procs t ! k)" if k: "k < NPROC" for k
  proof (cases "k = i")
    case True
    have "top_ok (F (procs s ! i))"
      using act_top_ok [OF a] pc ok k True by simp
    with True k len show ?thesis by (simp add: t top_ok_def)
  next
    case False
    with ok k show ?thesis by (simp add: t)
  qed
  moreover have "pc_st pc' (procs t)" using act_pc_st [OF a] pc len by (simp add: t)
  moreover have "length (sc_pc s) = 1" using assms(2,3) by (simp add: solo_def pc_ok_def)
  ultimately show ?thesis using assms(2) len by (simp add: solo_def table_ok_def t)
qed

lemma smp_reach_solo: "smp_reach 1 s \<Longrightarrow> solo s"
proof (induction rule: smp_reach.induct)
  case (init s)
  have "top_ok init_entry" "top_ok zero_proc"
    by (auto simp: top_ok_def init_entry_def alloc_fields_def zero_proc_def)
  with smp_init_table [OF init] have "table_ok top_ok s" by (auto simp: table_ok_def)
  with init show ?case by (simp add: solo_def smp_init_def)
next
  case (step s t)
  then show ?case using smp_reach_pc_ok smp_step_acts acts_solo by blast
qed

text \<open>C9: On one hart the four queues are in effect one: whatever the processes do, every
  process that has not exited is at level 0.\<close>

theorem live_processes_stay_at_top:
  assumes "smp_reach 1 s" and "i < NPROC" and "p_state (procs s ! i) \<noteq> ZOMBIE"
  shows "p_queue_level (procs s ! i) = 0"
  using smp_reach_solo [OF assms(1)] assms(2,3) by (auto simp: solo_def table_ok_def top_ok_def)

theorem live_processes_stay_at_top_witness:
  "smp_reach 1 (boot 1) \<and> p_state (procs (boot 1) ! 0) = RUNNABLE \<and> p_queue_level (procs (boot 1) ! 0) = 0"
proof -
  have "smp_reach 1 (boot 1)" by (intro smp_reach.init boot_init)
  moreover have "p_state (procs (boot 1) ! 0) = RUNNABLE" by (simp add: boot_def init_entry_def)
  ultimately show ?thesis using live_processes_stay_at_top [of "boot 1" 0] by simp
qed

section \<open>Two harts can run one process\<close>

lemma smp_reach_star: "smp_step\<^sup>*\<^sup>* s t \<Longrightarrow> smp_reach n s \<Longrightarrow> smp_reach n t"
  by (induction rule: rtranclp_induct) (auto intro: smp_reach.step)

definition idle_cpu :: cpu where
  "idle_cpu = \<lparr>c_proc = None, c_noff = 0, c_intena = False, c_sie = False\<rparr>"

text \<open>Hart \<open>h\<close> is in its loop, no lock is held, and entry 0 is runnable at the top level.\<close>

definition calm :: "nat \<Rightarrow> smp \<Rightarrow> bool" where
  "calm h s \<longleftrightarrow> length (procs s) = NPROC \<and> (\<forall>i < NPROC. \<not> lk_locked (p_lock (procs s ! i)))
     \<and> h < length (cpus s) \<and> length (sc_pc s) = length (cpus s) \<and> cpus s ! h = idle_cpu
     \<and> eligible 0 (procs s ! 0)"

lemma locked_free:
  assumes "h < length (cpus s)" and "cpus s ! h = idle_cpu" and "i < length (procs s)"
    and "\<not> lk_locked (p_lock (procs s ! i))" and "\<And>p. p_lock (f p) = p_lock p"
  shows "\<exists>t. locked i f (on_hart h s) = Done () t \<and> cpus t = cpus s \<and> sc_pc t = sc_pc s
      \<and> rr_state t = rr_state s
      \<and> procs t = upd_at i (\<lambda>p. (f (p\<lparr>p_lock := \<lparr>lk_locked = True, lk_cpu = Some h\<rparr>\<rparr>))\<lparr>p_lock := initlock\<rparr>) (procs s)"
proof -
  let ?lk = "\<lparr>lk_locked = True, lk_cpu = Some h\<rparr>"
  let ?s1 = "upd_proc i f (upd_proc i (\<lambda>p. p\<lparr>p_lock := ?lk\<rparr>) (upd_cpu (\<lambda>_. push_off (cpus s ! h)) (on_hart h s)))"
  have "locked i f (on_hart h s) = release_proc i ?s1"
    using assms(4) by (simp add: locked_def acquire_proc_free)
  also have "\<dots> = Done () (upd_proc i (\<lambda>p. p\<lparr>p_lock := initlock\<rparr>) (upd_cpu (\<lambda>_. idle_cpu) ?s1))"
    using assms by (simp add: release_proc_def release_held holding_def pop_off_outer push_off_outer idle_cpu_def)
  moreover have "cpus (upd_cpu (\<lambda>_. idle_cpu) ?s1) = cpus s"
    using assms(1,2) by (simp add: upd_cpu_def upd_at_def)
      (metis list_update_id)
  ultimately show ?thesis by simp
qed

lemma calm_locked:
  assumes "calm h s" and "i < NPROC" and "\<And>p. p_lock (f p) = p_lock p"
    and "\<And>p. eligible 0 p \<Longrightarrow> eligible 0 (f p)"
  shows "\<exists>t. locked i f (on_hart h s) = Done () t \<and> cpus t = cpus s \<and> sc_pc t = sc_pc s
      \<and> rr_state t = rr_state s \<and> calm h t"
proof -
  from assms locked_free [of h s i f] obtain t where t: "locked i f (on_hart h s) = Done () t"
    "cpus t = cpus s" "sc_pc t = sc_pc s" "rr_state t = rr_state s"
    "procs t = upd_at i (\<lambda>p. (f (p\<lparr>p_lock := \<lparr>lk_locked = True, lk_cpu = Some h\<rparr>\<rparr>))\<lparr>p_lock := initlock\<rparr>) (procs s)"
    by (auto simp: calm_def)
  have "eligible 0 (procs t ! 0)"
  proof (cases "i = 0")
    case True
    have "eligible 0 ((procs s ! 0)\<lparr>p_lock := \<lparr>lk_locked = True, lk_cpu = Some h\<rparr>\<rparr>)"
      using assms(1) by (simp add: calm_def eligible_def)
    from assms(4) [OF this] True assms(1,2) show ?thesis by (simp add: t calm_def eligible_def)
  next
    case False
    with assms(1) show ?thesis by (simp add: t calm_def)
  qed
  then have "calm h t" using assms(1) t
    by (auto simp: calm_def nth_upd_at initlock_def)
  with t show ?thesis by blast
qed

lemma promote_eligible: "eligible 0 p \<Longrightarrow> eligible 0 (promote p)"
  by (simp add: eligible_def promote_top)

lemma promote_loop:
  assumes "calm h s" and "sc_pc s ! h = SPromote i" and "i < NPROC"
  shows "\<exists>t. smp_step\<^sup>*\<^sup>* s t \<and> calm h t \<and> cpus t = cpus s \<and> rr_state t = rr_state s
      \<and> sc_pc t = (sc_pc s)[h := SSearch 0 (rr_state s ! h ! 0) 0]"
  using assms
proof (induction "NPROC - i" arbitrary: i s)
  case 0
  then show ?case by simp
next
  case (Suc n)
  from calm_locked [of h s i promote] Suc.prems promote_eligible obtain t where
    t: "locked i promote (on_hart h s) = Done () t" "cpus t = cpus s" "sc_pc t = sc_pc s"
       "rr_state t = rr_state s" "calm h t" by auto
  have h: "h < length (cpus s)" "length (sc_pc s) = length (cpus s)" using Suc.prems by (simp_all add: calm_def)
  let ?pc = "if i + 1 < NPROC then SPromote (i + 1) else SSearch 0 (rr_state s ! h ! 0) 0"
  let ?u = "set_pc h ?pc t"
  have st: "smp_step s ?u" using Suc.prems t h by (intro smp_step.promote)
  have u: "calm h ?u" "cpus ?u = cpus s" "rr_state ?u = rr_state s" "sc_pc ?u = (sc_pc s)[h := ?pc]"
    using t by (auto simp: calm_def)
  show ?case
  proof (cases "i + 1 < NPROC")
    case True
    have "sc_pc ?u ! h = SPromote (i + 1)" using True u(4) h by simp
    moreover have "n = NPROC - (i + 1)" using Suc.hyps(2) by arith
    ultimately obtain v where
      v: "smp_step\<^sup>*\<^sup>* ?u v" "calm h v" "cpus v = cpus ?u" "rr_state v = rr_state ?u"
         "sc_pc v = (sc_pc ?u)[h := SSearch 0 (rr_state ?u ! h ! 0) 0]"
      using Suc.hyps(1) [OF _ u(1) _ True] by blast
    with st u show ?thesis by (intro exI [of _ v]) (auto intro: converse_rtranclp_into_rtranclp)
  next
    case False
    with st u show ?thesis by (intro exI [of _ ?u]) auto
  qed
qed

lemma choose_first:
  assumes "calm h s" and "sc_pc s ! h = SPromote 0" and "rr_state s ! h ! 0 = 0"
  shows "\<exists>t r. smp_step\<^sup>*\<^sup>* s t \<and> calm h t \<and> cpus t = cpus s \<and> rr_state t = (rr_state s)[h := r]
      \<and> sc_pc t = (sc_pc s)[h := SChosen 0]"
proof -
  from promote_loop [OF assms(1,2)] obtain u where u: "smp_step\<^sup>*\<^sup>* s u" "calm h u" "cpus u = cpus s"
    "rr_state u = rr_state s" "sc_pc u = (sc_pc s)[h := SSearch 0 (rr_state s ! h ! 0) 0]" by auto
  from calm_locked [OF u(2), of 0 id] obtain t where
    t: "locked 0 id (on_hart h u) = Done () t" "cpus t = cpus u" "sc_pc t = sc_pc u"
       "rr_state t = rr_state u" "calm h t" by auto
  let ?v = "set_pc h (SChosen 0) (t\<lparr>rr_state := (rr_state t)[h := (rr_state t ! h)[0 := (0 + 1) mod NPROC]]\<rparr>)"
  have h: "h < length (cpus u)" "length (sc_pc s) = length (cpus u)" "eligible 0 (procs u ! 0)"
    using u(2,5) by (simp_all add: calm_def)
  have "smp_step u ?v"
    by (rule smp_step.hit [of h u 0 0 0 0 t]) (use h t(1) u(5) assms(3) in simp_all)
  with u(1) have "smp_step\<^sup>*\<^sup>* s ?v" by (rule rtranclp.rtrancl_into_rtrancl)
  moreover have "calm h ?v" using t(5) by (auto simp: calm_def)
  ultimately show ?thesis using t u by (intro exI [of _ ?v] exI) auto
qed

lemma cpus_upd_cpu: "cpus (upd_cpu f s) = upd_at (tp s) f (cpus s)"
  by (simp add: upd_cpu_def)

lemma run_chosen:
  assumes "h < length (cpus s)" and "length (sc_pc s) = length (cpus s)" and "cpus s ! h = idle_cpu"
    and "length (procs s) = NPROC" and "\<not> lk_locked (p_lock (procs s ! 0))" and "sc_pc s ! h = SChosen 0"
  shows "\<exists>t c. smp_step\<^sup>*\<^sup>* s t \<and> cpus t = (cpus s)[h := c] \<and> sc_pc t = (sc_pc s)[h := SRun 0]
      \<and> length (procs t) = NPROC \<and> \<not> lk_locked (p_lock (procs t ! 0))"
proof -
  let ?lk = "\<lparr>lk_locked = True, lk_cpu = Some h\<rparr>"
  let ?d = "upd_proc 0 (\<lambda>p. p\<lparr>p_lock := ?lk, p_state := RUNNING, p_voluntarily_yielded := 0\<rparr>)
              (upd_cpu (\<lambda>_. (push_off (cpus s ! h))\<lparr>c_proc := Some 0\<rparr>) (on_hart h s))"
  have "dispatch 0 (on_hart h s) = Done () ?d"
    using assms by (simp add: dispatch_def acquire_proc_free Let_def del: lock_outermost)
  with assms have s1: "smp_step s (set_pc h (SSwitched 0) ?d)" by (intro smp_step.dispatch)
  let ?s = "set_pc h (SSwitched 0) ?d"
  let ?e = "upd_proc 0 (\<lambda>p. if False then p\<lparr>p_chan := None\<rparr> else p)
      (upd_cpu (\<lambda>c. c\<lparr>c_intena := True\<rparr>) (on_hart h ?s))"
  let ?f = "upd_proc 0 (\<lambda>p. p\<lparr>p_lock := initlock\<rparr>)
      (upd_cpu (\<lambda>_. \<lparr>c_proc = Some 0, c_noff = 0, c_intena = True, c_sie = True\<rparr>) ?e)"
  have "release_proc 0 ?e = Done () ?f"
    using assms by (simp add: release_proc_def release_held holding_def pop_off_outer push_off_outer idle_cpu_def cpus_upd_cpu)
  then have s2: "smp_step ?s (set_pc h (SRun 0) ?f)"
    using assms by (intro smp_step.start [where from_sleep = False and intena = True]) auto
  from s1 s2 have "smp_step\<^sup>*\<^sup>* s (set_pc h (SRun 0) ?f)" by auto
  moreover have "cpus ?f = (cpus s)[h := \<lparr>c_proc = Some 0, c_noff = 0, c_intena = True, c_sie = True\<rparr>]"
    by (simp add: upd_cpu_def upd_at_def)
  ultimately show ?thesis using assms
    by (intro exI [of _ "set_pc h (SRun 0) ?f"] exI) (auto simp: initlock_def)
qed

text \<open>C10: With three harts, the number the build gives the machine, two of them can run
  the same process at once: \<open>scheduler\<close> releases the lock of the process it chose before
  it dispatches it, and does not look at the state again after taking the lock back.\<close>

theorem two_harts_run_one_process:
  "\<exists>s. smp_reach 3 s \<and> sc_pc s ! 0 = SRun 0 \<and> sc_pc s ! 1 = SRun 0"
proof -
  obtain s :: smp where init: "smp_init 3 s" using boot_init by blast
  have c: "calm h s" "sc_pc s ! h = SPromote 0" "rr_state s ! h ! 0 = 0" if "h < 3" for h
  proof -
    have "eligible 0 init_entry" by (simp add: eligible_def init_entry_def alloc_fields_def)
    moreover have "\<not> lk_locked (p_lock init_entry)" "\<not> lk_locked (p_lock zero_proc)"
      by (simp_all add: init_entry_def alloc_fields_def zero_proc_def initlock_def)
    ultimately show "calm h s" "sc_pc s ! h = SPromote 0" "rr_state s ! h ! 0 = 0"
      using smp_init_table [OF init] init that by (auto simp: calm_def smp_init_def idle_cpu_def nth_Cons')
  qed
  from choose_first [OF c(1-3), of 0] obtain t r where
    t: "smp_step\<^sup>*\<^sup>* s t" "calm 0 t" "cpus t = cpus s" "rr_state t = (rr_state s)[0 := r]"
       "sc_pc t = (sc_pc s)[0 := SChosen 0]" by auto
  have "calm 1 t" using t c(1) [of 1] by (simp add: calm_def)
  moreover have "sc_pc t ! 1 = SPromote 0" "rr_state t ! 1 ! 0 = 0" using c(2,3) [of 1] t by simp_all
  ultimately obtain u where
    u: "smp_step\<^sup>*\<^sup>* t u" "calm 1 u" "cpus u = cpus t" "sc_pc u = (sc_pc t)[1 := SChosen 0]"
    using choose_first [of 1 t] by blast
  have len: "length (cpus s) = 3" "length (sc_pc s) = 3" using init by (simp_all add: smp_init_def)
  from run_chosen [of 0 u] obtain v d where v: "smp_step\<^sup>*\<^sup>* u v" "cpus v = (cpus u)[0 := d]"
    "sc_pc v = (sc_pc u)[0 := SRun 0]" "length (procs v) = NPROC" "\<not> lk_locked (p_lock (procs v ! 0))"
    using u t len c(1) [of 0] by (auto simp: calm_def)
  from run_chosen [of 1 v] obtain w where w: "smp_step\<^sup>*\<^sup>* v w" "sc_pc w = (sc_pc v)[1 := SRun 0]"
    using v u t len c(1) [of 1] by (auto simp: calm_def)
  have "smp_step\<^sup>*\<^sup>* s w" using t(1) u(1) v(1) w(1) by (meson rtranclp_trans)
  with smp_reach.init [OF init] smp_reach_star have "smp_reach 3 w" by blast
  moreover have "sc_pc w ! 0 = SRun 0" "sc_pc w ! 1 = SRun 0" using w v u t len by simp_all
  ultimately show ?thesis by blast
qed

theorem only_exit_demotes_witness:
  "\<exists>s t. smp_reach 3 s \<and> smp_step s t \<and> p_state (procs s ! 0) = RUNNABLE
    \<and> (p_queue_level (procs t ! 0) \<le> p_queue_level (procs s ! 0) \<or> p_state (procs t ! 0) = ZOMBIE)"
proof -
  have r: "smp_reach 3 (boot 3)" by (intro smp_reach.init boot_init)
  have st: "p_state (procs (boot 3) ! 0) = RUNNABLE" by (simp add: boot_def init_entry_def)
  have "\<exists>t. locked 0 promote (on_hart 0 (boot 3)) = Done () t"
    using locked_free [of 0 "boot 3" 0 promote]
    by (auto simp: boot_def idle_cpu_def init_entry_def alloc_fields_def zero_proc_def initlock_def)
  then obtain t where "locked 0 promote (on_hart 0 (boot 3)) = Done () t" by blast
  then have "smp_step (boot 3) (set_pc 0 (if (0::nat) + 1 < NPROC then SPromote (0 + 1)
      else SSearch 0 (rr_state (boot 3) ! 0 ! 0) 0) t)"
    by (intro smp_step.promote) (simp_all add: boot_def)
  with only_exit_demotes [OF r this, of 0] r st show ?thesis by (intro exI [of _ "boot 3"] exI) auto
qed

end
