(* ===== verification/Strings.thy ===== *)
theory Strings
  imports Params
begin

text \<open>
  Bytes and \<^verbatim>\<open>kernel/string.c\<close>.  Memory is a function from addresses to bytes; words are
  stored little-endian.  The routines that move memory work on the memory itself, so that
  overlapping regions behave as in C; the string routines work on the bytes from a pointer
  on, a list.
\<close>

type_synonym memory = "u64 \<Rightarrow> u8"

section \<open>Words as bytes\<close>

definition bytes_of :: "nat \<Rightarrow> 'a::len word \<Rightarrow> u8 list" where
  "bytes_of n w = map (\<lambda>i. ucast (drop_bit (8 * i) w)) [0..<n]"

fun word_of_bytes :: "u8 list \<Rightarrow> 'a::len word" where
  "word_of_bytes [] = 0"
| "word_of_bytes (b # bs) = ucast b OR push_bit 8 (word_of_bytes bs)"

lemma length_bytes_of [simp]: "length (bytes_of n w) = n"
  by (simp add: bytes_of_def)

lemma bit_word_of_bytes:
  "bit (word_of_bytes bs :: 'a::len word) n \<longleftrightarrow>
     n < LENGTH('a) \<and> n div 8 < length bs \<and> bit (bs ! (n div 8)) (n mod 8)"
proof (induction bs arbitrary: n)
  case Nil
  then show ?case by simp
next
  case (Cons b bs)
  show ?case
  proof (cases "n < 8")
    case True
    then show ?thesis by (auto simp: bit_simps)
  next
    case False
    then obtain k where k: "n = 8 + k" using le_Suc_ex not_less by blast
    have "\<not> bit b (8 + k)" using bit_imp_le_length [of b "8 + k"] by auto
    moreover have "(8 + k) div 8 = Suc (k div 8)" by simp
    ultimately show ?thesis using Cons [of k] by (auto simp: bit_simps k)
  qed
qed

lemma word_of_bytes_of: "8 * n = LENGTH('a) \<Longrightarrow> word_of_bytes (bytes_of n (w :: 'a::len word)) = w"
  by (rule bit_word_eqI)
    (auto simp: bit_word_of_bytes bytes_of_def bit_simps less_mult_imp_div_less mult.commute)

lemma bytes_of_word:
  assumes "length bs = n" and "8 * n = LENGTH('a)"
  shows "bytes_of n (word_of_bytes bs :: 'a::len word) = bs"
proof (rule nth_equalityI)
  fix i assume i: "i < length (bytes_of n (word_of_bytes bs :: 'a word))"
  show "bytes_of n (word_of_bytes bs :: 'a word) ! i = bs ! i"
  proof (rule bit_word_eqI)
    fix k assume "k < LENGTH(8)"
    then have "k < 8" by simp
    moreover have "8 * i + k < 8 * n" using i \<open>k < 8\<close> by simp
    ultimately show "bit (bytes_of n (word_of_bytes bs :: 'a word) ! i) k = bit (bs ! i) k"
      using i assms by (simp add: bytes_of_def bit_simps bit_word_of_bytes)
  qed
qed (use assms in simp)

section \<open>Bytes in memory\<close>

definition read_bytes :: "memory \<Rightarrow> u64 \<Rightarrow> nat \<Rightarrow> u8 list" where
  "read_bytes m a n = map (\<lambda>i. m (a + of_nat i)) [0..<n]"

definition write_bytes :: "u64 \<Rightarrow> u8 list \<Rightarrow> memory \<Rightarrow> memory" where
  "write_bytes a bs m = (\<lambda>x. if unat (x - a) < length bs then bs ! unat (x - a) else m x)"

definition load64 :: "memory \<Rightarrow> u64 \<Rightarrow> u64" where
  "load64 m a = word_of_bytes (read_bytes m a 8)"

definition store64 :: "u64 \<Rightarrow> u64 \<Rightarrow> memory \<Rightarrow> memory" where
  "store64 a v m = write_bytes a (bytes_of 8 v) m"

lemma length_read_bytes [simp]: "length (read_bytes m a n) = n"
  by (simp add: read_bytes_def)

lemma read_bytes_0 [simp]: "read_bytes m a 0 = []"
  by (simp add: read_bytes_def)

lemma read_write_same: "length bs \<le> 2 ^ 64 \<Longrightarrow> read_bytes (write_bytes a bs m) a (length bs) = bs"
  by (rule nth_equalityI) (auto simp: read_bytes_def write_bytes_def unat_of_nat)

lemma read_write_other:
  assumes "\<And>i. i < n \<Longrightarrow> \<not> unat (b + of_nat i - a) < length bs"
  shows "read_bytes (write_bytes a bs m) b n = read_bytes m b n"
  using assms by (auto simp: read_bytes_def write_bytes_def)

lemma load_store_same [simp]: "load64 (store64 a v m) a = v"
  using read_write_same [of "bytes_of 8 v" a m] by (simp add: load64_def store64_def word_of_bytes_of)

lemma write_bytes_Nil [simp]: "write_bytes a [] m = m"
  by (simp add: write_bytes_def)

lemma unat_diff_Suc: "x \<noteq> (d :: u64) \<Longrightarrow> unat (x - d) = Suc (unat (x - (d + 1)))"
proof -
  assume "x \<noteq> d"
  then have "x - d \<noteq> 0" by simp
  then have "unat (x - d) = Suc (unat (x - d - 1))" by (simp add: unat_minus_one unat_gt_0)
  then show ?thesis by (simp add: diff_diff_eq)
qed

lemma write_bytes_Cons:
  assumes "length bs < 2 ^ 64"
  shows "write_bytes d (b # bs) m = write_bytes (d + 1) bs (m(d := b))"
proof
  fix x
  show "write_bytes d (b # bs) m x = write_bytes (d + 1) bs (m(d := b)) x"
  proof (cases "x = d")
    case True
    have "unat (d - (d + 1)) = 2 ^ 64 - 1" by (simp add: unsigned_minus_1_eq_mask mask_eq_exp_minus_1)
    with assms True show ?thesis by (simp add: write_bytes_def)
  next
    case False
    then show ?thesis by (simp add: write_bytes_def unat_diff_Suc)
  qed
qed

lemma write_bytes_snoc:
  assumes "length bs < 2 ^ 64"
  shows "write_bytes d (bs @ [b]) m = write_bytes d bs (m(d + of_nat (length bs) := b))"
proof
  fix x
  have u: "unat (of_nat (length bs) :: u64) = length bs" using assms by (simp add: unat_of_nat)
  show "write_bytes d (bs @ [b]) m x = write_bytes d bs (m(d + of_nat (length bs) := b)) x"
  proof (cases "x = d + of_nat (length bs)")
    case True
    then show ?thesis using u by (simp add: write_bytes_def)
  next
    case False
    have "unat (x - d) \<noteq> length bs"
    proof
      assume "unat (x - d) = length bs"
      then have "x - d = of_nat (length bs)" by (metis of_nat_unat ucast_id)
      with False show "False" by (simp add: diff_eq_eq add.commute)
    qed
    with False show ?thesis by (auto simp: write_bytes_def nth_append)
  qed
qed

section \<open>string.c: memory\<close>

definition memset :: "u64 \<Rightarrow> int \<Rightarrow> nat \<Rightarrow> memory \<Rightarrow> memory" where
  "memset dst c n m = fold (\<lambda>i m. m(dst + of_nat i := of_int c)) [0..<n] m"

fun memcmp :: "memory \<Rightarrow> u64 \<Rightarrow> u64 \<Rightarrow> nat \<Rightarrow> int" where
  "memcmp m s1 s2 0 = 0"
| "memcmp m s1 s2 (Suc n) =
     (if m s1 \<noteq> m s2 then uint (m s1) - uint (m s2) else memcmp m (s1 + 1) (s2 + 1) n)"

fun copy_down :: "nat \<Rightarrow> u64 \<Rightarrow> u64 \<Rightarrow> memory \<Rightarrow> memory" where
  "copy_down 0 d s m = m"
| "copy_down (Suc n) d s m = (let d = d - 1; s = s - 1 in copy_down n d s (m(d := m s)))"

fun copy_up :: "nat \<Rightarrow> u64 \<Rightarrow> u64 \<Rightarrow> memory \<Rightarrow> memory" where
  "copy_up 0 d s m = m"
| "copy_up (Suc n) d s m = copy_up n (d + 1) (s + 1) (m(d := m s))"

definition memmove :: "u64 \<Rightarrow> u64 \<Rightarrow> nat \<Rightarrow> memory \<Rightarrow> memory" where
  "memmove dst src n m =
     (if n = 0 then m
      else if src < dst \<and> src + of_nat n > dst then copy_down n (dst + of_nat n) (src + of_nat n) m
      else copy_up n dst src m)"

definition memcpy :: "u64 \<Rightarrow> u64 \<Rightarrow> nat \<Rightarrow> memory \<Rightarrow> memory" where
  "memcpy dst src n m = memmove dst src n m"

section \<open>string.c: strings\<close>

fun strncmp :: "u8 list \<Rightarrow> u8 list \<Rightarrow> nat \<Rightarrow> int" where
  "strncmp p q n =
     (if n > 0 \<and> hd p \<noteq> 0 \<and> hd p = hd q then strncmp (tl p) (tl q) (n - 1)
      else if n = 0 then 0
      else uint (hd p) - uint (hd q))"

text \<open>
  \<open>strncpy\<close> and \<open>safestrcpy\<close> give the bytes they store at the destination, in order;
  what lies behind them stays as it was.
\<close>

fun strncpy_loop :: "u8 list \<Rightarrow> nat \<Rightarrow> u8 list" where
  "strncpy_loop t 0 = []"
| "strncpy_loop t (Suc n) =
     (if hd t \<noteq> 0 then hd t # strncpy_loop (tl t) n else 0 # replicate n 0)"

definition strncpy :: "u8 list \<Rightarrow> u8 list \<Rightarrow> int \<Rightarrow> u8 list" where
  "strncpy s t n = (let w = strncpy_loop t (nat n) in w @ drop (length w) s)"

fun safestrcpy_loop :: "u8 list \<Rightarrow> nat \<Rightarrow> u8 list" where
  "safestrcpy_loop t 0 = [0]"
| "safestrcpy_loop t (Suc n) = (if hd t \<noteq> 0 then hd t # safestrcpy_loop (tl t) n else [0, 0])"

definition safestrcpy :: "u8 list \<Rightarrow> u8 list \<Rightarrow> int \<Rightarrow> u8 list" where
  "safestrcpy s t n =
     (if n \<le> 0 then s else let w = safestrcpy_loop t (nat n - 1) in w @ drop (length w) s)"

text \<open>The loop of \<open>strlen\<close> ends only at a NUL byte; without one it runs on.\<close>

partial_function (option) strlen_loop :: "(nat \<Rightarrow> u8) \<Rightarrow> nat \<Rightarrow> nat option" where
  "strlen_loop s n = (if s n \<noteq> 0 then strlen_loop s (n + 1) else Some n)"

definition strlen :: "(nat \<Rightarrow> u8) \<Rightarrow> nat option" where
  "strlen s = strlen_loop s 0"

section \<open>What the memory routines do\<close>

lemma memset_snoc: "memset dst c (Suc n) m = (memset dst c n m)(dst + of_nat n := of_int c)"
  by (simp add: memset_def)

lemma memset_eq: "n \<le> 2 ^ 64 \<Longrightarrow> memset dst c n m = write_bytes dst (replicate n (of_int c)) m"
proof (induction n arbitrary: m)
  case 0
  then show ?case by (simp add: memset_def)
next
  case (Suc n)
  show ?case
  proof
    fix x
    have u: "unat (of_nat n :: u64) = n" using Suc.prems by (simp add: unat_of_nat)
    have "(x = dst + of_nat n) = (unat (x - dst) = n)"
      by (metis add_diff_cancel_left' diff_add_cancel add.commute of_nat_unat ucast_id u)
    then show "memset dst c (Suc n) m x = write_bytes dst (replicate (Suc n) (of_int c)) m x"
      using Suc by (auto simp: memset_snoc write_bytes_def simp del: replicate_Suc)
  qed
qed

lemma read_bytes_Suc: "read_bytes m a (Suc n) = m a # read_bytes m (a + 1) n"
proof -
  have "[0..<Suc n] = 0 # map Suc [0..<n]" by (simp add: upt_conv_Cons map_Suc_upt del: upt_Suc)
  then show ?thesis by (simp add: read_bytes_def o_def add.assoc del: upt_Suc)
qed

lemma read_bytes_snoc: "read_bytes m a (Suc n) = read_bytes m a n @ [m (a + of_nat n)]"
  by (simp add: read_bytes_def)

lemma read_bytes_upd: "(\<And>i. i < n \<Longrightarrow> a + of_nat i \<noteq> d) \<Longrightarrow> read_bytes (m(d := b)) a n = read_bytes m a n"
  by (auto simp: read_bytes_def)

lemma copy_up_eq:
  assumes "n \<le> 2 ^ 64" and "\<And>i j. i < j \<Longrightarrow> j < n \<Longrightarrow> s + of_nat j \<noteq> d + of_nat i"
  shows "copy_up n d s m = write_bytes d (read_bytes m s n) m"
  using assms
proof (induction n arbitrary: d s m)
  case 0
  then show ?case by simp
next
  case (Suc n)
  have "s + 1 + of_nat j \<noteq> d + 1 + of_nat i" if "i < j" "j < n" for i j
    using Suc.prems(2) [of "Suc i" "Suc j"] that by (simp add: add.assoc)
  then have "copy_up (Suc n) d s m = write_bytes (d + 1) (read_bytes (m(d := m s)) (s + 1) n) (m(d := m s))"
    using Suc by simp
  also have "read_bytes (m(d := m s)) (s + 1) n = read_bytes m (s + 1) n"
  proof (rule read_bytes_upd)
    fix i assume "i < n"
    with Suc.prems(2) [of 0 "Suc i"] show "s + 1 + of_nat i \<noteq> d" by (simp add: add.assoc)
  qed
  also have "write_bytes (d + 1) (read_bytes m (s + 1) n) (m(d := m s)) = write_bytes d (read_bytes m s (Suc n)) m"
    using Suc.prems(1) by (simp add: read_bytes_Suc write_bytes_Cons)
  finally show ?case .
qed

lemma copy_down_eq:
  assumes "n \<le> 2 ^ 64" and "\<And>i j. i < j \<Longrightarrow> j < n \<Longrightarrow> s + of_nat i \<noteq> d + of_nat j"
  shows "copy_down n (d + of_nat n) (s + of_nat n) m = write_bytes d (read_bytes m s n) m"
  using assms
proof (induction n arbitrary: m)
  case 0
  then show ?case by simp
next
  case (Suc n)
  let ?m = "m(d + of_nat n := m (s + of_nat n))"
  have "copy_down (Suc n) (d + of_nat (Suc n)) (s + of_nat (Suc n)) m = copy_down n (d + of_nat n) (s + of_nat n) ?m"
    by (simp add: Let_def)
  also have "\<dots> = write_bytes d (read_bytes ?m s n) ?m" using Suc by simp
  also have "read_bytes ?m s n = read_bytes m s n"
    using Suc.prems(2) by (intro read_bytes_upd) simp
  also have "write_bytes d (read_bytes m s n) ?m = write_bytes d (read_bytes m s (Suc n)) m"
    using Suc.prems(1) by (simp add: read_bytes_snoc write_bytes_snoc)
  finally show ?case .
qed

lemma unat_add_of_nat: "unat (a :: u64) + i < 2 ^ 64 \<Longrightarrow> unat (a + of_nat i) = unat a + i"
  by (simp add: unat_word_ariths unat_of_nat)

lemma memmove_eq:
  assumes src: "unat src + n < 2 ^ 64" and dst: "unat dst + n < 2 ^ 64"
  shows "memmove dst src n m = write_bytes dst (read_bytes m src n) m"
proof (cases "src < dst \<and> src + of_nat n > dst")
  case True
  have "copy_down n (dst + of_nat n) (src + of_nat n) m = write_bytes dst (read_bytes m src n) m"
  proof (rule copy_down_eq)
    fix i j assume "i < j" "j < n"
    then have "unat (src + of_nat i) < unat (dst + of_nat j)"
      using True src dst by (simp add: unat_add_of_nat word_less_nat_alt)
    then show "src + of_nat i \<noteq> dst + of_nat j" by auto
  qed (use src in simp)
  with True show ?thesis by (simp add: memmove_def)
next
  case False
  have "copy_up n dst src m = write_bytes dst (read_bytes m src n) m"
  proof (rule copy_up_eq)
    fix i j assume ij: "i < j" "j < n"
    have "unat (src + of_nat j) \<noteq> unat (dst + of_nat i)"
      using False ij src dst by (auto simp: unat_add_of_nat word_less_nat_alt)
    then show "src + of_nat j \<noteq> dst + of_nat i" by auto
  qed (use src in simp)
  with False show ?thesis by (cases "n = 0") (auto simp: memmove_def read_bytes_def)
qed

text \<open>\<open>memmove\<close> copies: afterwards the \<open>n\<close> bytes at \<open>dst\<close> are the \<open>n\<close> bytes that were
  at \<open>src\<close> before, whether or not the regions overlap, and no other byte has changed.\<close>

lemma memmove_copies:
  assumes "unat src + n < 2 ^ 64" and "unat dst + n < 2 ^ 64"
  shows "read_bytes (memmove dst src n m) dst n = read_bytes m src n
       \<and> (\<forall>x. unat (x - dst) \<ge> n \<longrightarrow> memmove dst src n m x = m x)"
proof -
  have "n \<le> 2 ^ 64" using assms(1) by simp
  with read_write_same [of "read_bytes m src n" dst m] show ?thesis
    using memmove_eq [OF assms] by (simp add: write_bytes_def)
qed

section \<open>What the string routines do\<close>

text \<open>The characters of a C string of at most \<open>n\<close> bytes.\<close>

definition cstr :: "nat \<Rightarrow> u8 list \<Rightarrow> u8 list" where
  "cstr n p = takeWhile (\<lambda>b. b \<noteq> 0) (take n p)"

declare strncmp.simps [simp del]

lemma cstr_Cons: "cstr (Suc n) (b # p) = (if b = 0 then [] else b # cstr n p)"
  by (simp add: cstr_def)

lemma strncmp_zero:
  assumes "n \<le> length p" and "n \<le> length q"
  shows "strncmp p q n = 0 \<longleftrightarrow> cstr n p = cstr n q"
  using assms
proof (induction n arbitrary: p q)
  case 0
  then show ?case by (simp add: strncmp.simps [of p q 0] cstr_def)
next
  case (Suc n)
  then obtain a p' b q' where pq: "p = a # p'" "q = b # q'" by (cases p; cases q) auto
  with Suc show ?case by (auto simp: strncmp.simps [of "a # p'" "b # q'" "Suc n"] cstr_Cons word_uint_eq_iff)
qed

text \<open>\<open>strncmp\<close> returns 0 exactly when the two strings, cut after \<open>n\<close> bytes, are the same.\<close>

lemma strncmp_equal:
  assumes "n \<le> length p" and "n \<le> length q"
  shows "strncmp p q n = 0 \<longleftrightarrow> takeWhile (\<lambda>b. b \<noteq> 0) (take n p) = takeWhile (\<lambda>b. b \<noteq> 0) (take n q)"
  using strncmp_zero [OF assms] by (simp add: cstr_def)

lemma strlen_loop_NUL:
  "s (n + k) = 0 \<Longrightarrow> (\<forall>i < k. s (n + i) \<noteq> 0) \<Longrightarrow> strlen_loop s n = Some (n + k)"
proof (induction k arbitrary: n)
  case 0
  then show ?case by (simp add: strlen_loop.simps)
next
  case (Suc k)
  have "strlen_loop s (n + 1) = Some (n + 1 + k)"
  proof (rule Suc.IH)
    show "s (n + 1 + k) = 0" using Suc.prems(1) by simp
    show "\<forall>i < k. s (n + 1 + i) \<noteq> 0" using Suc.prems(2) by auto
  qed
  moreover have "s n \<noteq> 0" using Suc.prems(2) by (metis add_0_right zero_less_Suc)
  ultimately show ?case by (simp add: strlen_loop.simps [of s n])
qed

lemma strlen_Some:
  assumes "s k = 0" and "\<forall>i < k. s i \<noteq> 0"
  shows "strlen s = Some k"
  using strlen_loop_NUL [of s 0 k] assms by (simp add: strlen_def)

lemma strncpy_length: "length (strncpy_loop t n) = n"
  by (induction t n rule: strncpy_loop.induct) auto

lemma strncpy_cstr:
  "n \<le> length t \<Longrightarrow> cstr n (strncpy_loop t n) = cstr n t"
proof (induction t n rule: strncpy_loop.induct)
  case (2 t n)
  then obtain a t' where "t = a # t'" by (cases t) auto
  with 2 show ?case by (auto simp: cstr_Cons)
qed (simp add: cstr_def)

end
