(* ===== verification/State.thy ===== *)
theory State
  imports Sched Strings
begin

text \<open>
  The state of the whole kernel: the process table of theory \<open>Proc\<close> extended by the
  globals of the other source files.  A \<open>struct buf *\<close> is an index into \<open>bcache.buf[]\<close>, a
  \<open>struct inode *\<close> an index into \<open>itable.inode[]\<close>, a \<open>struct file *\<close> an index into
  \<open>ftable.file[]\<close>; page tables and user pages live in \<open>mem\<close>, trap frames and pipes, each
  alone in a page, in the stores \<open>tframes\<close> and \<open>pipes\<close> indexed by the page's address.
  The spin lock inside each object is not a field: its critical sections are single steps.
\<close>

section \<open>sleeplock.h, buf.h\<close>

record sleeplock =
  sl_locked :: bool
  sl_pid :: int

record buf =
  b_valid :: bool
  b_dev :: nat
  b_blockno :: nat
  b_lock :: sleeplock
  b_refcnt :: u32
  b_data :: "u8 list"

section \<open>fs.h, file.h, log.c\<close>

abbreviation (input) ROOTINO :: nat where "ROOTINO \<equiv> 1"
abbreviation (input) BSIZE :: nat where "BSIZE \<equiv> 1024"
abbreviation (input) FSMAGIC :: u32 where "FSMAGIC \<equiv> 0x10203040"
abbreviation (input) NDIRECT :: nat where "NDIRECT \<equiv> 12"
abbreviation (input) NINDIRECT :: nat where "NINDIRECT \<equiv> 256"
abbreviation (input) MAXFILE :: nat where "MAXFILE \<equiv> 268"
abbreviation (input) IPB :: nat where "IPB \<equiv> 16"
abbreviation (input) BPB :: nat where "BPB \<equiv> 8192"
abbreviation (input) DIRSIZ :: nat where "DIRSIZ \<equiv> 14"
abbreviation (input) T_DIR :: int where "T_DIR \<equiv> 1"
abbreviation (input) T_FILE :: int where "T_FILE \<equiv> 2"
abbreviation (input) T_DEVICE :: int where "T_DEVICE \<equiv> 3"
abbreviation (input) PIPESIZE :: nat where "PIPESIZE \<equiv> 512"
abbreviation (input) INPUT_BUF_SIZE :: nat where "INPUT_BUF_SIZE \<equiv> 128"

record superblock =
  sb_magic :: u32
  sb_size :: nat
  sb_nblocks :: nat
  sb_ninodes :: nat
  sb_nlog :: nat
  sb_logstart :: nat
  sb_inodestart :: nat
  sb_bmapstart :: nat

record log =
  l_start :: nat
  l_outstanding :: int
  l_committing :: bool
  l_dev :: nat
  lh_n :: int
  lh_block :: "nat list"

record inode =
  i_dev :: nat
  i_inum :: nat
  i_ref :: int
  i_lock :: sleeplock
  i_valid :: bool
  i_type :: int
  i_major :: int
  i_minor :: int
  i_nlink :: int
  i_size :: u32
  i_addrs :: "nat list"

datatype fdtype = FD_NONE | FD_PIPE | FD_INODE | FD_DEVICE

record kfile =
  f_type :: fdtype
  f_ref :: int
  f_readable :: bool
  f_writable :: bool
  f_pipe :: u64
  f_ip :: "nat option"
  f_off :: u32
  f_major :: int

section \<open>pipe.c, console.c\<close>

record pipe =
  pi_data :: "u8 list"
  pi_nread :: u32
  pi_nwrite :: u32
  pi_readopen :: bool
  pi_writeopen :: bool

record cons =
  co_buf :: "u8 list"
  co_r :: u32
  co_w :: u32
  co_e :: u32

section \<open>The kernel\<close>

text \<open>
  \<open>disk\<close> is what the device holds, block by block, and \<open>dwrites\<close> the writes it has
  completed, oldest first; \<open>uart_out\<close> the bytes handed to the transmitter; \<open>kmsgs\<close> the
  calls of \<open>printf\<close> with their arguments.  \<open>cons_dev\<close> says whether \<open>consoleinit\<close> has
  entered the console into \<open>devsw[CONSOLE]\<close>, the only entry the kernel ever fills.
\<close>

record kernel = ptable +
  mem :: memory
  freelist :: u64
  kernel_pagetable :: u64
  bufs :: "buf list"
  lru :: "nat list"
  disk :: "nat \<Rightarrow> u8 list"
  dwrites :: "(nat \<times> u8 list) list"
  klog :: log
  sb :: superblock
  itable :: "inode list"
  ftable :: "kfile list"
  pipes :: "u64 \<Rightarrow> pipe"
  cons_st :: cons
  tx_busy :: bool
  uart_out :: "u8 list"
  cons_dev :: bool
  kmsgs :: "(string \<times> int list) list"

type_synonym 'a kres = "(kernel, wchan, 'a) outcome"

definition printk :: "string \<Rightarrow> int list \<Rightarrow> kernel \<Rightarrow> kernel" where
  "printk fmt args s = s\<lparr>kmsgs := kmsgs s @ [(fmt, args)]\<rparr>"

text \<open>The pid of the running process, or the fault of the null pointer.\<close>

definition mypid :: "kernel \<Rightarrow> int kres" where
  "mypid s = (case myproc s of None \<Rightarrow> Panic ''kerneltrap'' | Some i \<Rightarrow> Done (p_pid (procs s ! i)) s)"

definition zero_sleeplock :: sleeplock where
  "zero_sleeplock = \<lparr>sl_locked = False, sl_pid = 0\<rparr>"

definition zero_buf :: buf where
  "zero_buf = \<lparr>b_valid = False, b_dev = 0, b_blockno = 0, b_lock = zero_sleeplock, b_refcnt = 0,
     b_data = replicate BSIZE 0\<rparr>"

definition zero_inode :: inode where
  "zero_inode = \<lparr>i_dev = 0, i_inum = 0, i_ref = 0, i_lock = zero_sleeplock, i_valid = False,
     i_type = 0, i_major = 0, i_minor = 0, i_nlink = 0, i_size = 0, i_addrs = replicate 13 0\<rparr>"

definition zero_file :: kfile where
  "zero_file = \<lparr>f_type = FD_NONE, f_ref = 0, f_readable = False, f_writable = False, f_pipe = 0,
     f_ip = None, f_off = 0, f_major = 0\<rparr>"

definition zero_pipe :: pipe where
  "zero_pipe = \<lparr>pi_data = replicate PIPESIZE 0, pi_nread = 0, pi_nwrite = 0, pi_readopen = False,
     pi_writeopen = False\<rparr>"

text \<open>The kernel before \<open>main\<close> initialises it, around a given process table and disk.\<close>

definition zero_kernel :: "ptable \<Rightarrow> (nat \<Rightarrow> u8 list) \<Rightarrow> kernel" where
  "zero_kernel t d = ptable.extend t
     \<lparr>mem = (\<lambda>_. 0), freelist = 0, kernel_pagetable = 0, bufs = replicate NBUF zero_buf, lru = [],
      disk = d, dwrites = [],
      klog = \<lparr>l_start = 0, l_outstanding = 0, l_committing = False, l_dev = 0, lh_n = 0,
              lh_block = replicate 30 0\<rparr>,
      sb = \<lparr>sb_magic = 0, sb_size = 0, sb_nblocks = 0, sb_ninodes = 0, sb_nlog = 0, sb_logstart = 0,
            sb_inodestart = 0, sb_bmapstart = 0\<rparr>,
      itable = replicate NINODE zero_inode, ftable = replicate NFILE zero_file,
      pipes = (\<lambda>_. zero_pipe),
      cons_st = \<lparr>co_buf = replicate INPUT_BUF_SIZE 0, co_r = 0, co_w = 0, co_e = 0\<rparr>,
      tx_busy = False, uart_out = [], cons_dev = False, kmsgs = []\<rparr>"

lemma zero_kernel_simps [simp]:
  "procs (zero_kernel t d) = procs t" "cpus (zero_kernel t d) = cpus t" "tp (zero_kernel t d) = tp t"
  "mem (zero_kernel t d) = (\<lambda>_. 0)" "freelist (zero_kernel t d) = 0"
  "bufs (zero_kernel t d) = replicate NBUF zero_buf" "lru (zero_kernel t d) = []"
  "disk (zero_kernel t d) = d" "dwrites (zero_kernel t d) = []" "syms (zero_kernel t d) = syms t"
  "ftable (zero_kernel t d) = replicate NFILE zero_file"
  "itable (zero_kernel t d) = replicate NINODE zero_inode"
  "initproc (zero_kernel t d) = initproc t" "ticks (zero_kernel t d) = ticks t"
  by (simp_all add: zero_kernel_def ptable.defs)

section \<open>Frame lemmas\<close>

text \<open>The fields of \<open>kernel\<close> under the updates of the process table, and the process table under those of the others.\<close>

lemma kernel_upd_proc [simp]:
  "mem (upd_proc i f s) = mem s" "freelist (upd_proc i f s) = freelist s"
  "kernel_pagetable (upd_proc i f s) = kernel_pagetable s" "bufs (upd_proc i f s) = bufs s"
  "lru (upd_proc i f s) = lru s" "disk (upd_proc i f s) = disk s" "dwrites (upd_proc i f s) = dwrites s"
  "klog (upd_proc i f s) = klog s" "sb (upd_proc i f s) = sb s" "itable (upd_proc i f s) = itable s"
  "ftable (upd_proc i f s) = ftable s" "pipes (upd_proc i f s) = pipes s"
  "cons_st (upd_proc i f s) = cons_st s" "tx_busy (upd_proc i f s) = tx_busy s"
  "uart_out (upd_proc i f s) = uart_out s" "cons_dev (upd_proc i f s) = cons_dev s"
  "kmsgs (upd_proc i f s) = kmsgs s"
  by (simp_all add: upd_proc_def)

lemma kernel_upd_cpu [simp]:
  "mem (upd_cpu f s) = mem s" "freelist (upd_cpu f s) = freelist s"
  "kernel_pagetable (upd_cpu f s) = kernel_pagetable s" "bufs (upd_cpu f s) = bufs s"
  "lru (upd_cpu f s) = lru s" "disk (upd_cpu f s) = disk s" "dwrites (upd_cpu f s) = dwrites s"
  "klog (upd_cpu f s) = klog s" "sb (upd_cpu f s) = sb s" "itable (upd_cpu f s) = itable s"
  "ftable (upd_cpu f s) = ftable s" "pipes (upd_cpu f s) = pipes s" "cons_st (upd_cpu f s) = cons_st s"
  "tx_busy (upd_cpu f s) = tx_busy s" "uart_out (upd_cpu f s) = uart_out s"
  "cons_dev (upd_cpu f s) = cons_dev s" "kmsgs (upd_cpu f s) = kmsgs s"
  by (simp_all add: upd_cpu_def)

lemma kernel_wakeup [simp]:
  "mem (wakeup ch s) = mem s" "freelist (wakeup ch s) = freelist s"
  "kernel_pagetable (wakeup ch s) = kernel_pagetable s" "bufs (wakeup ch s) = bufs s"
  "lru (wakeup ch s) = lru s" "disk (wakeup ch s) = disk s" "dwrites (wakeup ch s) = dwrites s"
  "klog (wakeup ch s) = klog s" "sb (wakeup ch s) = sb s" "itable (wakeup ch s) = itable s"
  "ftable (wakeup ch s) = ftable s" "pipes (wakeup ch s) = pipes s" "cons_st (wakeup ch s) = cons_st s"
  "tx_busy (wakeup ch s) = tx_busy s" "uart_out (wakeup ch s) = uart_out s"
  "cons_dev (wakeup ch s) = cons_dev s" "kmsgs (wakeup ch s) = kmsgs s"
  by (simp_all add: wakeup_eq)

lemma ptable_upd_kernel [simp]:
  "myproc (s\<lparr>mem := x0\<rparr>) = myproc s"
  "myproc (s\<lparr>freelist := x1\<rparr>) = myproc s"
  "myproc (s\<lparr>kernel_pagetable := x2\<rparr>) = myproc s"
  "myproc (s\<lparr>bufs := x3\<rparr>) = myproc s"
  "myproc (s\<lparr>lru := x4\<rparr>) = myproc s"
  "myproc (s\<lparr>disk := x5\<rparr>) = myproc s"
  "myproc (s\<lparr>dwrites := x6\<rparr>) = myproc s"
  "myproc (s\<lparr>klog := x7\<rparr>) = myproc s"
  "myproc (s\<lparr>sb := x8\<rparr>) = myproc s"
  "myproc (s\<lparr>itable := x9\<rparr>) = myproc s"
  "myproc (s\<lparr>ftable := x10\<rparr>) = myproc s"
  "myproc (s\<lparr>pipes := x11\<rparr>) = myproc s"
  "myproc (s\<lparr>cons_st := x12\<rparr>) = myproc s"
  "myproc (s\<lparr>tx_busy := x13\<rparr>) = myproc s"
  "myproc (s\<lparr>uart_out := x14\<rparr>) = myproc s"
  "myproc (s\<lparr>cons_dev := x15\<rparr>) = myproc s"
  "myproc (s\<lparr>kmsgs := x16\<rparr>) = myproc s"
  by (simp_all add: myproc_def mycpu_def)

lemma printk_simps [simp]:
  "procs (printk f a s) = procs s" "cpus (printk f a s) = cpus s" "tp (printk f a s) = tp s"
  "initproc (printk f a s) = initproc s" "nextpid (printk f a s) = nextpid s"
  "rr_state (printk f a s) = rr_state s" "ticks (printk f a s) = ticks s" "tframes (printk f a s) = tframes s"
  "syms (printk f a s) = syms s" "mem (printk f a s) = mem s" "freelist (printk f a s) = freelist s"
  "kernel_pagetable (printk f a s) = kernel_pagetable s" "bufs (printk f a s) = bufs s"
  "lru (printk f a s) = lru s" "disk (printk f a s) = disk s" "dwrites (printk f a s) = dwrites s"
  "klog (printk f a s) = klog s" "sb (printk f a s) = sb s" "itable (printk f a s) = itable s"
  "ftable (printk f a s) = ftable s" "pipes (printk f a s) = pipes s" "cons_st (printk f a s) = cons_st s"
  "tx_busy (printk f a s) = tx_busy s" "uart_out (printk f a s) = uart_out s"
  "cons_dev (printk f a s) = cons_dev s" "myproc (printk f a s) = myproc s"
  by (simp_all add: printk_def)

end
