(* ===== verification/Kalloc.thy ===== *)
theory Kalloc
  imports State
begin

text \<open>
  \<^verbatim>\<open>kernel/kalloc.c\<close>: the physical page allocator.  The free list is threaded through the
  free pages themselves, in \<open>mem\<close>.  The locale \<open>page_allocator\<close> is what the rest of the
  kernel relies on; it is interpreted on \<open>kalloc\<close> and \<open>kfree\<close>.
\<close>

section \<open>Operations\<close>

definition PGROUNDUP :: "u64 \<Rightarrow> u64" where
  "PGROUNDUP sz = (sz + PGSIZE - 1) AND NOT (PGSIZE - 1)"

definition PGROUNDDOWN :: "u64 \<Rightarrow> u64" where
  "PGROUNDDOWN a = a AND NOT (PGSIZE - 1)"

definition kfree :: "u64 \<Rightarrow> kernel \<Rightarrow> unit kres" where
  "kfree pa s =
     (if pa mod PGSIZE \<noteq> 0 \<or> pa < sym_end (syms s) \<or> pa \<ge> PHYSTOP then Panic ''kfree''
      else let s = s\<lparr>mem := memset pa 1 4096 (mem s)\<rparr>;
               s = s\<lparr>mem := store64 pa (freelist s) (mem s)\<rparr>
           in Done () (s\<lparr>freelist := pa\<rparr>))"

definition kalloc :: "kernel \<Rightarrow> u64 \<times> kernel" where
  "kalloc s =
     (let r = freelist s;
          s = (if r \<noteq> 0 then s\<lparr>freelist := load64 (mem s) r\<rparr> else s);
          s = (if r \<noteq> 0 then s\<lparr>mem := memset r 5 4096 (mem s)\<rparr> else s)
      in (r, s))"

partial_function (option) freerange_loop :: "u64 \<Rightarrow> u64 \<Rightarrow> kernel \<Rightarrow> unit kres option" where
  "freerange_loop p pa_end s =
     (if p + PGSIZE \<le> pa_end then
        (case kfree p s of
           Done u s \<Rightarrow> freerange_loop (p + PGSIZE) pa_end s
         | x \<Rightarrow> Some x)
      else Some (Done () s))"

definition freerange :: "u64 \<Rightarrow> u64 \<Rightarrow> kernel \<Rightarrow> unit kres option" where
  "freerange pa_start pa_end s = freerange_loop (PGROUNDUP pa_start) pa_end s"

definition kinit :: "kernel \<Rightarrow> unit kres option" where
  "kinit s = freerange (sym_end (syms s)) PHYSTOP s"

section \<open>Pages\<close>

lemma page_unat:
  assumes "p mod 4096 = (0::u64)"
  shows "unat p mod 4096 = 0" and "unat p + 4096 \<le> 2 ^ 64"
proof -
  have "unat (p mod 4096) = unat p mod 4096" by (simp add: unat_mod)
  with assms show m: "unat p mod 4096 = 0" by simp
  have "unat p < 2 ^ 64" using unsigned_less [of p] by simp
  moreover obtain k where "unat p = 4096 * k" using m by (metis dvd_def mod_eq_0_iff_dvd)
  ultimately have "unat p = 4096 * k" "k < 4503599627370496" by simp_all
  then show "unat p + 4096 \<le> 2 ^ 64" by simp
qed

lemma page_separate:
  assumes p: "p mod 4096 = (0::u64)" and q: "q mod 4096 = (0::u64)" and "p \<noteq> q" and i: "i < 4096"
  shows "\<not> unat (q + of_nat i - p) < 4096"
proof
  let ?x = "q + of_nat i - p"
  assume x: "unat ?x < 4096"
  note P = page_unat [OF p] and Q = page_unat [OF q]
  have "unat (q + of_nat i) = unat q + i" using Q i by (intro unat_add_of_nat) simp
  moreover have "unat (p + of_nat (unat ?x)) = unat p + unat ?x" using P x by (intro unat_add_of_nat) simp
  moreover have "p + of_nat (unat ?x) = q + of_nat i" by simp
  ultimately have e: "unat q + i = unat p + unat ?x" by metis
  obtain a b where "unat p = 4096 * a" "unat q = 4096 * b" using P(1) Q(1) by (metis dvd_def mod_eq_0_iff_dvd)
  with e have "(4096 * b + i) div 4096 = (4096 * a + unat ?x) div 4096" by simp
  with i x have "a = b" by simp
  with \<open>unat p = 4096 * a\<close> \<open>unat q = 4096 * b\<close> have "unat p = unat q" by simp
  with \<open>p \<noteq> q\<close> show False by (simp add: word_unat_eq_iff)
qed

lemma unat_page_offset: "i < 4096 \<Longrightarrow> unat (of_nat i :: u64) = i"
  by (simp add: unat_of_nat)

lemma load64_cong: "(\<And>i. i < 8 \<Longrightarrow> m (a + of_nat i) = m' (a + of_nat i)) \<Longrightarrow> load64 m a = load64 m' a"
proof -
  assume "\<And>i. i < 8 \<Longrightarrow> m (a + of_nat i) = m' (a + of_nat i)"
  then have "read_bytes m a 8 = read_bytes m' a 8" by (auto simp: read_bytes_def)
  then show ?thesis by (simp add: load64_def)
qed

lemma memset_other_page:
  "p mod 4096 = 0 \<Longrightarrow> q mod 4096 = 0 \<Longrightarrow> p \<noteq> q \<Longrightarrow> i < 4096 \<Longrightarrow>
   memset p c 4096 m (q + of_nat i) = m (q + of_nat i)"
  using page_separate [of p q i] by (simp add: memset_eq write_bytes_def)

lemma store64_other_page:
  "p mod 4096 = 0 \<Longrightarrow> q mod 4096 = 0 \<Longrightarrow> p \<noteq> q \<Longrightarrow> i < 4096 \<Longrightarrow>
   store64 p v m (q + of_nat i) = m (q + of_nat i)"
  using page_separate [of p q i] by (simp add: store64_def write_bytes_def)

section \<open>The free list\<close>

fun free_chain :: "memory \<Rightarrow> u64 \<Rightarrow> u64 list \<Rightarrow> bool" where
  "free_chain m p [] = (p = 0)"
| "free_chain m p (q # qs) = (p = q \<and> free_chain m (load64 m p) qs)"

definition page_ok :: "kernel \<Rightarrow> u64 \<Rightarrow> bool" where
  "page_ok s p \<longleftrightarrow> p \<noteq> 0 \<and> p mod PGSIZE = 0 \<and> sym_end (syms s) \<le> p \<and> p < PHYSTOP"

definition free_ok :: "kernel \<Rightarrow> u64 list \<Rightarrow> bool" where
  "free_ok s qs \<longleftrightarrow> free_chain (mem s) (freelist s) qs \<and> distinct qs \<and> (\<forall>q\<in>set qs. page_ok s q)"

definition same_outside :: "u64 \<Rightarrow> memory \<Rightarrow> memory \<Rightarrow> bool" where
  "same_outside p m m' \<longleftrightarrow> (\<forall>x. \<not> unat (x - p) < 4096 \<longrightarrow> m' x = m x)"

lemma same_outside_page:
  "same_outside p m m' \<Longrightarrow> p mod 4096 = 0 \<Longrightarrow> q mod 4096 = 0 \<Longrightarrow> p \<noteq> q \<Longrightarrow> i < 4096 \<Longrightarrow>
   m' (q + of_nat i) = m (q + of_nat i)"
  using page_separate by (simp add: same_outside_def)

lemma free_chain_cong:
  "(\<And>q i. q \<in> set qs \<Longrightarrow> i < 8 \<Longrightarrow> m' (q + of_nat i) = m (q + of_nat i)) \<Longrightarrow> free_chain m' p qs = free_chain m p qs"
proof (induction qs arbitrary: p)
  case (Cons q qs)
  have "load64 m' q = load64 m q" using Cons.prems by (intro load64_cong) simp
  with Cons show ?case by auto
qed simp

lemma free_chain_outside:
  assumes "same_outside p m m'" and "p mod 4096 = 0" and "p \<notin> set qs" and "\<forall>q\<in>set qs. q mod 4096 = 0"
  shows "free_chain m' r qs = free_chain m r qs"
proof (rule free_chain_cong)
  fix q :: u64 and i :: nat
  assume "q \<in> set qs" "i < 8"
  with assms(3,4) show "m' (q + of_nat i) = m (q + of_nat i)"
    by (intro same_outside_page [OF assms(1,2)]) auto
qed

lemma kalloc_nil: "free_ok s [] \<Longrightarrow> kalloc s = (0, s)"
  by (simp add: free_ok_def kalloc_def)

lemma memset_same_outside: "same_outside p m (memset p c 4096 m)"
  by (simp add: same_outside_def memset_eq write_bytes_def)

lemma kalloc_cons:
  assumes "free_ok s (q # qs)"
  shows "\<exists>s'. kalloc s = (q, s') \<and> free_ok s' qs \<and> s' = s\<lparr>mem := mem s', freelist := freelist s'\<rparr>
      \<and> same_outside q (mem s) (mem s') \<and> (\<forall>i < 4096. mem s' (q + of_nat i) = 5)"
proof -
  let ?s = "s\<lparr>freelist := load64 (mem s) q, mem := memset q 5 4096 (mem s)\<rparr>"
  have q: "freelist s = q" "q \<noteq> 0" "q mod 4096 = 0" "q \<notin> set qs" "\<forall>r\<in>set qs. r mod 4096 = 0"
    "free_chain (mem s) (load64 (mem s) q) qs"
    using assms by (auto simp: free_ok_def page_ok_def)
  have "free_ok ?s qs"
    using free_chain_outside [OF memset_same_outside q(3-5)] q(6) assms
    by (auto simp: free_ok_def page_ok_def)
  moreover have "kalloc s = (q, ?s)" using q by (simp add: kalloc_def Let_def)
  moreover have "\<forall>i < 4096. mem ?s (q + of_nat i) = 5"
    by (simp add: memset_eq write_bytes_def unat_page_offset)
  ultimately show ?thesis using memset_same_outside by (intro exI [of _ ?s]) auto
qed

lemma kfree_cons:
  assumes "free_ok s qs" and "page_ok s p" and "p \<notin> set qs"
  shows "\<exists>s'. kfree p s = Done () s' \<and> free_ok s' (p # qs) \<and> s' = s\<lparr>mem := mem s', freelist := p\<rparr>
      \<and> same_outside p (mem s) (mem s')"
proof -
  let ?m = "store64 p (freelist s) (memset p 1 4096 (mem s))"
  let ?s = "s\<lparr>mem := ?m, freelist := p\<rparr>"
  have p: "p mod 4096 = 0" "p < PHYSTOP" "\<not> p < sym_end (syms s)" using assms(2) by (auto simp: page_ok_def)
  have out: "same_outside p (mem s) ?m"
    by (simp add: same_outside_def memset_eq store64_def write_bytes_def)
  have "free_chain ?m (freelist s) qs"
    using free_chain_outside [OF out p(1) assms(3)] assms(1) by (auto simp: free_ok_def page_ok_def)
  then have "free_ok ?s (p # qs)" using assms by (auto simp: free_ok_def page_ok_def)
  moreover have "kfree p s = Done () ?s" using p by (simp add: kfree_def Let_def)
  ultimately show ?thesis using out by (intro exI [of _ ?s]) auto
qed

section \<open>The interface\<close>

text \<open>
  What the rest of the kernel relies on: a state has a list of free pages; \<open>alloc\<close> takes
  a page off it or returns null when it is empty; \<open>free\<close> puts a page back that is not on it.
\<close>

locale page_allocator =
  fixes alloc :: "'s \<Rightarrow> u64 \<times> 's"
    and release_page :: "u64 \<Rightarrow> 's \<Rightarrow> 's option"
    and holds :: "'s \<Rightarrow> u64 list \<Rightarrow> bool"
    and valid :: "'s \<Rightarrow> u64 \<Rightarrow> bool"
  assumes alloc_empty: "holds s [] \<Longrightarrow> alloc s = (0, s)"
    and alloc_some: "holds s (q # qs) \<Longrightarrow> fst (alloc s) = q \<and> holds (snd (alloc s)) qs"
    and alloc_valid: "holds s (q # qs) \<Longrightarrow> valid (snd (alloc s)) p = valid s p"
    and release_some: "holds s qs \<Longrightarrow> valid s p \<Longrightarrow> p \<notin> set qs \<Longrightarrow>
          \<exists>s'. release_page p s = Some s' \<and> holds s' (p # qs) \<and> (\<forall>x. valid s' x = valid s x)"
    and holds_distinct: "holds s qs \<Longrightarrow> distinct qs"
    and holds_valid: "holds s qs \<Longrightarrow> q \<in> set qs \<Longrightarrow> valid s q"
    and valid_nonnull: "valid s p \<Longrightarrow> p \<noteq> 0"
begin

fun allocs :: "nat \<Rightarrow> 's \<Rightarrow> u64 list \<times> 's" where
  "allocs 0 s = ([], s)"
| "allocs (Suc n) s = (let (p, s) = alloc s; (ps, s) = allocs n s in (p # ps, s))"

fun releases :: "u64 list \<Rightarrow> 's \<Rightarrow> 's option" where
  "releases [] s = Some s"
| "releases (p # ps) s = (case release_page p s of None \<Rightarrow> None | Some s \<Rightarrow> releases ps s)"

lemma allocs_take:
  "holds s qs \<Longrightarrow> n \<le> length qs \<Longrightarrow> fst (allocs n s) = take n qs \<and> holds (snd (allocs n s)) (drop n qs)
     \<and> (\<forall>x. valid (snd (allocs n s)) x = valid s x)"
proof (induction n arbitrary: s qs)
  case (Suc n)
  then obtain q qs' where qs: "qs = q # qs'" by (cases qs) auto
  obtain s' where s': "alloc s = (q, s')" "holds s' qs'" "\<And>x. valid s' x = valid s x"
    using alloc_some alloc_valid Suc.prems(1) unfolding qs by (metis prod.collapse)
  from Suc.IH [OF s'(2)] Suc.prems(2) s' show ?case by (auto simp: qs split: prod.splits)
qed simp

lemma releases_all:
  "holds s qs \<Longrightarrow> distinct ps \<Longrightarrow> set ps \<inter> set qs = {} \<Longrightarrow> (\<forall>p\<in>set ps. valid s p) \<Longrightarrow>
   \<exists>s'. releases ps s = Some s' \<and> holds s' (rev ps @ qs)"
proof (induction ps arbitrary: s qs)
  case (Cons p ps)
  then obtain s1 where s1: "release_page p s = Some s1" "holds s1 (p # qs)" "\<forall>x. valid s1 x = valid s x"
    using release_some [of s qs p] by auto
  with Cons.prems Cons.IH [OF s1(2)] show ?case by auto
qed simp

lemma alloc_release_roundtrip:
  assumes "holds s qs" and "n \<le> length qs"
  shows "\<exists>s'. releases (rev (fst (allocs n s))) (snd (allocs n s)) = Some s' \<and> holds s' qs"
proof -
  from allocs_take [OF assms] have a: "fst (allocs n s) = take n qs" "holds (snd (allocs n s)) (drop n qs)"
    "\<forall>x. valid (snd (allocs n s)) x = valid s x" by auto
  have d: "distinct qs" using assms(1) by (rule holds_distinct)
  have "set (rev (take n qs)) \<inter> set (drop n qs) = {}" using d set_take_disj_set_drop_if_distinct [of qs n n] by simp
  moreover have "\<forall>p\<in>set (rev (take n qs)). valid (snd (allocs n s)) p"
    using a(3) assms(1) holds_valid by (auto dest: in_set_takeD)
  ultimately show ?thesis using releases_all [OF a(2), of "rev (take n qs)"] d by (simp add: a(1))
qed

end

definition kfree_opt :: "u64 \<Rightarrow> kernel \<Rightarrow> kernel option" where
  "kfree_opt p s = (case kfree p s of Done u s' \<Rightarrow> Some s' | _ \<Rightarrow> None)"

interpretation km: page_allocator kalloc kfree_opt free_ok page_ok
proof
  fix s :: kernel and q qs p
  show "free_ok s [] \<Longrightarrow> kalloc s = (0, s)" by (rule kalloc_nil)
  show "free_ok s (q # qs) \<Longrightarrow> fst (kalloc s) = q \<and> free_ok (snd (kalloc s)) qs"
    using kalloc_cons by fastforce
  show "free_ok s (q # qs) \<Longrightarrow> page_ok (snd (kalloc s)) p = page_ok s p"
    by (simp add: kalloc_def Let_def page_ok_def)
  show "free_ok s qs \<Longrightarrow> distinct qs" by (simp add: free_ok_def)
  show "free_ok s qs \<Longrightarrow> q \<in> set qs \<Longrightarrow> page_ok s q" by (simp add: free_ok_def)
  show "page_ok s p \<Longrightarrow> p \<noteq> 0" by (simp add: page_ok_def)
  show "\<exists>s'. kfree_opt p s = Some s' \<and> free_ok s' (p # qs) \<and> (\<forall>x. page_ok s' x = page_ok s x)"
    if "free_ok s qs" "page_ok s p" "p \<notin> set qs"
  proof -
    from kfree_cons [OF that] obtain s' where s': "kfree p s = Done () s'" "free_ok s' (p # qs)"
      "s' = s\<lparr>mem := mem s', freelist := p\<rparr>" by blast
    have "syms s' = syms s" by (subst s'(3)) simp
    then show ?thesis using s' by (simp add: kfree_opt_def page_ok_def)
  qed
qed

section \<open>Rounding to pages\<close>

lemma page_mask: "(x :: u64) AND - 4096 = x - x mod 4096"
proof -
  have m: "(- 4096 :: u64) = NOT (mask 12)" by (simp add: mask_eq_exp_minus_1)
  have "x mod 4096 = take_bit 12 x" by (simp add: take_bit_eq_mod)
  then have r: "x mod 4096 = x AND mask 12" by (simp add: take_bit_eq_mask)
  have "(x AND NOT (mask 12)) + (x AND mask 12) = (x AND NOT (mask 12)) OR (x AND mask 12)"
    by (rule disjunctive_add) (auto simp: bit_simps)
  also have "\<dots> = x" by (rule bit_word_eqI) (auto simp: bit_simps)
  finally show ?thesis unfolding r m by (metis add_diff_cancel_right')
qed

lemma unat_page_mask: "unat ((x :: u64) AND - 4096) = unat x - unat x mod 4096"
proof -
  have "x mod 4096 \<le> x" by (simp add: word_le_nat_alt unat_mod)
  then show ?thesis unfolding page_mask by (simp add: unat_sub unat_mod)
qed

lemma unat_PGROUNDDOWN: "unat (PGROUNDDOWN a) = unat a - unat a mod 4096"
  by (simp add: PGROUNDDOWN_def unat_page_mask)

lemma unat_PGROUNDUP:
  assumes "unat a + 4095 < 2 ^ 64"
  shows "unat (PGROUNDUP a) = (unat a + 4095) - (unat a + 4095) mod 4096"
proof -
  have "unat (a + 4095) = unat a + 4095" using assms unat_add_of_nat [of a 4095] by simp
  then show ?thesis by (simp add: PGROUNDUP_def unat_page_mask add.commute [of _ a])
qed

lemma aligned_unat: "unat p mod 4096 = 0 \<Longrightarrow> p mod 4096 = (0 :: u64)"
  by (simp add: word_unat_eq_iff unat_mod)

lemma PGROUNDDOWN_aligned: "PGROUNDDOWN a mod 4096 = 0"
  by (rule aligned_unat) (simp add: unat_PGROUNDDOWN minus_mod_eq_mult_div)

lemma PGROUNDUP_aligned: "PGROUNDUP a mod 4096 = 0"
  by (rule aligned_unat) (simp add: PGROUNDUP_def unat_page_mask minus_mod_eq_mult_div)

section \<open>Filling the free list\<close>

text \<open>The \<open>k\<close> pages from \<open>p\<close> on.\<close>

definition page_run :: "u64 \<Rightarrow> nat \<Rightarrow> u64 list" where
  "page_run p k = map (\<lambda>i. p + of_nat i * 4096) [0..<k]"

lemma page_run_Suc: "page_run p (Suc k) = p # page_run (p + 4096) k"
proof -
  have "[0..<Suc k] = 0 # map Suc [0..<k]" by (simp add: upt_conv_Cons map_Suc_upt del: upt_Suc)
  then show ?thesis by (simp add: page_run_def o_def algebra_simps del: upt_Suc)
qed

lemma freerange_loop_fills:
  assumes "free_ok s qs" and "p mod 4096 = 0" and "0 < p" and "sym_end (syms s) \<le> p"
    and "pa_end \<le> PHYSTOP" and "unat p + 4096 * k \<le> unat pa_end" and "unat pa_end < unat p + 4096 * k + 4096"
    and "\<forall>q\<in>set qs. q < p"
  shows "\<exists>s'. freerange_loop p pa_end s = Some (Done () s') \<and> free_ok s' (rev (page_run p k) @ qs)"
  using assms
proof (induction k arbitrary: p s qs)
  case 0
  have "unat pa_end \<le> unat PHYSTOP" using 0 by (simp add: word_le_nat_alt)
  then have "unat (p + 4096) = unat p + 4096" using 0 unat_add_of_nat [of p 4096] by simp
  then have "\<not> p + 4096 \<le> pa_end" using 0 by (simp add: word_le_nat_alt)
  with 0 show ?case by (simp add: freerange_loop.simps [of p] page_run_def)
next
  case (Suc k)
  have b: "unat pa_end \<le> 2281701376" using Suc.prems(5) by (simp add: word_le_nat_alt)
  have p4: "unat (p + 4096) = unat p + 4096" using Suc.prems(6) b unat_add_of_nat [of p 4096] by simp
  have le: "p + 4096 \<le> pa_end" "p < p + 4096" "p < PHYSTOP"
    using p4 Suc.prems(6) b by (simp_all add: word_le_nat_alt word_less_nat_alt)
  have "page_ok s p" using Suc.prems le by (simp add: page_ok_def)
  moreover have "p \<notin> set qs" using Suc.prems(8) by blast
  ultimately obtain s1 where s1: "kfree p s = Done () s1" "free_ok s1 (p # qs)"
    "s1 = s\<lparr>mem := mem s1, freelist := p\<rparr>"
    using kfree_cons [OF Suc.prems(1)] by blast
  have sy: "syms s1 = syms s" by (subst s1(3)) simp
  have "\<exists>s'. freerange_loop (p + 4096) pa_end s1 = Some (Done () s')
      \<and> free_ok s' (rev (page_run (p + 4096) k) @ p # qs)"
  proof (rule Suc.IH [OF s1(2)])
    show "(p + 4096) mod 4096 = 0"
      using page_unat(1) [OF Suc.prems(2)] by (intro aligned_unat) (simp add: p4)
    show "0 < p + 4096" using le(2) by (meson word_gt_0 less_trans Suc.prems(3))
    show "sym_end (syms s1) \<le> p + 4096" using Suc.prems(4) le(2) sy by simp
    show "unat (p + 4096) + 4096 * k \<le> unat pa_end" using Suc.prems(6) p4 by simp
    show "unat pa_end < unat (p + 4096) + 4096 * k + 4096" using Suc.prems(7) p4 by simp
    show "\<forall>q\<in>set (p # qs). q < p + 4096" using Suc.prems(8) le(2) by (auto intro: less_trans)
  qed (rule Suc.prems)
  then show ?case using s1(1) le(1) by (simp add: freerange_loop.simps [of p] page_run_Suc)
qed

text \<open>C23: \<open>kinit\<close> returns, and then every whole page between the end of the kernel and
  \<open>PHYSTOP\<close> is on the free list exactly once, and nothing else is.\<close>

theorem kinit_fills_free_list:
  assumes "0 < sym_end (syms s)" and "sym_end (syms s) \<le> PHYSTOP" and "freelist s = 0"
  shows "\<exists>s' qs. kinit s = Some (Done () s') \<and> free_ok s' qs
     \<and> (\<forall>p. p \<in> set qs \<longleftrightarrow> p mod PGSIZE = 0 \<and> sym_end (syms s) \<le> p \<and> p < PHYSTOP)"
proof -
  let ?e = "sym_end (syms s)" and ?p = "PGROUNDUP (sym_end (syms s))"
  have e: "unat ?e \<le> 2281701376" "0 < unat ?e" using assms(1,2) by (simp_all add: word_le_nat_alt unat_gt_0)
  then have u: "unat ?p = (unat ?e + 4095) - (unat ?e + 4095) mod 4096" by (intro unat_PGROUNDUP) simp
  then have le: "unat ?e \<le> unat ?p" "unat ?p < unat ?e + 4096" "0 < unat ?p"
    using e(2) mod_less_divisor [of 4096 "unat ?e + 4095"] by linarith+
  have al: "unat ?p mod 4096 = 0" using page_unat(1) [OF PGROUNDUP_aligned] .
  then obtain a where a: "unat ?p = 4096 * a" by (metis dvd_def mod_eq_0_iff_dvd)
  have a2: "a \<le> 557056"
  proof (rule ccontr)
    assume "\<not> a \<le> 557056"
    with a le(2) e(1) have "unat ?e = 2281701376 \<or> unat ?e > 2281701376" by linarith
    with e(1) have "unat ?e = 2281701376" by simp
    with u a show False using \<open>\<not> a \<le> 557056\<close> by simp
  qed
  define k where "k = 557056 - a"
  have k: "unat ?p + 4096 * k = 2281701376" using a a2 by (simp add: k_def)
  have "free_ok s []" using assms(3) by (simp add: free_ok_def)
  moreover have "?p \<noteq> 0" using le(3) by auto
  ultimately obtain s' where s': "freerange_loop ?p PHYSTOP s = Some (Done () s')"
    "free_ok s' (rev (page_run ?p k) @ [])"
    using freerange_loop_fills [of s "[]" ?p PHYSTOP k] PGROUNDUP_aligned k le
    by (auto simp: word_le_nat_alt word_gt_0 unat_eq_0)
  have "p \<in> set (page_run ?p k) \<longleftrightarrow> p mod PGSIZE = 0 \<and> ?e \<le> p \<and> p < PHYSTOP" for p
  proof
    assume "p \<in> set (page_run ?p k)"
    then obtain i where i: "i < k" "p = ?p + of_nat (i * 4096)" by (auto simp: page_run_def)
    have "unat p = unat ?p + i * 4096" unfolding i(2) using i(1) k by (intro unat_add_of_nat) simp
    with i k al le show "p mod PGSIZE = 0 \<and> ?e \<le> p \<and> p < PHYSTOP"
      by (auto intro!: aligned_unat simp: word_le_nat_alt word_less_nat_alt mod_add_eq)
  next
    assume p: "p mod PGSIZE = 0 \<and> ?e \<le> p \<and> p < PHYSTOP"
    then obtain b where b: "unat p = 4096 * b" using page_unat(1) [of p] by (metis dvd_def mod_eq_0_iff_dvd)
    have "unat ?e \<le> 4096 * b" "4096 * b < 2281701376" using p b by (simp_all add: word_le_nat_alt word_less_nat_alt)
    with le(2) a k have "a \<le> b" "b - a < k" by linarith+
    then obtain j where j: "b = a + j" "j < k" using le_Suc_ex by force
    have "unat (?p + of_nat (j * 4096)) = unat ?p + j * 4096"
      using j k by (intro unat_add_of_nat) simp
    also have "\<dots> = unat p" using j a b by simp
    finally have "p = ?p + of_nat j * 4096" by (simp add: word_unat_eq_iff)
    with j show "p \<in> set (page_run ?p k)" by (auto simp: page_run_def)
  qed
  with s' show ?thesis
    by (intro exI [of _ s'] exI [of _ "rev (page_run ?p k)"]) (simp add: kinit_def freerange_def)
qed

theorem kinit_fills_free_list_witness:
  "\<exists>s' qs. kinit (zero_kernel (zero_table\<lparr>syms := zero_syms\<lparr>sym_end := 0x87FFE123\<rparr>\<rparr>) (\<lambda>_. [])) = Some (Done () s')
     \<and> free_ok s' qs \<and> 0x87FFF000 \<in> set qs \<and> 0x87FFE000 \<notin> set qs"
proof -
  let ?s = "zero_kernel (zero_table\<lparr>syms := zero_syms\<lparr>sym_end := 0x87FFE123\<rparr>\<rparr>) (\<lambda>_. [])"
  obtain s' qs where "kinit ?s = Some (Done () s')" "free_ok s' qs"
    and qs: "\<And>p. p \<in> set qs \<longleftrightarrow> p mod PGSIZE = 0 \<and> sym_end (syms ?s) \<le> p \<and> p < PHYSTOP"
    using kinit_fills_free_list [of ?s] by auto
  moreover have "0x87FFF000 \<in> set qs" "0x87FFE000 \<notin> set qs" by (simp_all add: qs)
  ultimately show ?thesis by blast
qed

section \<open>Allocation\<close>

text \<open>C24: The pages \<open>n\<close> calls of \<open>kalloc\<close> return are distinct, valid, and no longer on the
  free list, as long as it is long enough; giving them back in the opposite order restores it.\<close>

theorem kalloc_distinct_pages:
  assumes "free_ok s qs" and "n \<le> length qs"
  shows "distinct (fst (km.allocs n s)) \<and> length (fst (km.allocs n s)) = n
    \<and> (\<forall>p. p \<in> set (fst (km.allocs n s)) \<longrightarrow> page_ok s p \<and> p \<notin> set (drop n qs))
    \<and> free_ok (snd (km.allocs n s)) (drop n qs)
    \<and> (\<exists>s'. km.releases (rev (fst (km.allocs n s))) (snd (km.allocs n s)) = Some s' \<and> free_ok s' qs)"
proof -
  have d: "distinct qs" using assms(1) by (rule km.holds_distinct)
  then have "set (take n qs) \<inter> set (drop n qs) = {}" using set_take_disj_set_drop_if_distinct [of qs n n] by simp
  with km.allocs_take [OF assms] d km.holds_valid [OF assms(1)] km.alloc_release_roundtrip [OF assms] assms(2)
  show ?thesis by (auto dest: in_set_takeD)
qed

theorem kalloc_distinct_pages_witness:
  "\<exists>s qs. free_ok s qs \<and> 2 \<le> length qs \<and> distinct (fst (km.allocs 2 s))"
proof -
  let ?s = "zero_kernel (zero_table\<lparr>syms := zero_syms\<lparr>sym_end := 0x80000000\<rparr>\<rparr>) (\<lambda>_. [])"
  have "free_ok ?s []" by (simp add: free_ok_def)
  moreover have "page_ok ?s 0x80001000" by (simp add: page_ok_def)
  ultimately obtain s1 where s1: "free_ok s1 [0x80001000]" "s1 = ?s\<lparr>mem := mem s1, freelist := 0x80001000\<rparr>"
    using kfree_cons [where s = ?s and qs = "[]" and p = "0x80001000"] by auto
  have "syms s1 = zero_syms\<lparr>sym_end := 0x80000000\<rparr>" by (subst s1(2)) simp
  then have "page_ok s1 0x80002000" by (simp add: page_ok_def)
  then obtain s2 where s2: "free_ok s2 [0x80002000, 0x80001000]"
    using kfree_cons [OF s1(1), where p = "0x80002000"] by auto
  with kalloc_distinct_pages [OF s2, where n = 2] show ?thesis by (intro exI [of _ s2]) auto
qed

end
