(* ===== verification/Vm.thy ===== *)
theory Vm
  imports Kalloc
begin

text \<open>
  \<^verbatim>\<open>kernel/vm.c\<close>: Sv39 page tables in physical memory, and the copies between kernel and
  user space.  A kernel buffer that is copied from or to is the list of its bytes; the bytes
  \<open>copyin\<close> and \<open>copyinstr\<close> have stored are part of their result, also when they fail half-way.
  Dereferencing a null \<open>pte_t *\<close> faults in the kernel and \<open>kerneltrap\<close> panics.
\<close>

section \<open>Page table entries (riscv.h)\<close>

abbreviation (input) PTE_V :: u64 where "PTE_V \<equiv> 1"
abbreviation (input) PTE_R :: u64 where "PTE_R \<equiv> 2"
abbreviation (input) PTE_W :: u64 where "PTE_W \<equiv> 4"
abbreviation (input) PTE_X :: u64 where "PTE_X \<equiv> 8"
abbreviation (input) PTE_U :: u64 where "PTE_U \<equiv> 16"

definition PA2PTE :: "u64 \<Rightarrow> u64" where
  "PA2PTE pa = push_bit 10 (drop_bit 12 pa)"

definition PTE2PA :: "u64 \<Rightarrow> u64" where
  "PTE2PA pte = push_bit 12 (drop_bit 10 pte)"

definition PTE_FLAGS :: "u64 \<Rightarrow> u64" where
  "PTE_FLAGS pte = pte AND 0x3FF"

definition PX :: "nat \<Rightarrow> u64 \<Rightarrow> u64" where
  "PX level va = drop_bit (12 + 9 * level) va AND 0x1FF"

definition MAKE_SATP :: "u64 \<Rightarrow> u64" where
  "MAKE_SATP pagetable = push_bit 60 8 OR drop_bit 12 pagetable"

section \<open>Walking\<close>

fun walk_loop :: "nat \<Rightarrow> u64 \<Rightarrow> u64 \<Rightarrow> bool \<Rightarrow> kernel \<Rightarrow> u64 \<times> kernel" where
  "walk_loop 0 pagetable va alloc s = (pagetable + 8 * PX 0 va, s)"
| "walk_loop (Suc l) pagetable va alloc s =
     (let pte = pagetable + 8 * PX (Suc l) va
      in if load64 (mem s) pte AND PTE_V \<noteq> 0 then
           walk_loop l (PTE2PA (load64 (mem s) pte)) va alloc s
         else if \<not> alloc then (0, s)
         else let (pagetable, s) = kalloc s
              in if pagetable = 0 then (0, s)
                 else let s = s\<lparr>mem := memset pagetable 0 4096 (mem s)\<rparr>;
                          s = s\<lparr>mem := store64 pte (PA2PTE pagetable OR PTE_V) (mem s)\<rparr>
                      in walk_loop l pagetable va alloc s)"

definition walk :: "u64 \<Rightarrow> u64 \<Rightarrow> bool \<Rightarrow> kernel \<Rightarrow> u64 kres" where
  "walk pagetable va alloc s =
     (if va \<ge> MAXVA then Panic ''walk''
      else let (pte, s) = walk_loop 2 pagetable va alloc s in Done pte s)"

definition walkaddr :: "u64 \<Rightarrow> u64 \<Rightarrow> kernel \<Rightarrow> u64 kres" where
  "walkaddr pagetable va s =
     (if va \<ge> MAXVA then Done 0 s
      else obind (walk pagetable va False s) (\<lambda>pte s.
        if pte = 0 then Done 0 s
        else if load64 (mem s) pte AND PTE_V = 0 then Done 0 s
        else if load64 (mem s) pte AND PTE_U = 0 then Done 0 s
        else Done (PTE2PA (load64 (mem s) pte)) s))"

definition ismapped :: "u64 \<Rightarrow> u64 \<Rightarrow> kernel \<Rightarrow> bool kres" where
  "ismapped pagetable va s =
     obind (walk pagetable va False s) (\<lambda>pte s.
       if pte = 0 then Done False s
       else Done (load64 (mem s) pte AND PTE_V \<noteq> 0) s)"

lemma walk_Done_less: "walk pt va al s = Done pte s' \<Longrightarrow> va < MAXVA"
  by (auto simp: walk_def Let_def split: if_splits)

text \<open>Every loop over virtual pages calls \<open>walk\<close> in each round, which stops it at \<open>MAXVA\<close>.\<close>

lemma next_page_measure: "a < MAXVA \<Longrightarrow> unat (MAXVA + PGSIZE - (a + PGSIZE)) < unat (MAXVA + PGSIZE - a)"
proof -
  assume a: "a < MAXVA"
  then have u: "unat a < 274877906944" by (simp add: word_less_nat_alt)
  have "unat (274877906944 - a) = 274877906944 - unat a"
    using a by (simp add: unat_sub order.strict_implies_order)
  moreover have "a \<le> 274877911040" using u by (simp add: word_le_nat_alt)
  then have "unat (274877911040 - a) = 274877911040 - unat a" by (simp add: unat_sub)
  ultimately show ?thesis using u by simp
qed

section \<open>Mapping\<close>

function mappages_loop :: "u64 \<Rightarrow> u64 \<Rightarrow> u64 \<Rightarrow> u64 \<Rightarrow> u64 \<Rightarrow> kernel \<Rightarrow> int kres" where
  "mappages_loop pagetable a lst pa perm s =
     obind (walk pagetable a True s) (\<lambda>pte s.
       if pte = 0 then Done (-1) s
       else if load64 (mem s) pte AND PTE_V \<noteq> 0 then Panic ''mappages: remap''
       else let s = s\<lparr>mem := store64 pte (PA2PTE pa OR perm OR PTE_V) (mem s)\<rparr>
            in if a = lst then Done 0 s
               else mappages_loop pagetable (a + PGSIZE) lst (pa + PGSIZE) perm s)"
  by pat_completeness auto
termination
  by (relation "measure (\<lambda>(pt, a, lst, pa, perm, s). unat (MAXVA + PGSIZE - a))")
    (auto dest!: walk_Done_less next_page_measure)

declare mappages_loop.simps [simp del]

definition mappages :: "u64 \<Rightarrow> u64 \<Rightarrow> u64 \<Rightarrow> u64 \<Rightarrow> u64 \<Rightarrow> kernel \<Rightarrow> int kres" where
  "mappages pagetable va sz pa perm s =
     (if va mod PGSIZE \<noteq> 0 then Panic ''mappages: va not aligned''
      else if sz mod PGSIZE \<noteq> 0 then Panic ''mappages: size not aligned''
      else if sz = 0 then Panic ''mappages: size''
      else mappages_loop pagetable va (va + sz - PGSIZE) pa perm s)"

definition kvmmap :: "u64 \<Rightarrow> u64 \<Rightarrow> u64 \<Rightarrow> u64 \<Rightarrow> u64 \<Rightarrow> kernel \<Rightarrow> unit kres" where
  "kvmmap kpgtbl va pa sz perm s =
     obind (mappages kpgtbl va sz pa perm s) (\<lambda>r s. if r \<noteq> 0 then Panic ''kvmmap'' else Done () s)"

fun proc_mapstacks_loop :: "nat list \<Rightarrow> u64 \<Rightarrow> kernel \<Rightarrow> unit kres" where
  "proc_mapstacks_loop [] kpgtbl s = Done () s"
| "proc_mapstacks_loop (p # ps) kpgtbl s =
     (let (pa, s) = kalloc s
      in if pa = 0 then Panic ''kalloc''
         else obind (kvmmap kpgtbl (KSTACK p) pa PGSIZE (PTE_R OR PTE_W) s) (\<lambda>_ s.
           proc_mapstacks_loop ps kpgtbl s))"

definition proc_mapstacks :: "u64 \<Rightarrow> kernel \<Rightarrow> unit kres" where
  "proc_mapstacks kpgtbl s = proc_mapstacks_loop [0..<NPROC] kpgtbl s"

definition kvmmake :: "kernel \<Rightarrow> u64 kres" where
  "kvmmake s =
     (let (kpgtbl, s) = kalloc s;
          s = s\<lparr>mem := memset kpgtbl 0 4096 (mem s)\<rparr>;
          etext = sym_etext (syms s)
      in obind (kvmmap kpgtbl UART0 UART0 PGSIZE (PTE_R OR PTE_W) s) (\<lambda>_ s.
         obind (kvmmap kpgtbl VIRTIO0 VIRTIO0 PGSIZE (PTE_R OR PTE_W) s) (\<lambda>_ s.
         obind (kvmmap kpgtbl PLIC PLIC 0x4000000 (PTE_R OR PTE_W) s) (\<lambda>_ s.
         obind (kvmmap kpgtbl KERNBASE KERNBASE (etext - KERNBASE) (PTE_R OR PTE_X) s) (\<lambda>_ s.
         obind (kvmmap kpgtbl etext etext (PHYSTOP - etext) (PTE_R OR PTE_W) s) (\<lambda>_ s.
         obind (kvmmap kpgtbl TRAMPOLINE (sym_trampoline (syms s)) PGSIZE (PTE_R OR PTE_X) s) (\<lambda>_ s.
         obind (proc_mapstacks kpgtbl s) (\<lambda>_ s. Done kpgtbl s))))))))"

definition kvminit :: "kernel \<Rightarrow> unit kres" where
  "kvminit s = obind (kvmmake s) (\<lambda>kpgtbl s. Done () (s\<lparr>kernel_pagetable := kpgtbl\<rparr>))"

text \<open>The value \<open>kvminithart\<close> writes to the \<open>satp\<close> register.\<close>

definition kvminithart :: "kernel \<Rightarrow> u64" where
  "kvminithart s = MAKE_SATP (kernel_pagetable s)"

section \<open>User page tables\<close>

definition uvmcreate :: "kernel \<Rightarrow> u64 \<times> kernel" where
  "uvmcreate s =
     (let (pagetable, s) = kalloc s
      in if pagetable = 0 then (0, s)
         else (pagetable, s\<lparr>mem := memset pagetable 0 4096 (mem s)\<rparr>))"

function uvmunmap_loop :: "u64 \<Rightarrow> u64 \<Rightarrow> u64 \<Rightarrow> bool \<Rightarrow> kernel \<Rightarrow> unit kres" where
  "uvmunmap_loop pagetable a lim do_free s =
     (if a < lim then
        obind (walk pagetable a False s) (\<lambda>pte s.
          if pte = 0 then uvmunmap_loop pagetable (a + PGSIZE) lim do_free s
          else if load64 (mem s) pte AND PTE_V = 0 then
            uvmunmap_loop pagetable (a + PGSIZE) lim do_free s
          else obind (if do_free then kfree (PTE2PA (load64 (mem s) pte)) s else Done () s) (\<lambda>_ s.
            let s = s\<lparr>mem := store64 pte 0 (mem s)\<rparr>
            in uvmunmap_loop pagetable (a + PGSIZE) lim do_free s))
      else Done () s)"
  by pat_completeness auto
termination
  by (relation "measure (\<lambda>(pt, a, lim, f, s). unat (MAXVA + PGSIZE - a))")
    (auto dest!: walk_Done_less next_page_measure)

declare uvmunmap_loop.simps [simp del]

definition uvmunmap :: "u64 \<Rightarrow> u64 \<Rightarrow> u64 \<Rightarrow> bool \<Rightarrow> kernel \<Rightarrow> unit kres" where
  "uvmunmap pagetable va npages do_free s =
     (if va mod PGSIZE \<noteq> 0 then Panic ''uvmunmap: not aligned''
      else uvmunmap_loop pagetable va (va + npages * PGSIZE) do_free s)"

text \<open>\<open>int npages\<close>: the number of pages goes through a 32-bit integer on its way to \<open>uvmunmap\<close>.\<close>

definition uvmdealloc :: "u64 \<Rightarrow> u64 \<Rightarrow> u64 \<Rightarrow> kernel \<Rightarrow> u64 kres" where
  "uvmdealloc pagetable oldsz newsz s =
     (if newsz \<ge> oldsz then Done oldsz s
      else if PGROUNDUP newsz < PGROUNDUP oldsz then
        let npages = int32 (uint ((PGROUNDUP oldsz - PGROUNDUP newsz) div PGSIZE))
        in obind (uvmunmap pagetable (PGROUNDUP newsz) (of_int npages) True s) (\<lambda>_ s. Done newsz s)
      else Done newsz s)"

lemma mappages_Done_less: "mappages pt va sz pa perm s = Done r s' \<Longrightarrow> va < MAXVA"
  by (auto simp: mappages_def mappages_loop.simps [of pt va] outcome_simps dest: walk_Done_less split: if_splits)

function uvmalloc_loop :: "u64 \<Rightarrow> u64 \<Rightarrow> u64 \<Rightarrow> u64 \<Rightarrow> u64 \<Rightarrow> kernel \<Rightarrow> u64 kres" where
  "uvmalloc_loop pagetable a oldsz newsz xperm s =
     (if a < newsz then
        let (pa, s) = kalloc s
        in if pa = 0 then obind (uvmdealloc pagetable a oldsz s) (\<lambda>_ s. Done 0 s)
           else let s = s\<lparr>mem := memset pa 0 4096 (mem s)\<rparr>
                in obind (mappages pagetable a PGSIZE pa (PTE_R OR PTE_U OR xperm) s) (\<lambda>r s.
                  if r \<noteq> 0 then
                    obind (kfree pa s) (\<lambda>_ s.
                    obind (uvmdealloc pagetable a oldsz s) (\<lambda>_ s. Done 0 s))
                  else uvmalloc_loop pagetable (a + PGSIZE) oldsz newsz xperm s)
      else Done newsz s)"
  by pat_completeness auto
termination
  by (relation "measure (\<lambda>(pt, a, oldsz, newsz, xp, s). unat (MAXVA + PGSIZE - a))")
    (auto dest!: mappages_Done_less next_page_measure)

declare uvmalloc_loop.simps [simp del]

definition uvmalloc :: "u64 \<Rightarrow> u64 \<Rightarrow> u64 \<Rightarrow> u64 \<Rightarrow> kernel \<Rightarrow> u64 kres" where
  "uvmalloc pagetable oldsz newsz xperm s =
     (if newsz < oldsz then Done oldsz s
      else let oldsz = PGROUNDUP oldsz in uvmalloc_loop pagetable oldsz oldsz newsz xperm s)"

text \<open>
  \<open>freewalk\<close> recurses into every table an entry points to.  A table that is not a tree of
  three levels could make it recurse until its one-page kernel stack runs into the guard page
  below it, which is a fault in the kernel; \<open>d\<close> bounds the depth.
\<close>

abbreviation (input) FREEWALK_DEPTH :: nat where "FREEWALK_DEPTH \<equiv> 64"

fun freewalk :: "nat \<Rightarrow> u64 \<Rightarrow> kernel \<Rightarrow> unit kres"
and freewalk_loop :: "nat \<Rightarrow> nat list \<Rightarrow> u64 \<Rightarrow> kernel \<Rightarrow> unit kres" where
  "freewalk 0 pagetable s = Panic ''kerneltrap''"
| "freewalk (Suc d) pagetable s =
     obind (freewalk_loop d [0..<512] pagetable s) (\<lambda>_ s. kfree pagetable s)"
| "freewalk_loop d [] pagetable s = Done () s"
| "freewalk_loop d (i # is) pagetable s =
     (let slot = pagetable + 8 * of_nat i;
          pte = load64 (mem s) slot
      in if pte AND PTE_V \<noteq> 0 \<and> pte AND (PTE_R OR PTE_W OR PTE_X) = 0 then
           obind (freewalk d (PTE2PA pte) s) (\<lambda>_ s.
           let s = s\<lparr>mem := store64 slot 0 (mem s)\<rparr>
           in freewalk_loop d is pagetable s)
         else if pte AND PTE_V \<noteq> 0 then Panic ''freewalk: leaf''
         else freewalk_loop d is pagetable s)"

definition uvmfree :: "u64 \<Rightarrow> u64 \<Rightarrow> kernel \<Rightarrow> unit kres" where
  "uvmfree pagetable sz s =
     obind (if sz > 0 then uvmunmap pagetable 0 (PGROUNDUP sz div PGSIZE) True s else Done () s)
       (\<lambda>_ s. freewalk FREEWALK_DEPTH pagetable s)"

definition uvmcopy_err :: "u64 \<Rightarrow> u64 \<Rightarrow> kernel \<Rightarrow> int kres" where
  "uvmcopy_err new i s = obind (uvmunmap new 0 (i div PGSIZE) True s) (\<lambda>_ s. Done (-1) s)"

function uvmcopy_loop :: "u64 \<Rightarrow> u64 \<Rightarrow> u64 \<Rightarrow> u64 \<Rightarrow> kernel \<Rightarrow> int kres" where
  "uvmcopy_loop old new i sz s =
     (if i < sz then
        obind (walk old i False s) (\<lambda>pte s.
          if pte = 0 then uvmcopy_loop old new (i + PGSIZE) sz s
          else if load64 (mem s) pte AND PTE_V = 0 then uvmcopy_loop old new (i + PGSIZE) sz s
          else let pa = PTE2PA (load64 (mem s) pte);
                   flags = PTE_FLAGS (load64 (mem s) pte);
                   (pg, s) = kalloc s
               in if pg = 0 then uvmcopy_err new i s
                  else let s = s\<lparr>mem := memmove pg pa 4096 (mem s)\<rparr>
                       in obind (mappages new i PGSIZE pg flags s) (\<lambda>r s.
                         if r \<noteq> 0 then obind (kfree pg s) (\<lambda>_ s. uvmcopy_err new i s)
                         else uvmcopy_loop old new (i + PGSIZE) sz s))
      else Done 0 s)"
  by pat_completeness auto
termination
  by (relation "measure (\<lambda>(old, new, i, sz, s). unat (MAXVA + PGSIZE - i))")
    (auto dest!: walk_Done_less next_page_measure)

declare uvmcopy_loop.simps [simp del]

definition uvmcopy :: "u64 \<Rightarrow> u64 \<Rightarrow> u64 \<Rightarrow> kernel \<Rightarrow> int kres" where
  "uvmcopy old new sz s = uvmcopy_loop old new 0 sz s"

definition uvmclear :: "u64 \<Rightarrow> u64 \<Rightarrow> kernel \<Rightarrow> unit kres" where
  "uvmclear pagetable va s =
     obind (walk pagetable va False s) (\<lambda>pte s.
       if pte = 0 then Panic ''uvmclear''
       else Done () (s\<lparr>mem := store64 pte (load64 (mem s) pte AND NOT PTE_U) (mem s)\<rparr>))"

section \<open>Copies between kernel and user space\<close>

definition vmfault :: "u64 \<Rightarrow> u64 \<Rightarrow> bool \<Rightarrow> kernel \<Rightarrow> u64 kres" where
  "vmfault pagetable va rd s =
     (case myproc s of
        None \<Rightarrow> Panic ''kerneltrap''
      | Some p \<Rightarrow>
          if va \<ge> p_sz (procs s ! p) then Done 0 s
          else let va = PGROUNDDOWN va
               in obind (ismapped pagetable va s) (\<lambda>b s.
                 if b then Done 0 s
                 else let (pa, s) = kalloc s
                      in if pa = 0 then Done 0 s
                         else let s = s\<lparr>mem := memset pa 0 4096 (mem s)\<rparr>
                              in obind (mappages (p_pagetable (procs s ! p)) va PGSIZE pa
                                          (PTE_W OR PTE_U OR PTE_R) s) (\<lambda>r s.
                                if r \<noteq> 0 then obind (kfree pa s) (\<lambda>_ s. Done 0 s)
                                else Done pa s)))"

text \<open>\<open>walkaddr\<close>, and \<open>vmfault\<close> when that finds nothing: the start of each round of the copies.\<close>

definition user_page :: "u64 \<Rightarrow> u64 \<Rightarrow> kernel \<Rightarrow> u64 kres" where
  "user_page pagetable va0 s =
     obind (walkaddr pagetable va0 s) (\<lambda>pa0 s.
       if pa0 = 0 then vmfault pagetable va0 False s else Done pa0 s)"

definition chunk :: "u64 \<Rightarrow> nat \<Rightarrow> nat" where
  "chunk va len = (let n = unat (PGSIZE - (va - PGROUNDDOWN va)) in if n > len then len else n)"

lemma page_offset: "unat (va - PGROUNDDOWN va) = unat va mod 4096"
proof -
  have "PGROUNDDOWN va \<le> va" by (simp add: word_le_nat_alt unat_PGROUNDDOWN)
  then have "unat (va - PGROUNDDOWN va) = unat va - unat (PGROUNDDOWN va)" by (simp add: unat_sub)
  then show ?thesis by (simp add: unat_PGROUNDDOWN)
qed

lemma page_rest: "unat (PGSIZE - (va - PGROUNDDOWN va)) = 4096 - unat va mod 4096"
proof -
  have "va - PGROUNDDOWN va \<le> PGSIZE" by (simp add: word_le_nat_alt page_offset less_imp_le)
  then show ?thesis by (simp add: unat_sub page_offset)
qed

lemma chunk_pos: "0 < len \<Longrightarrow> 0 < chunk va len"
  by (simp add: chunk_def page_rest Let_def)

lemma chunk_le: "chunk va len \<le> len" "chunk va len \<le> 4096 - unat va mod 4096"
  by (simp_all add: chunk_def page_rest Let_def)

function copyout :: "u64 \<Rightarrow> u64 \<Rightarrow> u8 list \<Rightarrow> kernel \<Rightarrow> int kres" where
  "copyout pagetable dstva src s =
     (if src \<noteq> [] then
        let va0 = PGROUNDDOWN dstva
        in if va0 \<ge> MAXVA then Done (-1) s
           else obind (user_page pagetable va0 s) (\<lambda>pa0 s.
             if pa0 = 0 then Done (-1) s
             else obind (walk pagetable va0 False s) (\<lambda>pte s.
               if pte = 0 then Panic ''kerneltrap''
               else if load64 (mem s) pte AND PTE_W = 0 then Done (-1) s
               else let n = chunk dstva (length src);
                        s = s\<lparr>mem := write_bytes (pa0 + (dstva - va0)) (take n src) (mem s)\<rparr>
                    in copyout pagetable (va0 + PGSIZE) (drop n src) s))
      else Done 0 s)"
  by pat_completeness auto
termination
  by (relation "measure (\<lambda>(pt, va, src, s). length src)") (auto simp: chunk_pos)

declare copyout.simps [simp del]

function copyin :: "u64 \<Rightarrow> u64 \<Rightarrow> nat \<Rightarrow> kernel \<Rightarrow> (int \<times> u8 list) kres" where
  "copyin pagetable srcva len s =
     (if len > 0 then
        let va0 = PGROUNDDOWN srcva
        in obind (user_page pagetable va0 s) (\<lambda>pa0 s.
             if pa0 = 0 then Done (-1, []) s
             else let n = chunk srcva len;
                      bs = read_bytes (mem s) (pa0 + (srcva - va0)) n
                  in obind (copyin pagetable (va0 + PGSIZE) (len - n) s) (\<lambda>(r, rest) s.
                       Done (r, bs @ rest) s))
      else Done (0, []) s)"
  by pat_completeness auto
termination
  by (relation "measure (\<lambda>(pt, va, len, s). len)") (auto simp: chunk_pos)

declare copyin.simps [simp del]

text \<open>The inner loop of \<open>copyinstr\<close>: copy until a NUL, which is copied too.\<close>

fun scan_nul :: "u8 list \<Rightarrow> u8 list \<times> bool" where
  "scan_nul [] = ([], False)"
| "scan_nul (b # bs) = (if b = 0 then ([0], True) else let (cs, z) = scan_nul bs in (b # cs, z))"

function copyinstr :: "u64 \<Rightarrow> u64 \<Rightarrow> nat \<Rightarrow> kernel \<Rightarrow> (int \<times> u8 list) kres" where
  "copyinstr pagetable srcva mx s =
     (if mx > 0 then
        let va0 = PGROUNDDOWN srcva
        in obind (walkaddr pagetable va0 s) (\<lambda>pa0 s.
             if pa0 = 0 then Done (-1, []) s
             else let n = chunk srcva mx;
                      (cs, got_null) = scan_nul (read_bytes (mem s) (pa0 + (srcva - va0)) n)
                  in if got_null then Done (0, cs) s
                     else obind (copyinstr pagetable (va0 + PGSIZE) (mx - n) s) (\<lambda>(r, rest) s.
                            Done (r, cs @ rest) s))
      else Done (-1, []) s)"
  by pat_completeness auto
termination
  by (relation "measure (\<lambda>(pt, va, mx, s). mx)") (auto simp: chunk_pos)

declare copyinstr.simps [simp del]

end
