(* ===== verification/Bio.thy ===== *)
theory Bio
  imports State
begin

text \<open>
  \<^verbatim>\<open>kernel/sleeplock.c\<close> and \<^verbatim>\<open>kernel/bio.c\<close>: sleep locks and the cache of disk blocks.
  The doubly linked list through \<open>prev\<close> and \<open>next\<close> is \<open>lru\<close>, the buffers from \<open>head.next\<close>
  (most recently used) to \<open>head.prev\<close>.  A loop \<open>while(condition) sleep(chan, lk)\<close> that changes
  nothing before it sleeps is entered again from its start when the process wakes, so a routine
  that has to sleep there yields \<open>Asleep\<close>, and running on is calling it again.
\<close>

section \<open>sleeplock.c\<close>

definition sl_get :: "slname \<Rightarrow> kernel \<Rightarrow> sleeplock" where
  "sl_get n s = (case n of SlBuf i \<Rightarrow> b_lock (bufs s ! i) | SlInode i \<Rightarrow> i_lock (itable s ! i))"

definition sl_put :: "slname \<Rightarrow> sleeplock \<Rightarrow> kernel \<Rightarrow> kernel" where
  "sl_put n lk s =
     (case n of
        SlBuf i \<Rightarrow> s\<lparr>bufs := upd_at i (\<lambda>b. b\<lparr>b_lock := lk\<rparr>) (bufs s)\<rparr>
      | SlInode i \<Rightarrow> s\<lparr>itable := upd_at i (\<lambda>ip. ip\<lparr>i_lock := lk\<rparr>) (itable s)\<rparr>)"

definition initsleeplock :: "slname \<Rightarrow> kernel \<Rightarrow> kernel" where
  "initsleeplock n s = sl_put n \<lparr>sl_locked = False, sl_pid = 0\<rparr> s"

definition acquiresleep :: "slname \<Rightarrow> kernel \<Rightarrow> unit kres" where
  "acquiresleep n s =
     (if sl_locked (sl_get n s) then Asleep (ChSleeplock n) s
      else obind (mypid s) (\<lambda>pid s. Done () (sl_put n \<lparr>sl_locked = True, sl_pid = pid\<rparr> s)))"

definition releasesleep :: "slname \<Rightarrow> kernel \<Rightarrow> kernel" where
  "releasesleep n s = wakeup (ChSleeplock n) (sl_put n \<lparr>sl_locked = False, sl_pid = 0\<rparr> s)"

definition holdingsleep :: "slname \<Rightarrow> kernel \<Rightarrow> bool kres" where
  "holdingsleep n s =
     (if sl_locked (sl_get n s) then obind (mypid s) (\<lambda>pid s. Done (sl_pid (sl_get n s) = pid) s)
      else Done False s)"

section \<open>bio.c\<close>

definition upd_buf :: "nat \<Rightarrow> (buf \<Rightarrow> buf) \<Rightarrow> kernel \<Rightarrow> kernel" where
  "upd_buf i f s = s\<lparr>bufs := upd_at i f (bufs s)\<rparr>"

definition binit :: "kernel \<Rightarrow> kernel" where
  "binit s =
     fold (\<lambda>b s. let s = initsleeplock (SlBuf b) s in s\<lparr>lru := b # lru s\<rparr>)
       [0..<NBUF] (s\<lparr>lru := []\<rparr>)"

definition bget :: "nat \<Rightarrow> nat \<Rightarrow> kernel \<Rightarrow> nat kres" where
  "bget dev blockno s =
     (case find_idx (\<lambda>b. b_dev (bufs s ! b) = dev \<and> b_blockno (bufs s ! b) = blockno) (lru s) of
        Some b \<Rightarrow>
          let s = upd_buf b (\<lambda>x. x\<lparr>b_refcnt := b_refcnt x + 1\<rparr>) s
          in obind (acquiresleep (SlBuf b) s) (\<lambda>_ s. Done b s)
      | None \<Rightarrow>
          (case find_idx (\<lambda>b. b_refcnt (bufs s ! b) = 0) (rev (lru s)) of
             Some b \<Rightarrow>
               let s = upd_buf b (\<lambda>x. x\<lparr>b_dev := dev, b_blockno := blockno, b_valid := False, b_refcnt := 1\<rparr>) s
               in obind (acquiresleep (SlBuf b) s) (\<lambda>_ s. Done b s)
           | None \<Rightarrow> Panic ''bget: no buffers''))"

text \<open>
  \<open>virtio_disk_rw\<close> as the cache sees it: it returns when the device has completed the
  request, the transfer of one block between the buffer and the disk.
\<close>

definition virtio_disk_rw :: "nat \<Rightarrow> bool \<Rightarrow> kernel \<Rightarrow> kernel" where
  "virtio_disk_rw b write s =
     (let n = b_blockno (bufs s ! b)
      in if write then
           s\<lparr>disk := (disk s)(n := b_data (bufs s ! b)),
             dwrites := dwrites s @ [(n, b_data (bufs s ! b))]\<rparr>
         else upd_buf b (\<lambda>x. x\<lparr>b_data := disk s n\<rparr>) s)"

definition bread :: "nat \<Rightarrow> nat \<Rightarrow> kernel \<Rightarrow> nat kres" where
  "bread dev blockno s =
     obind (bget dev blockno s) (\<lambda>b s.
       let s = (if \<not> b_valid (bufs s ! b) then
                  upd_buf b (\<lambda>x. x\<lparr>b_valid := True\<rparr>) (virtio_disk_rw b False s)
                else s)
       in Done b s)"

definition bwrite :: "nat \<Rightarrow> kernel \<Rightarrow> unit kres" where
  "bwrite b s =
     obind (holdingsleep (SlBuf b) s) (\<lambda>h s.
       if \<not> h then Panic ''bwrite'' else Done () (virtio_disk_rw b True s))"

definition brelse :: "nat \<Rightarrow> kernel \<Rightarrow> unit kres" where
  "brelse b s =
     obind (holdingsleep (SlBuf b) s) (\<lambda>h s.
       if \<not> h then Panic ''brelse''
       else let s = releasesleep (SlBuf b) s;
                s = upd_buf b (\<lambda>x. x\<lparr>b_refcnt := b_refcnt x - 1\<rparr>) s
            in Done () (if b_refcnt (bufs s ! b) = 0 then s\<lparr>lru := b # remove1 b (lru s)\<rparr> else s))"

definition bpin :: "nat \<Rightarrow> kernel \<Rightarrow> kernel" where
  "bpin b s = upd_buf b (\<lambda>x. x\<lparr>b_refcnt := b_refcnt x + 1\<rparr>) s"

definition bunpin :: "nat \<Rightarrow> kernel \<Rightarrow> kernel" where
  "bunpin b s = upd_buf b (\<lambda>x. x\<lparr>b_refcnt := b_refcnt x - 1\<rparr>) s"

definition set_data :: "nat \<Rightarrow> u8 list \<Rightarrow> kernel \<Rightarrow> kernel" where
  "set_data b d s = upd_buf b (\<lambda>x. x\<lparr>b_data := d\<rparr>) s"

section \<open>Words in a block\<close>

definition get32 :: "u8 list \<Rightarrow> nat \<Rightarrow> u32" where
  "get32 bs off = word_of_bytes (take 4 (drop off bs))"

definition put32 :: "nat \<Rightarrow> u32 \<Rightarrow> u8 list \<Rightarrow> u8 list" where
  "put32 off v bs = take off bs @ bytes_of 4 v @ drop (off + 4) bs"

definition get16 :: "u8 list \<Rightarrow> nat \<Rightarrow> u16" where
  "get16 bs off = word_of_bytes (take 2 (drop off bs))"

definition put16 :: "nat \<Rightarrow> u16 \<Rightarrow> u8 list \<Rightarrow> u8 list" where
  "put16 off v bs = take off bs @ bytes_of 2 v @ drop (off + 2) bs"

lemma length_put [simp]:
  "off + 4 \<le> length bs \<Longrightarrow> length (put32 off v bs) = length bs"
  "off + 2 \<le> length bs \<Longrightarrow> length (put16 off w bs) = length bs"
  by (simp_all add: put32_def put16_def)

lemma get_put32_same [simp]: "off + 4 \<le> length bs \<Longrightarrow> get32 (put32 off v bs) off = v"
  by (simp add: get32_def put32_def word_of_bytes_of)

lemma get_put32_other:
  assumes "off + 4 \<le> length bs" and "o2 + 4 \<le> length bs" and "o2 + 4 \<le> off \<or> off + 4 \<le> o2"
  shows "get32 (put32 off v bs) o2 = get32 bs o2"
proof -
  have "take 4 (drop o2 (put32 off v bs)) = take 4 (drop o2 bs)"
    using assms by (intro nth_equalityI) (auto simp: put32_def nth_append)
  then show ?thesis by (simp add: get32_def)
qed

lemma get_put16_same [simp]: "off + 2 \<le> length bs \<Longrightarrow> get16 (put16 off v bs) off = v"
  by (simp add: get16_def put16_def word_of_bytes_of)

end
