(* ===== verification/Log.thy ===== *)
theory Log
  imports Bio
begin

text \<open>
  \<^verbatim>\<open>kernel/log.c\<close>: the write-ahead log.  The header block holds the count at offset 0 and the
  block numbers from offset 4 on, as \<^verbatim>\<open>struct logheader\<close> lays them out.
\<close>

definition upd_log :: "(log \<Rightarrow> log) \<Rightarrow> kernel \<Rightarrow> kernel" where
  "upd_log f s = s\<lparr>klog := f (klog s)\<rparr>"

section \<open>The header\<close>

definition hdr_get :: "u8 list \<Rightarrow> nat list \<Rightarrow> int \<times> nat list" where
  "hdr_get d blocks =
     (let n = sint (get32 d 0)
      in (n, fold (\<lambda>i bl. bl[i := unat (get32 d (4 + 4 * i))]) [0..<nat n] blocks))"

definition hdr_put :: "int \<Rightarrow> nat list \<Rightarrow> u8 list \<Rightarrow> u8 list" where
  "hdr_put n blocks d =
     fold (\<lambda>i d. put32 (4 + 4 * i) (of_nat (blocks ! i)) d) [0..<nat n] (put32 0 (of_int n) d)"

definition read_head :: "kernel \<Rightarrow> unit kres" where
  "read_head s =
     obind (bread (l_dev (klog s)) (l_start (klog s)) s) (\<lambda>b s.
       let (n, bl) = hdr_get (b_data (bufs s ! b)) (lh_block (klog s));
           s = upd_log (\<lambda>l. l\<lparr>lh_n := n, lh_block := bl\<rparr>) s
       in brelse b s)"

definition write_head :: "kernel \<Rightarrow> unit kres" where
  "write_head s =
     obind (bread (l_dev (klog s)) (l_start (klog s)) s) (\<lambda>b s.
       let s = set_data b (hdr_put (lh_n (klog s)) (lh_block (klog s)) (b_data (bufs s ! b))) s
       in obind (bwrite b s) (\<lambda>_ s. brelse b s))"

section \<open>Transactions\<close>

fun install_loop :: "nat list \<Rightarrow> bool \<Rightarrow> kernel \<Rightarrow> unit kres" where
  "install_loop [] recovering s = Done () s"
| "install_loop (tail # ts) recovering s =
     (let s = (if recovering then
                 printk ''recovering tail %d dst %d'' [int tail, int (lh_block (klog s) ! tail)] s
               else s)
      in obind (bread (l_dev (klog s)) (l_start (klog s) + tail + 1) s) (\<lambda>lbuf s.
         obind (bread (l_dev (klog s)) (lh_block (klog s) ! tail) s) (\<lambda>dbuf s.
         let s = set_data dbuf (b_data (bufs s ! lbuf)) s
         in obind (bwrite dbuf s) (\<lambda>_ s.
            let s = (if \<not> recovering then bunpin dbuf s else s)
            in obind (brelse lbuf s) (\<lambda>_ s.
               obind (brelse dbuf s) (\<lambda>_ s. install_loop ts recovering s))))))"

definition install_trans :: "bool \<Rightarrow> kernel \<Rightarrow> unit kres" where
  "install_trans recovering s = install_loop [0..<nat (lh_n (klog s))] recovering s"

definition recover_from_log :: "kernel \<Rightarrow> unit kres" where
  "recover_from_log s =
     obind (read_head s) (\<lambda>_ s.
     obind (install_trans True s) (\<lambda>_ s.
     write_head (upd_log (\<lambda>l. l\<lparr>lh_n := 0\<rparr>) s)))"

definition initlog :: "nat \<Rightarrow> superblock \<Rightarrow> kernel \<Rightarrow> unit kres" where
  "initlog dev sblk s =
     recover_from_log (upd_log (\<lambda>l. l\<lparr>l_start := sb_logstart sblk, l_dev := dev\<rparr>) s)"

definition begin_op :: "kernel \<Rightarrow> unit kres" where
  "begin_op s =
     (if l_committing (klog s) then Asleep ChLog s
      else if lh_n (klog s) + (l_outstanding (klog s) + 1) * MAXOPBLOCKS > LOGBLOCKS then Asleep ChLog s
      else Done () (upd_log (\<lambda>l. l\<lparr>l_outstanding := l_outstanding l + 1\<rparr>) s))"

fun write_log_loop :: "nat list \<Rightarrow> kernel \<Rightarrow> unit kres" where
  "write_log_loop [] s = Done () s"
| "write_log_loop (tail # ts) s =
     obind (bread (l_dev (klog s)) (l_start (klog s) + tail + 1) s) (\<lambda>to s.
     obind (bread (l_dev (klog s)) (lh_block (klog s) ! tail) s) (\<lambda>from s.
     let s = set_data to (b_data (bufs s ! from)) s
     in obind (bwrite to s) (\<lambda>_ s.
        obind (brelse from s) (\<lambda>_ s.
        obind (brelse to s) (\<lambda>_ s. write_log_loop ts s)))))"

definition write_log :: "kernel \<Rightarrow> unit kres" where
  "write_log s = write_log_loop [0..<nat (lh_n (klog s))] s"

definition commit :: "kernel \<Rightarrow> unit kres" where
  "commit s =
     (if lh_n (klog s) > 0 then
        obind (write_log s) (\<lambda>_ s.
        obind (write_head s) (\<lambda>_ s.
        obind (install_trans False s) (\<lambda>_ s.
        write_head (upd_log (\<lambda>l. l\<lparr>lh_n := 0\<rparr>) s))))
      else Done () s)"

definition end_op :: "kernel \<Rightarrow> unit kres" where
  "end_op s =
     (let s = upd_log (\<lambda>l. l\<lparr>l_outstanding := l_outstanding l - 1\<rparr>) s
      in if l_committing (klog s) then Panic ''log.committing''
         else if l_outstanding (klog s) = 0 then
           let s = upd_log (\<lambda>l. l\<lparr>l_committing := True\<rparr>) s
           in obind (commit s) (\<lambda>_ s.
              Done () (wakeup ChLog (upd_log (\<lambda>l. l\<lparr>l_committing := False\<rparr>) s)))
         else Done () (wakeup ChLog s))"

definition log_write :: "nat \<Rightarrow> kernel \<Rightarrow> unit kres" where
  "log_write b s =
     (if lh_n (klog s) \<ge> LOGBLOCKS then Panic ''too big a transaction''
      else if l_outstanding (klog s) < 1 then Panic ''log_write outside of trans''
      else let n = nat (lh_n (klog s));
               i = (case find_idx (\<lambda>i. lh_block (klog s) ! i = b_blockno (bufs s ! b)) [0..<n] of
                      Some i \<Rightarrow> i | None \<Rightarrow> n);
               s = upd_log (\<lambda>l. l\<lparr>lh_block := (lh_block l)[i := b_blockno (bufs s ! b)]\<rparr>) s
           in if i = n then
                let s = bpin b s in Done () (upd_log (\<lambda>l. l\<lparr>lh_n := lh_n l + 1\<rparr>) s)
              else Done () s)"

end
