(* ===== verification/Fs.thy ===== *)
theory Fs
  imports Vm Log
begin

text \<open>
  The lower half of \<^verbatim>\<open>kernel/fs.c\<close>: super block, block allocator, inode table, block
  mapping, and reading and writing of inode contents, with \<open>either_copyout\<close> and
  \<open>either_copyin\<close> of \<^verbatim>\<open>kernel/proc.c\<close>.  A destination is a user address, a kernel
  address, or a local variable of the caller; the bytes delivered are part of the result,
  so a caller with a local variable finds its contents there.
\<close>

section \<open>Copies to and from either side\<close>

datatype dest = DUser u64 | DMem u64 | DLocal
datatype source = SUser u64 | SLocal "u8 list"

fun dest_add :: "dest \<Rightarrow> nat \<Rightarrow> dest" where
  "dest_add (DUser va) m = DUser (va + of_nat m)"
| "dest_add (DMem pa) m = DMem (pa + of_nat m)"
| "dest_add DLocal m = DLocal"

fun source_add :: "source \<Rightarrow> nat \<Rightarrow> source" where
  "source_add (SUser va) m = SUser (va + of_nat m)"
| "source_add (SLocal bs) m = SLocal (drop m bs)"

definition either_copyout :: "dest \<Rightarrow> u8 list \<Rightarrow> kernel \<Rightarrow> int kres" where
  "either_copyout d src s =
     (case d of
        DUser dst \<Rightarrow>
          (case myproc s of
             None \<Rightarrow> Panic ''kerneltrap''
           | Some p \<Rightarrow> copyout (p_pagetable (procs s ! p)) dst src s)
      | DMem dst \<Rightarrow> Done 0 (s\<lparr>mem := write_bytes dst src (mem s)\<rparr>)
      | DLocal \<Rightarrow> Done 0 s)"

definition either_copyin :: "source \<Rightarrow> nat \<Rightarrow> kernel \<Rightarrow> (int \<times> u8 list) kres" where
  "either_copyin d len s =
     (case d of
        SUser src \<Rightarrow>
          (case myproc s of
             None \<Rightarrow> Panic ''kerneltrap''
           | Some p \<Rightarrow> copyin (p_pagetable (procs s ! p)) src len s)
      | SLocal bs \<Rightarrow> Done (0, take len bs) s)"

section \<open>Blocks\<close>

definition sb_decode :: "u8 list \<Rightarrow> superblock" where
  "sb_decode d =
     \<lparr>sb_magic = get32 d 0, sb_size = unat (get32 d 4), sb_nblocks = unat (get32 d 8),
      sb_ninodes = unat (get32 d 12), sb_nlog = unat (get32 d 16), sb_logstart = unat (get32 d 20),
      sb_inodestart = unat (get32 d 24), sb_bmapstart = unat (get32 d 28)\<rparr>"

definition readsb :: "nat \<Rightarrow> kernel \<Rightarrow> unit kres" where
  "readsb dev s =
     obind (bread dev 1 s) (\<lambda>bp s.
       let s = s\<lparr>sb := sb_decode (b_data (bufs s ! bp))\<rparr> in brelse bp s)"

definition IBLOCK :: "nat \<Rightarrow> kernel \<Rightarrow> nat" where
  "IBLOCK i s = i div IPB + sb_inodestart (sb s)"

definition BBLOCK :: "nat \<Rightarrow> kernel \<Rightarrow> nat" where
  "BBLOCK b s = b div BPB + sb_bmapstart (sb s)"

definition bzero :: "nat \<Rightarrow> nat \<Rightarrow> kernel \<Rightarrow> unit kres" where
  "bzero dev bno s =
     obind (bread dev bno s) (\<lambda>bp s.
     let s = set_data bp (replicate BSIZE 0) s
     in obind (log_write bp s) (\<lambda>_ s. brelse bp s))"

definition bm_bit :: "u8 list \<Rightarrow> nat \<Rightarrow> bool" where
  "bm_bit d bi = bit (d ! (bi div 8)) (bi mod 8)"

definition bm_set :: "nat \<Rightarrow> u8 list \<Rightarrow> u8 list" where
  "bm_set bi d = d[bi div 8 := d ! (bi div 8) OR push_bit (bi mod 8) 1]"

definition bm_clear :: "nat \<Rightarrow> u8 list \<Rightarrow> u8 list" where
  "bm_clear bi d = d[bi div 8 := d ! (bi div 8) AND NOT (push_bit (bi mod 8) 1)]"

fun balloc_loop :: "nat list \<Rightarrow> nat \<Rightarrow> kernel \<Rightarrow> nat kres" where
  "balloc_loop [] dev s = Done 0 (printk ''balloc: out of blocks'' [] s)"
| "balloc_loop (b # bs) dev s =
     obind (bread dev (BBLOCK b s) s) (\<lambda>bp s.
       case find_idx (\<lambda>bi. \<not> bm_bit (b_data (bufs s ! bp)) bi) [0..<min BPB (sb_size (sb s) - b)] of
         Some bi \<Rightarrow>
           let s = set_data bp (bm_set bi (b_data (bufs s ! bp))) s
           in obind (log_write bp s) (\<lambda>_ s.
              obind (brelse bp s) (\<lambda>_ s.
              obind (bzero dev (b + bi) s) (\<lambda>_ s. Done (b + bi) s)))
       | None \<Rightarrow> obind (brelse bp s) (\<lambda>_ s. balloc_loop bs dev s))"

definition balloc :: "nat \<Rightarrow> kernel \<Rightarrow> nat kres" where
  "balloc dev s = balloc_loop (map (\<lambda>k. k * BPB) [0..<(sb_size (sb s) + BPB - 1) div BPB]) dev s"

definition bfree :: "nat \<Rightarrow> nat \<Rightarrow> kernel \<Rightarrow> unit kres" where
  "bfree dev b s =
     obind (bread dev (BBLOCK b s) s) (\<lambda>bp s.
       let bi = b mod BPB
       in if \<not> bm_bit (b_data (bufs s ! bp)) bi then Panic ''freeing free block''
          else let s = set_data bp (bm_clear bi (b_data (bufs s ! bp))) s
               in obind (log_write bp s) (\<lambda>_ s. brelse bp s))"

section \<open>Inodes\<close>

text \<open>\<^verbatim>\<open>struct dinode\<close>: 64 bytes, sixteen to a block.\<close>

record dinode =
  di_type :: int
  di_major :: int
  di_minor :: int
  di_nlink :: int
  di_size :: u32
  di_addrs :: "nat list"

definition dinode_get :: "u8 list \<Rightarrow> nat \<Rightarrow> dinode" where
  "dinode_get d inum =
     (let off = 64 * (inum mod IPB)
      in \<lparr>di_type = sint (get16 d off), di_major = sint (get16 d (off + 2)),
          di_minor = sint (get16 d (off + 4)), di_nlink = sint (get16 d (off + 6)),
          di_size = get32 d (off + 8),
          di_addrs = map (\<lambda>i. unat (get32 d (off + 12 + 4 * i))) [0..<NDIRECT + 1]\<rparr>)"

definition dinode_put :: "nat \<Rightarrow> dinode \<Rightarrow> u8 list \<Rightarrow> u8 list" where
  "dinode_put inum di d =
     (let off = 64 * (inum mod IPB);
          d = put16 off (of_int (di_type di)) d;
          d = put16 (off + 2) (of_int (di_major di)) d;
          d = put16 (off + 4) (of_int (di_minor di)) d;
          d = put16 (off + 6) (of_int (di_nlink di)) d;
          d = put32 (off + 8) (di_size di) d
      in fold (\<lambda>i d. put32 (off + 12 + 4 * i) (of_nat (di_addrs di ! i)) d) [0..<NDIRECT + 1] d)"

definition upd_inode :: "nat \<Rightarrow> (inode \<Rightarrow> inode) \<Rightarrow> kernel \<Rightarrow> kernel" where
  "upd_inode i f s = s\<lparr>itable := upd_at i f (itable s)\<rparr>"

definition iinit :: "kernel \<Rightarrow> kernel" where
  "iinit s = fold (\<lambda>i. initsleeplock (SlInode i)) [0..<NINODE] s"

fun iget_scan :: "nat list \<Rightarrow> nat option \<Rightarrow> nat \<Rightarrow> nat \<Rightarrow> inode list \<Rightarrow> nat + nat option" where
  "iget_scan [] emp dev inum t = Inr emp"
| "iget_scan (i # is) emp dev inum t =
     (if i_ref (t ! i) > 0 \<and> i_dev (t ! i) = dev \<and> i_inum (t ! i) = inum then Inl i
      else iget_scan is (if emp = None \<and> i_ref (t ! i) = 0 then Some i else emp) dev inum t)"

definition iget :: "nat \<Rightarrow> nat \<Rightarrow> kernel \<Rightarrow> nat kres" where
  "iget dev inum s =
     (case iget_scan [0..<NINODE] None dev inum (itable s) of
        Inl i \<Rightarrow> Done i (upd_inode i (\<lambda>ip. ip\<lparr>i_ref := i_ref ip + 1\<rparr>) s)
      | Inr None \<Rightarrow> Panic ''iget: no inodes''
      | Inr (Some i) \<Rightarrow>
          Done i (upd_inode i (\<lambda>ip. ip\<lparr>i_dev := dev, i_inum := inum, i_ref := 1, i_valid := False\<rparr>) s))"

fun ialloc_loop :: "nat list \<Rightarrow> nat \<Rightarrow> int \<Rightarrow> kernel \<Rightarrow> nat option kres" where
  "ialloc_loop [] dev type s = Done None (printk ''ialloc: no inodes'' [] s)"
| "ialloc_loop (inum # is) dev type s =
     obind (bread dev (IBLOCK inum s) s) (\<lambda>bp s.
       let d = b_data (bufs s ! bp)
       in if di_type (dinode_get d inum) = 0 then
            let s = set_data bp (dinode_put inum
                      \<lparr>di_type = type, di_major = 0, di_minor = 0, di_nlink = 0, di_size = 0,
                       di_addrs = replicate (NDIRECT + 1) 0\<rparr> d) s
            in obind (log_write bp s) (\<lambda>_ s.
               obind (brelse bp s) (\<lambda>_ s.
               obind (iget dev inum s) (\<lambda>ip s. Done (Some ip) s)))
          else obind (brelse bp s) (\<lambda>_ s. ialloc_loop is dev type s))"

definition ialloc :: "nat \<Rightarrow> int \<Rightarrow> kernel \<Rightarrow> nat option kres" where
  "ialloc dev type s = ialloc_loop [1..<sb_ninodes (sb s)] dev type s"

definition iupdate :: "nat \<Rightarrow> kernel \<Rightarrow> unit kres" where
  "iupdate i s =
     (let ip = itable s ! i
      in obind (bread (i_dev ip) (IBLOCK (i_inum ip) s) s) (\<lambda>bp s.
         let ip = itable s ! i;
             s = set_data bp (dinode_put (i_inum ip)
                   \<lparr>di_type = i_type ip, di_major = i_major ip, di_minor = i_minor ip,
                    di_nlink = i_nlink ip, di_size = i_size ip, di_addrs = i_addrs ip\<rparr>
                   (b_data (bufs s ! bp))) s
         in obind (log_write bp s) (\<lambda>_ s. brelse bp s)))"

definition idup :: "nat \<Rightarrow> kernel \<Rightarrow> nat \<times> kernel" where
  "idup i s = (i, upd_inode i (\<lambda>ip. ip\<lparr>i_ref := i_ref ip + 1\<rparr>) s)"

definition ilock :: "nat \<Rightarrow> kernel \<Rightarrow> unit kres" where
  "ilock i s =
     (if i_ref (itable s ! i) < 1 then Panic ''ilock''
      else obind (acquiresleep (SlInode i) s) (\<lambda>_ s.
        if i_valid (itable s ! i) then Done () s
        else obind (bread (i_dev (itable s ! i)) (IBLOCK (i_inum (itable s ! i)) s) s) (\<lambda>bp s.
          let di = dinode_get (b_data (bufs s ! bp)) (i_inum (itable s ! i));
              s = upd_inode i (\<lambda>ip. ip\<lparr>i_type := di_type di, i_major := di_major di,
                    i_minor := di_minor di, i_nlink := di_nlink di, i_size := di_size di,
                    i_addrs := di_addrs di\<rparr>) s
          in obind (brelse bp s) (\<lambda>_ s.
             let s = upd_inode i (\<lambda>ip. ip\<lparr>i_valid := True\<rparr>) s
             in if i_type (itable s ! i) = 0 then Panic ''ilock: no type'' else Done () s))))"

definition iunlock :: "nat \<Rightarrow> kernel \<Rightarrow> unit kres" where
  "iunlock i s =
     obind (holdingsleep (SlInode i) s) (\<lambda>h s.
       if \<not> h \<or> i_ref (itable s ! i) < 1 then Panic ''iunlock''
       else Done () (releasesleep (SlInode i) s))"

section \<open>Content\<close>

definition bmap :: "nat \<Rightarrow> nat \<Rightarrow> kernel \<Rightarrow> nat kres" where
  "bmap i bn s =
     (if bn < NDIRECT then
        let addr = i_addrs (itable s ! i) ! bn
        in if addr = 0 then
             obind (balloc (i_dev (itable s ! i)) s) (\<lambda>addr s.
               if addr = 0 then Done 0 s
               else Done addr (upd_inode i (\<lambda>ip. ip\<lparr>i_addrs := (i_addrs ip)[bn := addr]\<rparr>) s))
           else Done addr s
      else let bn = bn - NDIRECT
           in if bn < NINDIRECT then
                obind (let addr = i_addrs (itable s ! i) ! NDIRECT
                       in if addr = 0 then
                            obind (balloc (i_dev (itable s ! i)) s) (\<lambda>addr s.
                              if addr = 0 then Done 0 s
                              else Done addr (upd_inode i
                                     (\<lambda>ip. ip\<lparr>i_addrs := (i_addrs ip)[NDIRECT := addr]\<rparr>) s))
                          else Done addr s) (\<lambda>ind s.
                  if ind = 0 then Done 0 s
                  else obind (bread (i_dev (itable s ! i)) ind s) (\<lambda>bp s.
                    let addr = unat (get32 (b_data (bufs s ! bp)) (4 * bn))
                    in obind (if addr = 0 then
                                obind (balloc (i_dev (itable s ! i)) s) (\<lambda>addr s.
                                  if addr \<noteq> 0 then
                                    let s = set_data bp (put32 (4 * bn) (of_nat addr) (b_data (bufs s ! bp))) s
                                    in obind (log_write bp s) (\<lambda>_ s. Done addr s)
                                  else Done addr s)
                              else Done addr s) (\<lambda>addr s.
                       obind (brelse bp s) (\<lambda>_ s. Done addr s))))
              else Panic ''bmap: out of range'')"

fun itrunc_direct :: "nat list \<Rightarrow> nat \<Rightarrow> kernel \<Rightarrow> unit kres" where
  "itrunc_direct [] i s = Done () s"
| "itrunc_direct (k # ks) i s =
     (if i_addrs (itable s ! i) ! k \<noteq> 0 then
        obind (bfree (i_dev (itable s ! i)) (i_addrs (itable s ! i) ! k) s) (\<lambda>_ s.
          itrunc_direct ks i (upd_inode i (\<lambda>ip. ip\<lparr>i_addrs := (i_addrs ip)[k := 0]\<rparr>) s))
      else itrunc_direct ks i s)"

fun itrunc_indirect :: "nat list \<Rightarrow> nat \<Rightarrow> nat \<Rightarrow> kernel \<Rightarrow> unit kres" where
  "itrunc_indirect [] i bp s = Done () s"
| "itrunc_indirect (j # js) i bp s =
     (let a = unat (get32 (b_data (bufs s ! bp)) (4 * j))
      in if a \<noteq> 0 then
           obind (bfree (i_dev (itable s ! i)) a s) (\<lambda>_ s. itrunc_indirect js i bp s)
         else itrunc_indirect js i bp s)"

definition itrunc :: "nat \<Rightarrow> kernel \<Rightarrow> unit kres" where
  "itrunc i s =
     obind (itrunc_direct [0..<NDIRECT] i s) (\<lambda>_ s.
     obind (if i_addrs (itable s ! i) ! NDIRECT \<noteq> 0 then
              obind (bread (i_dev (itable s ! i)) (i_addrs (itable s ! i) ! NDIRECT) s) (\<lambda>bp s.
              obind (itrunc_indirect [0..<NINDIRECT] i bp s) (\<lambda>_ s.
              obind (brelse bp s) (\<lambda>_ s.
              obind (bfree (i_dev (itable s ! i)) (i_addrs (itable s ! i) ! NDIRECT) s) (\<lambda>_ s.
              Done () (upd_inode i (\<lambda>ip. ip\<lparr>i_addrs := (i_addrs ip)[NDIRECT := 0]\<rparr>) s)))))
            else Done () s) (\<lambda>_ s.
     iupdate i (upd_inode i (\<lambda>ip. ip\<lparr>i_size := 0\<rparr>) s)))"

definition iput :: "nat \<Rightarrow> kernel \<Rightarrow> unit kres" where
  "iput i s =
     obind (if i_ref (itable s ! i) = 1 \<and> i_valid (itable s ! i) \<and> i_nlink (itable s ! i) = 0 then
              obind (acquiresleep (SlInode i) s) (\<lambda>_ s.
              obind (itrunc i s) (\<lambda>_ s.
              obind (iupdate i (upd_inode i (\<lambda>ip. ip\<lparr>i_type := 0\<rparr>) s)) (\<lambda>_ s.
              let s = upd_inode i (\<lambda>ip. ip\<lparr>i_valid := False\<rparr>) s
              in Done () (releasesleep (SlInode i) s))))
            else Done () s) (\<lambda>_ s.
     Done () (upd_inode i (\<lambda>ip. ip\<lparr>i_ref := i_ref ip - 1\<rparr>) s))"

definition iunlockput :: "nat \<Rightarrow> kernel \<Rightarrow> unit kres" where
  "iunlockput i s = obind (iunlock i s) (\<lambda>_ s. iput i s)"

fun ireclaim_loop :: "nat list \<Rightarrow> nat \<Rightarrow> kernel \<Rightarrow> unit kres" where
  "ireclaim_loop [] dev s = Done () s"
| "ireclaim_loop (inum # is) dev s =
     obind (bread dev (IBLOCK inum s) s) (\<lambda>bp s.
       let di = dinode_get (b_data (bufs s ! bp)) inum
       in obind (if di_type di \<noteq> 0 \<and> di_nlink di = 0 then
                   obind (iget dev inum (printk ''ireclaim: orphaned inode %d'' [int inum] s)) (\<lambda>ip s.
                     Done (Some ip) s)
                 else Done None s) (\<lambda>ipo s.
          obind (brelse bp s) (\<lambda>_ s.
          obind (case ipo of
                   Some ip \<Rightarrow>
                     obind (begin_op s) (\<lambda>_ s.
                     obind (ilock ip s) (\<lambda>_ s.
                     obind (iunlock ip s) (\<lambda>_ s.
                     obind (iput ip s) (\<lambda>_ s. end_op s))))
                 | None \<Rightarrow> Done () s) (\<lambda>_ s.
          ireclaim_loop is dev s))))"

definition ireclaim :: "nat \<Rightarrow> kernel \<Rightarrow> unit kres" where
  "ireclaim dev s = ireclaim_loop [1..<sb_ninodes (sb s)] dev s"

definition fsinit :: "nat \<Rightarrow> kernel \<Rightarrow> unit kres" where
  "fsinit dev s =
     obind (readsb dev s) (\<lambda>_ s.
     if sb_magic (sb s) \<noteq> FSMAGIC then Panic ''invalid file system''
     else obind (initlog dev (sb s) s) (\<lambda>_ s. ireclaim dev s))"

text \<open>\<^verbatim>\<open>struct stat\<close> as \<open>stati\<close> fills it.\<close>

record stat =
  st_dev :: int
  st_ino :: nat
  st_type :: int
  st_nlink :: int
  st_size :: u64

definition stati :: "nat \<Rightarrow> kernel \<Rightarrow> stat" where
  "stati i s =
     (let ip = itable s ! i
      in \<lparr>st_dev = int (i_dev ip), st_ino = i_inum ip, st_type = i_type ip, st_nlink = i_nlink ip,
          st_size = ucast (i_size ip)\<rparr>)"

text \<open>The size of one step of the loops of \<open>readi\<close> and \<open>writei\<close>.\<close>

definition step_size :: "u32 \<Rightarrow> u32 \<Rightarrow> u32 \<Rightarrow> u32" where
  "step_size n tot off = min (n - tot) (1024 - off mod 1024)"

lemma step_size_less: "tot < n \<Longrightarrow> unat (n - (tot + step_size n tot off)) < unat (n - tot)"
proof -
  assume "tot < n"
  then have p: "0 < n - tot" by (metis word_neq_0_conv right_minus_eq order_less_irrefl)
  have "off mod 1024 < 1024" by (simp add: word_mod_less_divisor)
  then have "0 < 1024 - off mod 1024" by (metis word_neq_0_conv right_minus_eq order_less_irrefl)
  with p have m: "0 < step_size n tot off" "step_size n tot off \<le> n - tot"
    by (auto simp: step_size_def min_def)
  have "unat (n - (tot + step_size n tot off)) = unat (n - tot) - unat (step_size n tot off)"
    using m(2) by (simp add: unat_sub [symmetric] diff_diff_eq)
  with m show ?thesis by (simp add: word_less_nat_alt word_le_nat_alt)
qed

function readi_loop :: "nat \<Rightarrow> dest \<Rightarrow> u32 \<Rightarrow> u32 \<Rightarrow> u32 \<Rightarrow> u8 list \<Rightarrow> kernel \<Rightarrow> (int \<times> u8 list) kres" where
  "readi_loop i dst off tot n acc s =
     (if tot < n then
        obind (bmap i (unat off div BSIZE) s) (\<lambda>addr s.
          if addr = 0 then Done (uint tot, acc) s
          else obind (bread (i_dev (itable s ! i)) addr s) (\<lambda>bp s.
            let m = step_size n tot off;
                chunk = take (unat m) (drop (unat off mod BSIZE) (b_data (bufs s ! bp)))
            in obind (either_copyout dst chunk s) (\<lambda>r s.
               if r = -1 then obind (brelse bp s) (\<lambda>_ s. Done (-1, acc) s)
               else obind (brelse bp s) (\<lambda>_ s.
                 readi_loop i (dest_add dst (unat m)) (off + m) (tot + m) n (acc @ chunk) s))))
      else Done (uint tot, acc) s)"
  by pat_completeness auto
termination
  by (relation "measure (\<lambda>(i, dst, off, tot, n, acc, s). unat (n - tot))") (auto simp: step_size_less)

declare readi_loop.simps [simp del]

text \<open>
  The value returned is \<open>tot\<close>, an unsigned 32-bit number, converted to \<open>int\<close>; \<open>tot = -1\<close>
  becomes \<open>-1\<close>.
\<close>

definition readi :: "nat \<Rightarrow> dest \<Rightarrow> u32 \<Rightarrow> u32 \<Rightarrow> kernel \<Rightarrow> (int \<times> u8 list) kres" where
  "readi i dst off n s =
     (if off > i_size (itable s ! i) \<or> off + n < off then Done (0, []) s
      else let n = (if off + n > i_size (itable s ! i) then i_size (itable s ! i) - off else n)
           in obind (readi_loop i dst off 0 n [] s) (\<lambda>(r, bs) s. Done (int32 r, bs) s))"

text \<open>The bytes \<open>cs\<close> stored into a buffer at an offset; a failing copy may store fewer.\<close>

definition store_at :: "nat \<Rightarrow> u8 list \<Rightarrow> u8 list \<Rightarrow> u8 list" where
  "store_at off cs d = take off d @ cs @ drop (off + length cs) d"

function writei_loop :: "nat \<Rightarrow> source \<Rightarrow> u32 \<Rightarrow> u32 \<Rightarrow> u32 \<Rightarrow> kernel \<Rightarrow> (u32 \<times> u32) kres" where
  "writei_loop i src off tot n s =
     (if tot < n then
        obind (bmap i (unat off div BSIZE) s) (\<lambda>addr s.
          if addr = 0 then Done (tot, off) s
          else obind (bread (i_dev (itable s ! i)) addr s) (\<lambda>bp s.
            let m = step_size n tot off
            in obind (either_copyin src (unat m) s) (\<lambda>(r, cs) s.
               let s = set_data bp (store_at (unat off mod BSIZE) cs (b_data (bufs s ! bp))) s
               in if r = -1 then obind (brelse bp s) (\<lambda>_ s. Done (tot, off) s)
                  else obind (log_write bp s) (\<lambda>_ s.
                    obind (brelse bp s) (\<lambda>_ s.
                    writei_loop i (source_add src (unat m)) (off + m) (tot + m) n s)))))
      else Done (tot, off) s)"
  by pat_completeness auto
termination
  by (relation "measure (\<lambda>(i, src, off, tot, n, s). unat (n - tot))") (auto simp: step_size_less)

declare writei_loop.simps [simp del]

definition writei :: "nat \<Rightarrow> source \<Rightarrow> u32 \<Rightarrow> u32 \<Rightarrow> kernel \<Rightarrow> int kres" where
  "writei i src off n s =
     (if off > i_size (itable s ! i) \<or> off + n < off then Done (-1) s
      else if off + n > of_nat (MAXFILE * BSIZE) then Done (-1) s
      else obind (writei_loop i src off 0 n s) (\<lambda>(tot, off) s.
        let s = (if off > i_size (itable s ! i) then upd_inode i (\<lambda>ip. ip\<lparr>i_size := off\<rparr>) s else s)
        in obind (iupdate i s) (\<lambda>_ s. Done (int32 (uint tot)) s)))"

end
