(* ===== verification/Dir.thy ===== *)
theory Dir
  imports Fs
begin

text \<open>
  The upper half of \<^verbatim>\<open>kernel/fs.c\<close>: directories and path names.  A path is the list of its
  bytes before the terminating NUL; a name is the array of \<open>DIRSIZ\<close> bytes that \<open>skipelem\<close>
  fills, which has a NUL only when it is shorter than the array.
\<close>

section \<open>Directories\<close>

definition namecmp :: "u8 list \<Rightarrow> u8 list \<Rightarrow> int" where
  "namecmp s t = strncmp s t DIRSIZ"

definition de_inum :: "u8 list \<Rightarrow> nat" where
  "de_inum de = unat (get16 de 0)"

definition de_name :: "u8 list \<Rightarrow> u8 list" where
  "de_name de = take DIRSIZ (drop 2 de)"

text \<open>
  The offsets the scanning loops visit.  A directory is at most \<open>MAXFILE * BSIZE\<close> bytes long,
  so the offset never wraps around.
\<close>

definition de_offs :: "u32 \<Rightarrow> nat list" where
  "de_offs sz = map (\<lambda>k. 16 * k) [0..<(unat sz + 15) div 16]"

fun dirlookup_loop :: "nat list \<Rightarrow> nat \<Rightarrow> u8 list \<Rightarrow> kernel \<Rightarrow> (nat \<times> nat) option kres" where
  "dirlookup_loop [] dp name s = Done None s"
| "dirlookup_loop (off # offs) dp name s =
     obind (readi dp DLocal (of_nat off) 16 s) (\<lambda>(r, de) s.
       if r \<noteq> 16 then Panic ''dirlookup read''
       else if de_inum de = 0 then dirlookup_loop offs dp name s
       else if namecmp name (de_name de) = 0 then
         obind (iget (i_dev (itable s ! dp)) (de_inum de) s) (\<lambda>ip s. Done (Some (ip, off)) s)
       else dirlookup_loop offs dp name s)"

definition dirlookup :: "nat \<Rightarrow> u8 list \<Rightarrow> kernel \<Rightarrow> (nat \<times> nat) option kres" where
  "dirlookup dp name s =
     (if i_type (itable s ! dp) \<noteq> T_DIR then Panic ''dirlookup not DIR''
      else dirlookup_loop (de_offs (i_size (itable s ! dp))) dp name s)"

text \<open>The offset of the first empty entry, or the end, with the entry last read.\<close>

fun dirlink_scan :: "nat list \<Rightarrow> nat \<Rightarrow> nat \<Rightarrow> u8 list \<Rightarrow> kernel \<Rightarrow> (nat \<times> u8 list) kres" where
  "dirlink_scan [] end_off dp de s = Done (end_off, de) s"
| "dirlink_scan (off # offs) end_off dp de s =
     obind (readi dp DLocal (of_nat off) 16 s) (\<lambda>(r, de) s.
       if r \<noteq> 16 then Panic ''dirlink read''
       else if de_inum de = 0 then Done (off, de) s
       else dirlink_scan offs end_off dp de s)"

definition dirlink :: "nat \<Rightarrow> u8 list \<Rightarrow> nat \<Rightarrow> kernel \<Rightarrow> int kres" where
  "dirlink dp name inum s =
     obind (dirlookup dp name s) (\<lambda>found s.
       case found of
         Some (ip, off) \<Rightarrow> obind (iput ip s) (\<lambda>_ s. Done (-1) s)
       | None \<Rightarrow>
           let offs = de_offs (i_size (itable s ! dp))
           in obind (dirlink_scan offs (16 * length offs) dp (replicate 16 0) s) (\<lambda>(off, de) s.
              let de = put16 0 (of_nat inum) (take 2 de @ strncpy (de_name de) name (int DIRSIZ))
              in obind (writei dp (SLocal de) (of_nat off) 16 s) (\<lambda>r s.
                 Done (if r \<noteq> 16 then -1 else 0) s)))"

section \<open>Paths\<close>

abbreviation (input) SLASH :: u8 where "SLASH \<equiv> 47"

definition skipelem :: "u8 list \<Rightarrow> u8 list \<Rightarrow> (u8 list \<times> u8 list) option" where
  "skipelem path name =
     (let path = dropWhile (\<lambda>c. c = SLASH) path
      in if path = [] then None
         else let s = takeWhile (\<lambda>c. c \<noteq> SLASH) path;
                  rest = dropWhile (\<lambda>c. c \<noteq> SLASH) path;
                  len = length s;
                  name = (if len \<ge> DIRSIZ then take DIRSIZ s
                          else s @ [0] @ drop (len + 1) name)
              in Some (dropWhile (\<lambda>c. c = SLASH) rest, name))"

lemma skipelem_shorter: "skipelem path name = Some (path', name') \<Longrightarrow> length path' < length path"
proof -
  assume *: "skipelem path name = Some (path', name')"
  let ?p = "dropWhile (\<lambda>c. c = SLASH) path"
  from * have ne: "?p \<noteq> []" and p': "path' = dropWhile (\<lambda>c. c = SLASH) (dropWhile (\<lambda>c. c \<noteq> SLASH) ?p)"
    by (auto simp: skipelem_def Let_def split: if_splits)
  have "hd ?p \<noteq> SLASH" using ne hd_dropWhile [of "\<lambda>c. c = SLASH" path] by simp
  with ne have "length (dropWhile (\<lambda>c. c \<noteq> SLASH) ?p) < length ?p"
    by (cases ?p) (auto simp: le_imp_less_Suc length_dropWhile_le)
  moreover have "length path' \<le> length (dropWhile (\<lambda>c. c \<noteq> SLASH) ?p)"
    unfolding p' by (rule length_dropWhile_le)
  moreover have "length ?p \<le> length path" by (rule length_dropWhile_le)
  ultimately show ?thesis by linarith
qed

function namex_loop :: "u8 list \<Rightarrow> bool \<Rightarrow> u8 list \<Rightarrow> nat \<Rightarrow> kernel \<Rightarrow> (nat option \<times> u8 list) kres" where
  "namex_loop path parent name ip s =
     (case skipelem path name of
        None \<Rightarrow>
          if parent then obind (iput ip s) (\<lambda>_ s. Done (None, name) s) else Done (Some ip, name) s
      | Some (path, name) \<Rightarrow>
          obind (ilock ip s) (\<lambda>_ s.
            if i_type (itable s ! ip) \<noteq> T_DIR then
              obind (iunlockput ip s) (\<lambda>_ s. Done (None, name) s)
            else if parent \<and> path = [] then
              obind (iunlock ip s) (\<lambda>_ s. Done (Some ip, name) s)
            else obind (dirlookup ip name s) (\<lambda>found s.
              case found of
                None \<Rightarrow> obind (iunlockput ip s) (\<lambda>_ s. Done (None, name) s)
              | Some (nxt, off) \<Rightarrow>
                  obind (iunlockput ip s) (\<lambda>_ s. namex_loop path parent name nxt s))))"
  by pat_completeness auto
termination
  by (relation "measure (\<lambda>(path, parent, name, ip, s). length path)") (auto dest: skipelem_shorter)

declare namex_loop.simps [simp del]

text \<open>The current directory is a null pointer only in a process that is being torn down.\<close>

definition namex :: "u8 list \<Rightarrow> bool \<Rightarrow> u8 list \<Rightarrow> kernel \<Rightarrow> (nat option \<times> u8 list) kres" where
  "namex path parent name s =
     (if path \<noteq> [] \<and> hd path = SLASH then
        obind (iget ROOTDEV ROOTINO s) (\<lambda>ip s. namex_loop path parent name ip s)
      else case myproc s of
             None \<Rightarrow> Panic ''kerneltrap''
           | Some p \<Rightarrow>
               (case p_cwd (procs s ! p) of
                  None \<Rightarrow> Panic ''kerneltrap''
                | Some cwd \<Rightarrow> let (ip, s) = idup cwd s in namex_loop path parent name ip s))"

definition namei :: "u8 list \<Rightarrow> kernel \<Rightarrow> nat option kres" where
  "namei path s = obind (namex path False (replicate DIRSIZ 0) s) (\<lambda>(ip, name) s. Done ip s)"

definition nameiparent :: "u8 list \<Rightarrow> u8 list \<Rightarrow> kernel \<Rightarrow> (nat option \<times> u8 list) kres" where
  "nameiparent path name s = namex path True name s"

end
