(* ===== verification/Pipe.thy ===== *)
theory Pipe
  imports Vm
begin

text \<open>
  \<^verbatim>\<open>kernel/pipe.c\<close>: the ring buffer between two processes.  \<open>pipewrite\<close> and \<open>piperead\<close> sleep
  inside their loops; \<open>envs\<close> lists what the rest of the system does during each sleep, and
  when it is used up the routine is still asleep.  The locale \<open>bounded_fifo\<close> of theory \<open>Fifo\<close> is the contract of
  the buffer, a queue of at most \<open>PIPESIZE\<close> bytes, and the pipe's two counters and data array
  are an interpretation of it.
\<close>

section \<open>Sleeping in a loop\<close>

text \<open>
  The fields \<open>sleep\<close> sets before it gives up the processor, the rest of the system, and the
  field it resets when it is back; theory \<open>Sched\<close> has the locks and the switch.
\<close>

definition ksleep :: "nat \<Rightarrow> wchan \<Rightarrow> (kernel \<Rightarrow> kernel) \<Rightarrow> kernel \<Rightarrow> kernel" where
  "ksleep pr ch env s =
     (let s = upd_proc pr (\<lambda>p. p\<lparr>p_chan := Some ch, p_state := SLEEPING, p_voluntarily_yielded := 1\<rparr>) s;
          s = env s
      in upd_proc pr (\<lambda>p. p\<lparr>p_chan := None\<rparr>) s)"

section \<open>The buffer\<close>

definition pipe_full :: "pipe \<Rightarrow> bool" where
  "pipe_full p = (pi_nwrite p = pi_nread p + 512)"

definition pipe_empty :: "pipe \<Rightarrow> bool" where
  "pipe_empty p = (pi_nread p = pi_nwrite p)"

definition pipe_put :: "u8 \<Rightarrow> pipe \<Rightarrow> pipe" where
  "pipe_put ch p =
     p\<lparr>pi_data := (pi_data p)[unat (pi_nwrite p mod 512) := ch], pi_nwrite := pi_nwrite p + 1\<rparr>"

definition pipe_peek :: "pipe \<Rightarrow> u8" where
  "pipe_peek p = pi_data p ! unat (pi_nread p mod 512)"

definition pipe_drop :: "pipe \<Rightarrow> pipe" where
  "pipe_drop p = p\<lparr>pi_nread := pi_nread p + 1\<rparr>"

section \<open>Operations\<close>

definition upd_pipe :: "u64 \<Rightarrow> (pipe \<Rightarrow> pipe) \<Rightarrow> kernel \<Rightarrow> kernel" where
  "upd_pipe pi f s = s\<lparr>pipes := (pipes s)(pi := f (pipes s pi))\<rparr>"

definition pipeclose :: "u64 \<Rightarrow> bool \<Rightarrow> kernel \<Rightarrow> unit kres" where
  "pipeclose pi writable s =
     (let s = (if writable then wakeup (ChPipeRead pi) (upd_pipe pi (\<lambda>p. p\<lparr>pi_writeopen := False\<rparr>) s)
               else wakeup (ChPipeWrite pi) (upd_pipe pi (\<lambda>p. p\<lparr>pi_readopen := False\<rparr>) s))
      in if \<not> pi_readopen (pipes s pi) \<and> \<not> pi_writeopen (pipes s pi) then kfree pi s else Done () s)"

function pipewrite_loop ::
  "(kernel \<Rightarrow> kernel) list \<Rightarrow> nat \<Rightarrow> u64 \<Rightarrow> u64 \<Rightarrow> int \<Rightarrow> int \<Rightarrow> kernel \<Rightarrow> int kres" where
  "pipewrite_loop envs pr pi addr i n s =
     (if i < n then
        if \<not> pi_readopen (pipes s pi) \<or> killed pr s \<noteq> 0 then Done (-1) s
        else if pipe_full (pipes s pi) then
          (case envs of
             [] \<Rightarrow> Asleep (ChPipeWrite pi) (wakeup (ChPipeRead pi) s)
           | env # envs \<Rightarrow>
               pipewrite_loop envs pr pi addr i n (ksleep pr (ChPipeWrite pi) env (wakeup (ChPipeRead pi) s)))
        else obind (copyin (p_pagetable (procs s ! pr)) (addr + of_int i) 1 s) (\<lambda>(r, cs) s.
          if r = -1 then Done i (wakeup (ChPipeRead pi) s)
          else pipewrite_loop envs pr pi addr (i + 1) n (upd_pipe pi (pipe_put (hd cs)) s))
      else Done i (wakeup (ChPipeRead pi) s))"
  by pat_completeness auto
termination
  by (relation "measures [\<lambda>(envs, pr, pi, addr, i, n, s). length envs, \<lambda>(envs, pr, pi, addr, i, n, s). nat (n - i)]") auto

declare pipewrite_loop.simps [simp del]

definition pipewrite :: "(kernel \<Rightarrow> kernel) list \<Rightarrow> u64 \<Rightarrow> u64 \<Rightarrow> int \<Rightarrow> kernel \<Rightarrow> int kres" where
  "pipewrite envs pi addr n s =
     (case myproc s of
        None \<Rightarrow> Panic ''kerneltrap''
      | Some pr \<Rightarrow> pipewrite_loop envs pr pi addr 0 n s)"

function piperead_copy :: "nat \<Rightarrow> u64 \<Rightarrow> u64 \<Rightarrow> int \<Rightarrow> int \<Rightarrow> kernel \<Rightarrow> int kres" where
  "piperead_copy pr pi addr i n s =
     (if i < n then
        if pipe_empty (pipes s pi) then Done i s
        else let ch = pipe_peek (pipes s pi)
             in obind (copyout (p_pagetable (procs s ! pr)) (addr + of_int i) [ch] s) (\<lambda>r s.
                if r = -1 then Done (if i = 0 then -1 else i) s
                else piperead_copy pr pi addr (i + 1) n (upd_pipe pi pipe_drop s))
      else Done i s)"
  by pat_completeness auto
termination
  by (relation "measure (\<lambda>(pr, pi, addr, i, n, s). nat (n - i))") auto

declare piperead_copy.simps [simp del]

fun piperead_wait ::
  "(kernel \<Rightarrow> kernel) list \<Rightarrow> nat \<Rightarrow> u64 \<Rightarrow> kernel \<Rightarrow> bool kres" where
  "piperead_wait envs pr pi s =
     (if pipe_empty (pipes s pi) \<and> pi_writeopen (pipes s pi) then
        if killed pr s \<noteq> 0 then Done False s
        else (case envs of
                [] \<Rightarrow> Asleep (ChPipeRead pi) s
              | env # envs \<Rightarrow> piperead_wait envs pr pi (ksleep pr (ChPipeRead pi) env s))
      else Done True s)"

declare piperead_wait.simps [simp del]

definition piperead :: "(kernel \<Rightarrow> kernel) list \<Rightarrow> u64 \<Rightarrow> u64 \<Rightarrow> int \<Rightarrow> kernel \<Rightarrow> int kres" where
  "piperead envs pi addr n s =
     (case myproc s of
        None \<Rightarrow> Panic ''kerneltrap''
      | Some pr \<Rightarrow>
          obind (piperead_wait envs pr pi s) (\<lambda>go s.
            if \<not> go then Done (-1) s
            else obind (piperead_copy pr pi addr 0 n s) (\<lambda>i s. Done i (wakeup (ChPipeWrite pi) s))))"

end
