(* ===== verification/Console.thy ===== *)
theory Console
  imports Pipe Fs
begin

text \<open>
  \<^verbatim>\<open>kernel/console.c\<close> and the parts of \<^verbatim>\<open>kernel/uart.c\<close> that keep state: the line buffer
  the interrupt handler edits and \<open>consoleread\<close> drains, and the transmitter.  The device's
  registers are inputs: the characters waiting in the receiver and whether the transmitter is
  idle.  \<open>uart_out\<close> collects what is written to the transmit register.
\<close>

section \<open>uart.c\<close>

definition uart_thr :: "u8 \<Rightarrow> kernel \<Rightarrow> kernel" where
  "uart_thr c s = s\<lparr>uart_out := uart_out s @ [c]\<rparr>"

text \<open>The register writes of \<open>uartinit\<close>, offset and value.\<close>

definition uartinit :: "(nat \<times> u8) list" where
  "uartinit = [(1, 0), (3, 128), (0, 3), (1, 0), (3, 3), (2, 7), (1, 3)]"

function uartwrite :: "(kernel \<Rightarrow> kernel) list \<Rightarrow> nat \<Rightarrow> u8 list \<Rightarrow> kernel \<Rightarrow> (kernel \<Rightarrow> kernel) list kres" where
  "uartwrite envs pr [] s = Done envs s"
| "uartwrite envs pr (c # cs) s =
     (if tx_busy s then
        (case envs of
           [] \<Rightarrow> Asleep ChTx s
         | env # envs \<Rightarrow> uartwrite envs pr (c # cs) (ksleep pr ChTx env s))
      else uartwrite envs pr cs ((uart_thr c s)\<lparr>tx_busy := True\<rparr>))"
  by pat_completeness auto
termination
  by (relation "measures [\<lambda>(envs, pr, cs, s). length envs, \<lambda>(envs, pr, cs, s). length cs]") auto

text \<open>\<open>uartputc_sync\<close> once the transmitter is idle.\<close>

definition uartputc_sync :: "u8 \<Rightarrow> kernel \<Rightarrow> kernel" where
  "uartputc_sync c s = uart_thr c s"

fun uartgetc :: "u8 list \<Rightarrow> int \<times> u8 list" where
  "uartgetc [] = (-1, [])"
| "uartgetc (c # cs) = (uint c, cs)"

section \<open>console.c\<close>

abbreviation (input) BACKSPACE :: int where "BACKSPACE \<equiv> 0x100"
abbreviation (input) CTRL_D :: int where "CTRL_D \<equiv> 4"
abbreviation (input) CTRL_H :: int where "CTRL_H \<equiv> 8"
abbreviation (input) CTRL_P :: int where "CTRL_P \<equiv> 16"
abbreviation (input) CTRL_U :: int where "CTRL_U \<equiv> 21"
abbreviation (input) NEWLINE :: int where "NEWLINE \<equiv> 10"

definition consputc :: "int \<Rightarrow> kernel \<Rightarrow> kernel" where
  "consputc c s =
     (if c = BACKSPACE then uartputc_sync 8 (uartputc_sync 32 (uartputc_sync 8 s))
      else uartputc_sync (of_int c) s)"

definition procdump :: "kernel \<Rightarrow> kernel" where
  "procdump s =
     fold (\<lambda>i s. let p = procs s ! i
                in if p_state p = UNUSED then s
                   else printk [CHR 0x0A] [] (printk ''%d %s %s''
                     ([p_pid p, (case p_state p of UNUSED \<Rightarrow> 0 | USED \<Rightarrow> 1 | SLEEPING \<Rightarrow> 2 | RUNNABLE \<Rightarrow> 3
                                              | RUNNING \<Rightarrow> 4 | ZOMBIE \<Rightarrow> 5)]
                      @ map uint (takeWhile (\<lambda>c. c \<noteq> 0) (p_name p))) s))
       [0..<NPROC] (printk [CHR 0x0A] [] s)"

definition upd_cons :: "(cons \<Rightarrow> cons) \<Rightarrow> kernel \<Rightarrow> kernel" where
  "upd_cons f s = s\<lparr>cons_st := f (cons_st s)\<rparr>"

function kill_line :: "kernel \<Rightarrow> kernel" where
  "kill_line s =
     (let c = cons_st s
      in if co_e c \<noteq> co_w c \<and> co_buf c ! unat ((co_e c - 1) mod 128) \<noteq> 10 then
           kill_line (consputc BACKSPACE (upd_cons (\<lambda>c. c\<lparr>co_e := co_e c - 1\<rparr>) s))
         else s)"
  by pat_completeness auto

lemma cons_st_consputc [simp]: "cons_st (consputc c s) = cons_st s"
  by (simp add: consputc_def uartputc_sync_def uart_thr_def)

lemma cons_st_upd_cons [simp]: "cons_st (upd_cons f s) = f (cons_st s)"
  by (simp add: upd_cons_def)

lemma e_w_measure: "e \<noteq> w \<Longrightarrow> unat (e - 1 - w) < unat (e - w :: u32)"
proof -
  assume "e \<noteq> w"
  then have "e - w \<noteq> 0" by simp
  then have "unat (e - w - 1) < unat (e - w)" by (simp add: unat_minus_one unat_gt_0)
  then show ?thesis by (simp add: algebra_simps)
qed

termination kill_line
  by (relation "measure (\<lambda>s. unat (co_e (cons_st s) - co_w (cons_st s)))") (auto simp: Let_def e_w_measure)

declare kill_line.simps [simp del]

definition consoleintr :: "int \<Rightarrow> kernel \<Rightarrow> kernel" where
  "consoleintr c s =
     (if c = CTRL_P then procdump s
      else if c = CTRL_U then kill_line s
      else if c = CTRL_H \<or> c = 127 then
        (if co_e (cons_st s) \<noteq> co_w (cons_st s) then
           consputc BACKSPACE (upd_cons (\<lambda>c. c\<lparr>co_e := co_e c - 1\<rparr>) s)
         else s)
      else if c \<noteq> 0 \<and> co_e (cons_st s) - co_r (cons_st s) < 128 then
        let c = (if c = 13 then NEWLINE else c);
            s = consputc c s;
            s = upd_cons (\<lambda>co. co\<lparr>co_buf := (co_buf co)[unat (co_e co mod 128) := of_int c],
                                  co_e := co_e co + 1\<rparr>) s
        in if c = NEWLINE \<or> c = CTRL_D \<or> co_e (cons_st s) - co_r (cons_st s) = 128 then
             wakeup ChConsR (upd_cons (\<lambda>co. co\<lparr>co_w := co_e co\<rparr>) s)
           else s
      else s)"

fun intr_chars :: "u8 list \<Rightarrow> kernel \<Rightarrow> kernel" where
  "intr_chars rx s = (case uartgetc rx of (c, rest) \<Rightarrow> if c = -1 then s
     else (case rx of [] \<Rightarrow> s | _ # rx' \<Rightarrow> intr_chars rx' (consoleintr c s)))"

declare intr_chars.simps [simp del]

definition uartintr :: "bool \<Rightarrow> u8 list \<Rightarrow> kernel \<Rightarrow> kernel" where
  "uartintr tx_idle rx s =
     (let s = (if tx_idle then wakeup ChTx (s\<lparr>tx_busy := False\<rparr>) else s)
      in intr_chars rx s)"

function consolewrite_loop ::
  "(kernel \<Rightarrow> kernel) list \<Rightarrow> nat \<Rightarrow> source \<Rightarrow> int \<Rightarrow> int \<Rightarrow> kernel \<Rightarrow> int kres" where
  "consolewrite_loop envs pr src i n s =
     (if i < n then
        let nn = (if 32 > n - i then n - i else 32)
        in obind (either_copyin (source_add src (nat i)) (nat nn) s) (\<lambda>(r, cs) s.
           if r = -1 then Done i s
           else obind (uartwrite envs pr cs s) (\<lambda>envs s. consolewrite_loop envs pr src (i + nn) n s))
      else Done i s)"
  by pat_completeness auto
termination
  by (relation "measure (\<lambda>(envs, pr, src, i, n, s). nat (n - i))") auto

declare consolewrite_loop.simps [simp del]

definition consolewrite :: "(kernel \<Rightarrow> kernel) list \<Rightarrow> source \<Rightarrow> int \<Rightarrow> kernel \<Rightarrow> int kres" where
  "consolewrite envs src n s =
     (case myproc s of
        None \<Rightarrow> Panic ''kerneltrap''
      | Some pr \<Rightarrow> consolewrite_loop envs pr src 0 n s)"

function consoleread_loop ::
  "(kernel \<Rightarrow> kernel) list \<Rightarrow> nat \<Rightarrow> dest \<Rightarrow> int \<Rightarrow> int \<Rightarrow> kernel \<Rightarrow> int kres" where
  "consoleread_loop envs pr dst target n s =
     (if n > 0 then
        if co_r (cons_st s) = co_w (cons_st s) then
          if killed pr s \<noteq> 0 then Done (-1) s
          else (case envs of
                  [] \<Rightarrow> Asleep ChConsR s
                | env # envs \<Rightarrow> consoleread_loop envs pr dst target n (ksleep pr ChConsR env s))
        else let c = co_buf (cons_st s) ! unat (co_r (cons_st s) mod 128);
                 s = upd_cons (\<lambda>co. co\<lparr>co_r := co_r co + 1\<rparr>) s
             in if uint c = CTRL_D then
                  Done (target - n) (if n < target then upd_cons (\<lambda>co. co\<lparr>co_r := co_r co - 1\<rparr>) s else s)
                else obind (either_copyout dst [c] s) (\<lambda>r s.
                  if r = -1 then Done (target - n) s
                  else if uint c = NEWLINE then Done (target - (n - 1)) s
                  else consoleread_loop envs pr (dest_add dst 1) target (n - 1) s)
      else Done (target - n) s)"
  by pat_completeness auto
termination
  by (relation "measures [\<lambda>(envs, pr, dst, target, n, s). length envs, \<lambda>(envs, pr, dst, target, n, s). nat n]") auto

declare consoleread_loop.simps [simp del]

definition consoleread :: "(kernel \<Rightarrow> kernel) list \<Rightarrow> dest \<Rightarrow> int \<Rightarrow> kernel \<Rightarrow> int kres" where
  "consoleread envs dst n s =
     (case myproc s of
        None \<Rightarrow> Panic ''kerneltrap''
      | Some pr \<Rightarrow> consoleread_loop envs pr dst n n s)"

definition consoleinit :: "kernel \<Rightarrow> kernel" where
  "consoleinit s = s\<lparr>cons_dev := True\<rparr>"

end
