(* ===== verification/File.thy ===== *)
theory File
  imports Dir Console
begin

text \<open>
  \<^verbatim>\<open>kernel/file.c\<close> and \<open>pipealloc\<close> of \<^verbatim>\<open>kernel/pipe.c\<close>: the table of open files and
  the dispatch of reads and writes to pipes, devices and inodes.  \<open>deref\<close> is the use of a
  pointer that may be null: \<open>ilock\<close> tests for it and panics, anything else is a kernel fault.
\<close>

definition deref :: "string \<Rightarrow> 'b option \<Rightarrow> kernel \<Rightarrow> 'b kres" where
  "deref msg ptr s = (case ptr of None \<Rightarrow> Panic msg | Some x \<Rightarrow> Done x s)"

definition upd_file :: "nat \<Rightarrow> (kfile \<Rightarrow> kfile) \<Rightarrow> kernel \<Rightarrow> kernel" where
  "upd_file f h s = s\<lparr>ftable := (ftable s)[f := h (ftable s ! f)]\<rparr>"

definition filealloc :: "kernel \<Rightarrow> nat option \<times> kernel" where
  "filealloc s =
     (case find (\<lambda>f. f_ref (ftable s ! f) = 0) [0..<NFILE] of
        Some f \<Rightarrow> (Some f, upd_file f (\<lambda>x. x\<lparr>f_ref := 1\<rparr>) s)
      | None \<Rightarrow> (None, s))"

definition filedup :: "nat \<Rightarrow> kernel \<Rightarrow> nat kres" where
  "filedup f s =
     (if f_ref (ftable s ! f) < 1 then Panic ''filedup''
      else Done f (upd_file f (\<lambda>x. x\<lparr>f_ref := int32 (f_ref x + 1)\<rparr>) s))"

definition fileclose :: "nat \<Rightarrow> kernel \<Rightarrow> unit kres" where
  "fileclose f s =
     (if f_ref (ftable s ! f) < 1 then Panic ''fileclose''
      else let s = upd_file f (\<lambda>x. x\<lparr>f_ref := f_ref x - 1\<rparr>) s
           in if f_ref (ftable s ! f) > 0 then Done () s
              else let ff = ftable s ! f;
                       s = upd_file f (\<lambda>x. x\<lparr>f_ref := 0, f_type := FD_NONE\<rparr>) s
                   in case f_type ff of
                        FD_PIPE \<Rightarrow> pipeclose (f_pipe ff) (f_writable ff) s
                      | FD_NONE \<Rightarrow> Done () s
                      | _ \<Rightarrow> obind (begin_op s) (\<lambda>_ s.
                              obind (deref ''kerneltrap'' (f_ip ff) s) (\<lambda>ip s.
                              obind (iput ip s) (\<lambda>_ s. end_op s))))"

text \<open>
  \<open>struct stat\<close> as \<open>filestat\<close> copies it out: 24 bytes, of which the four between \<open>nlink\<close> and
  \<open>size\<close> are padding the compiler leaves as the stack had them.
\<close>

definition stat_bytes :: "u8 list \<Rightarrow> stat \<Rightarrow> u8 list" where
  "stat_bytes pad st =
     bytes_of 4 (of_int (st_dev st) :: u32) @ bytes_of 4 (of_nat (st_ino st) :: u32)
     @ bytes_of 2 (of_int (st_type st) :: u16) @ bytes_of 2 (of_int (st_nlink st) :: u16)
     @ pad @ bytes_of 8 (st_size st)"

definition filestat :: "u8 list \<Rightarrow> nat \<Rightarrow> u64 \<Rightarrow> kernel \<Rightarrow> int kres" where
  "filestat pad f addr s =
     (case myproc s of
        None \<Rightarrow> Panic ''kerneltrap''
      | Some p \<Rightarrow>
          if f_type (ftable s ! f) = FD_INODE \<or> f_type (ftable s ! f) = FD_DEVICE then
            obind (deref ''ilock'' (f_ip (ftable s ! f)) s) (\<lambda>ip s.
            obind (ilock ip s) (\<lambda>_ s.
               let st = stati ip s
               in obind (iunlock ip s) (\<lambda>_ s.
                  obind (copyout (p_pagetable (procs s ! p)) addr (stat_bytes pad st) s) (\<lambda>r s.
                  Done (if r < 0 then -1 else 0) s))))
          else Done (-1) s)"

abbreviation (input) CONSOLE :: int where "CONSOLE \<equiv> 1"

definition fileread :: "(kernel \<Rightarrow> kernel) list \<Rightarrow> nat \<Rightarrow> u64 \<Rightarrow> int \<Rightarrow> kernel \<Rightarrow> int kres" where
  "fileread envs f addr n s =
     (let ff = ftable s ! f
      in if \<not> f_readable ff then Done (-1) s
         else case f_type ff of
           FD_PIPE \<Rightarrow> piperead envs (f_pipe ff) addr n s
         | FD_DEVICE \<Rightarrow>
             if f_major ff < 0 \<or> f_major ff \<ge> NDEV \<or> \<not> (f_major ff = CONSOLE \<and> cons_dev s) then Done (-1) s
             else consoleread envs (DUser addr) n s
         | FD_INODE \<Rightarrow>
             obind (deref ''ilock'' (f_ip ff) s) (\<lambda>ip s.
             obind (ilock ip s) (\<lambda>_ s.
             obind (readi ip (DUser addr) (f_off (ftable s ! f)) (of_int n) s) (\<lambda>(r, _) s.
             let s = (if r > 0 then upd_file f (\<lambda>x. x\<lparr>f_off := f_off x + of_int r\<rparr>) s else s)
             in obind (iunlock ip s) (\<lambda>_ s. Done r s))))
         | FD_NONE \<Rightarrow> Panic ''fileread'')"

text \<open>\<open>max\<close> in \<open>filewrite\<close>: \<open>((MAXOPBLOCKS-1-1-2) / 2) * BSIZE\<close>.\<close>

abbreviation (input) FILEWRITE_MAX :: int where "FILEWRITE_MAX \<equiv> 3072"

function filewrite_loop :: "nat \<Rightarrow> u64 \<Rightarrow> int \<Rightarrow> int \<Rightarrow> kernel \<Rightarrow> int kres" where
  "filewrite_loop f addr i n s =
     (if i < n then
        let n1 = (if n - i > FILEWRITE_MAX then FILEWRITE_MAX else n - i)
        in obind (begin_op s) (\<lambda>_ s.
           obind (deref ''ilock'' (f_ip (ftable s ! f)) s) (\<lambda>ip s.
           obind (ilock ip s) (\<lambda>_ s.
           obind (writei ip (SUser (addr + of_int i)) (f_off (ftable s ! f)) (of_int n1) s) (\<lambda>r s.
           let s = (if r > 0 then upd_file f (\<lambda>x. x\<lparr>f_off := f_off x + of_int r\<rparr>) s else s)
           in obind (iunlock ip s) (\<lambda>_ s.
              obind (end_op s) (\<lambda>_ s.
              if r \<noteq> n1 then Done (if i = n then n else -1) s
              else filewrite_loop f addr (i + r) n s))))))
      else Done (if i = n then n else -1) s)"
  by pat_completeness auto
termination
  by (relation "measure (\<lambda>(f, addr, i, n, s). nat (n - i))") auto

declare filewrite_loop.simps [simp del]

definition filewrite :: "(kernel \<Rightarrow> kernel) list \<Rightarrow> nat \<Rightarrow> u64 \<Rightarrow> int \<Rightarrow> kernel \<Rightarrow> int kres" where
  "filewrite envs f addr n s =
     (let ff = ftable s ! f
      in if \<not> f_writable ff then Done (-1) s
         else case f_type ff of
           FD_PIPE \<Rightarrow> pipewrite envs (f_pipe ff) addr n s
         | FD_DEVICE \<Rightarrow>
             if f_major ff < 0 \<or> f_major ff \<ge> NDEV \<or> \<not> (f_major ff = CONSOLE \<and> cons_dev s) then Done (-1) s
             else consolewrite envs (SUser addr) n s
         | FD_INODE \<Rightarrow> filewrite_loop f addr 0 n s
         | FD_NONE \<Rightarrow> Panic ''filewrite'')"

section \<open>pipealloc\<close>

text \<open>
  The page \<open>kalloc\<close> returns is full of the byte 5, so that is what the data of a new pipe holds.
\<close>

definition new_pipe :: pipe where
  "new_pipe = \<lparr>pi_data = replicate PIPESIZE 5, pi_nread = 0, pi_nwrite = 0, pi_readopen = True, pi_writeopen = True\<rparr>"

definition pipealloc :: "kernel \<Rightarrow> (nat \<times> nat) option kres" where
  "pipealloc s =
     (case filealloc s of
        (None, s) \<Rightarrow> Done None s
      | (Some f0, s) \<Rightarrow>
          (case filealloc s of
             (None, s) \<Rightarrow> obind (fileclose f0 s) (\<lambda>_ s. Done None s)
           | (Some f1, s) \<Rightarrow>
               let (pi, s) = kalloc s
               in if pi = 0 then
                    obind (fileclose f0 s) (\<lambda>_ s. obind (fileclose f1 s) (\<lambda>_ s. Done None s))
                  else
                    let s = s\<lparr>pipes := (pipes s)(pi := new_pipe)\<rparr>;
                        s = upd_file f0 (\<lambda>x. x\<lparr>f_type := FD_PIPE, f_readable := True, f_writable := False, f_pipe := pi\<rparr>) s;
                        s = upd_file f1 (\<lambda>x. x\<lparr>f_type := FD_PIPE, f_readable := False, f_writable := True, f_pipe := pi\<rparr>) s
                    in Done (Some (f0, f1)) s))"

end
