(* ===== verification/Life.thy ===== *)
theory Life
  imports File
begin

text \<open>
  The life of a process, from \<^verbatim>\<open>kernel/proc.c\<close>: \<open>allocproc\<close>, \<open>freeproc\<close>, the page table of a
  process, \<open>userinit\<close>, \<open>growproc\<close>, \<open>kfork\<close>, \<open>kexit\<close> and \<open>kwait\<close>.  The routines run between
  \<open>acquire\<close> and \<open>release\<close> of the locks the source names; the lock fields themselves are the
  subject of \<open>Spinlock\<close>, \<open>Sched\<close> and \<open>Smp\<close>.
\<close>

definition chars :: "string \<Rightarrow> u8 list" where
  "chars cs = map (of_nat \<circ> of_char) cs"

section \<open>Page tables of processes\<close>

definition proc_freepagetable :: "u64 \<Rightarrow> u64 \<Rightarrow> kernel \<Rightarrow> unit kres" where
  "proc_freepagetable pagetable sz s =
     obind (uvmunmap pagetable TRAMPOLINE 1 False s) (\<lambda>_ s.
     obind (uvmunmap pagetable TRAPFRAME 1 False s) (\<lambda>_ s.
     uvmfree pagetable sz s))"

definition proc_pagetable :: "nat \<Rightarrow> kernel \<Rightarrow> u64 kres" where
  "proc_pagetable p s =
     (let (pagetable, s) = uvmcreate s
      in if pagetable = 0 then Done 0 s
         else obind (mappages pagetable TRAMPOLINE PGSIZE (sym_trampoline (syms s)) (PTE_R OR PTE_X) s) (\<lambda>r s.
           if r < 0 then obind (uvmfree pagetable 0 s) (\<lambda>_ s. Done 0 s)
           else obind (mappages pagetable TRAPFRAME PGSIZE (p_trapframe (procs s ! p)) (PTE_R OR PTE_W) s) (\<lambda>r s.
             if r < 0 then
               obind (uvmunmap pagetable TRAMPOLINE 1 False s) (\<lambda>_ s.
               obind (uvmfree pagetable 0 s) (\<lambda>_ s. Done 0 s))
             else Done pagetable s)))"

section \<open>Allocation and release\<close>

definition freeproc :: "nat \<Rightarrow> kernel \<Rightarrow> unit kres" where
  "freeproc p s =
     obind (if p_trapframe (procs s ! p) \<noteq> 0 then kfree (p_trapframe (procs s ! p)) s else Done () s) (\<lambda>_ s.
     obind (if p_pagetable (procs s ! p) \<noteq> 0
            then proc_freepagetable (p_pagetable (procs s ! p)) (p_sz (procs s ! p)) s
            else Done () s) (\<lambda>_ s.
     Done () (upd_proc p free_fields s)))"

text \<open>A page from \<open>kalloc\<close> is full of the byte 5, and so is a trap frame nobody has written.\<close>

definition junk_trapframe :: trapframe where
  "junk_trapframe =
     (let j = 0x0505050505050505
      in \<lparr>tf_kernel_satp = j, tf_kernel_sp = j, tf_kernel_trap = j, tf_epc = j, tf_kernel_hartid = j,
          tf_ra = j, tf_sp = j, tf_gp = j, tf_tp = j, tf_t = replicate 7 j, tf_s = replicate 12 j,
          tf_a0 = j, tf_a1 = j, tf_a2 = j, tf_a3 = j, tf_a4 = j, tf_a5 = j, tf_a6 = j, tf_a7 = j\<rparr>)"

definition upd_tframe :: "nat \<Rightarrow> (trapframe \<Rightarrow> trapframe) \<Rightarrow> kernel \<Rightarrow> kernel" where
  "upd_tframe p f s =
     (let a = p_trapframe (procs s ! p) in s\<lparr>tframes := (tframes s)(a := f (tframes s a))\<rparr>)"

definition allocproc :: "kernel \<Rightarrow> nat option kres" where
  "allocproc s =
     (case find (\<lambda>i. p_state (procs s ! i) = UNUSED) [0..<NPROC] of
        None \<Rightarrow> Done None s
      | Some p \<Rightarrow>
          let (pid, s) = allocpid s;
              s = upd_proc p (alloc_fields pid) s;
              (tf, s) = kalloc s;
              s = upd_proc p (\<lambda>x. x\<lparr>p_trapframe := tf\<rparr>) s
          in if tf = 0 then obind (freeproc p s) (\<lambda>_ s. Done None s)
             else let s = s\<lparr>tframes := (tframes s)(tf := junk_trapframe)\<rparr>
                  in obind (proc_pagetable p s) (\<lambda>pagetable s.
                    let s = upd_proc p (\<lambda>x. x\<lparr>p_pagetable := pagetable\<rparr>) s
                    in if pagetable = 0 then obind (freeproc p s) (\<lambda>_ s. Done None s)
                       else Done (Some p) (upd_proc p (\<lambda>x. x\<lparr>p_context :=
                              \<lparr>ctx_ra = sym_forkret (syms s), ctx_sp = p_kstack x + PGSIZE,
                               ctx_s = replicate 12 0\<rparr>\<rparr>) s)))"

definition userinit :: "kernel \<Rightarrow> unit kres" where
  "userinit s =
     obind (allocproc s) (\<lambda>p s.
     let s = s\<lparr>initproc := p\<rparr>
     in obind (namei [SLASH] s) (\<lambda>ip s.
        obind (deref ''kerneltrap'' p s) (\<lambda>p s.
        let s = upd_proc p (\<lambda>x. x\<lparr>p_cwd := ip\<rparr>) s
        in Done () (upd_proc p (\<lambda>x. x\<lparr>p_state := RUNNABLE\<rparr>) s))))"

definition growproc :: "int \<Rightarrow> kernel \<Rightarrow> int kres" where
  "growproc n s =
     obind (deref ''kerneltrap'' (myproc s) s) (\<lambda>p s.
     let sz = p_sz (procs s ! p);
         pagetable = p_pagetable (procs s ! p)
     in if n > 0 then
          if sz + of_int n > TRAPFRAME then Done (-1) s
          else obind (uvmalloc pagetable sz (sz + of_int n) PTE_W s) (\<lambda>sz s.
            if sz = 0 then Done (-1) s else Done 0 (upd_proc p (\<lambda>x. x\<lparr>p_sz := sz\<rparr>) s))
        else if n < 0 then
          obind (uvmdealloc pagetable sz (sz + of_int n) s) (\<lambda>sz s.
            Done 0 (upd_proc p (\<lambda>x. x\<lparr>p_sz := sz\<rparr>) s))
        else Done 0 (upd_proc p (\<lambda>x. x\<lparr>p_sz := sz\<rparr>) s))"

section \<open>fork\<close>

fun dup_files :: "nat list \<Rightarrow> nat \<Rightarrow> nat \<Rightarrow> kernel \<Rightarrow> unit kres" where
  "dup_files [] p np s = Done () s"
| "dup_files (fd # fds) p np s =
     (case p_ofile (procs s ! p) ! fd of
        None \<Rightarrow> dup_files fds p np s
      | Some f \<Rightarrow>
          obind (filedup f s) (\<lambda>f s.
          dup_files fds p np (upd_proc np (\<lambda>x. x\<lparr>p_ofile := (p_ofile x)[fd := Some f]\<rparr>) s)))"

definition kfork :: "kernel \<Rightarrow> int kres" where
  "kfork s =
     obind (deref ''kerneltrap'' (myproc s) s) (\<lambda>p s.
     obind (allocproc s) (\<lambda>np s.
     case np of
       None \<Rightarrow> Done (-1) s
     | Some np \<Rightarrow>
         obind (uvmcopy (p_pagetable (procs s ! p)) (p_pagetable (procs s ! np)) (p_sz (procs s ! p)) s) (\<lambda>r s.
         if r < 0 then obind (freeproc np s) (\<lambda>_ s. Done (-1) s)
         else
           let s = upd_proc np (\<lambda>x. x\<lparr>p_sz := p_sz (procs s ! p)\<rparr>) s;
               s = upd_proc np (fork_fields (procs s ! p)) s;
               s = upd_tframe np (\<lambda>_. tframes s (p_trapframe (procs s ! p))) s;
               s = upd_tframe np (\<lambda>t. t\<lparr>tf_a0 := 0\<rparr>) s
           in obind (dup_files [0..<NOFILE] p np s) (\<lambda>_ s.
              obind (deref ''kerneltrap'' (p_cwd (procs s ! p)) s) (\<lambda>cwd s.
              let (cwd, s) = idup cwd s;
                  s = upd_proc np (\<lambda>x. x\<lparr>p_cwd := Some cwd\<rparr>) s;
                  s = upd_proc np (\<lambda>x. x\<lparr>p_name := safestrcpy (p_name x) (p_name (procs s ! p)) 16\<rparr>) s;
                  pid = p_pid (procs s ! np);
                  s = upd_proc np (\<lambda>x. x\<lparr>p_parent := Some p\<rparr>) s;
                  s = upd_proc np (\<lambda>x. x\<lparr>p_state := RUNNABLE\<rparr>) s
              in Done pid s)))))"

section \<open>exit and wait\<close>

fun close_files :: "nat list \<Rightarrow> nat \<Rightarrow> kernel \<Rightarrow> unit kres" where
  "close_files [] p s = Done () s"
| "close_files (fd # fds) p s =
     (case p_ofile (procs s ! p) ! fd of
        None \<Rightarrow> close_files fds p s
      | Some f \<Rightarrow>
          obind (fileclose f s) (\<lambda>_ s.
          close_files fds p (upd_proc p (\<lambda>x. x\<lparr>p_ofile := (p_ofile x)[fd := None]\<rparr>) s)))"

text \<open>
  \<open>kexit\<close> ends in \<open>sched\<close> and is never resumed: the outcome is \<open>Spins\<close>, no further code of the
  caller runs, with the state in which the zombie is left.
\<close>

definition kexit :: "int \<Rightarrow> kernel \<Rightarrow> 'a kres" where
  "kexit status s =
     obind (deref ''kerneltrap'' (myproc s) s) (\<lambda>p s.
     if initproc s = Some p then Panic ''init exiting''
     else obind (close_files [0..<NOFILE] p s) (\<lambda>_ s.
          obind (begin_op s) (\<lambda>_ s.
          obind (deref ''kerneltrap'' (p_cwd (procs s ! p)) s) (\<lambda>cwd s.
          obind (iput cwd s) (\<lambda>_ s.
          obind (end_op s) (\<lambda>_ s.
          let s = upd_proc p (\<lambda>x. x\<lparr>p_cwd := None\<rparr>) s;
              s = reparent p s;
              s = (case p_parent (procs s ! p) of None \<Rightarrow> s | Some pp \<Rightarrow> wakeup (ChProc pp) s);
              s = upd_proc p (exit_fields status) s
          in Spins s))))))"

text \<open>
  One scan of the table by \<open>kwait\<close>: \<open>Inl\<close> the value to return, or \<open>Inr\<close> whether there are
  children at all.
\<close>

fun kwait_scan :: "nat list \<Rightarrow> bool \<Rightarrow> nat \<Rightarrow> u64 \<Rightarrow> kernel \<Rightarrow> (int + bool) kres" where
  "kwait_scan [] havekids p addr s = Done (Inr havekids) s"
| "kwait_scan (pp # pps) havekids p addr s =
     (if p_parent (procs s ! pp) = Some p then
        if p_state (procs s ! pp) = ZOMBIE then
          let pid = p_pid (procs s ! pp)
          in obind (if addr \<noteq> 0
                    then copyout (p_pagetable (procs s ! p)) addr (bytes_of 4 (of_int (p_xstate (procs s ! pp)) :: u32)) s
                    else Done 0 s) (\<lambda>r s.
             if r < 0 then Done (Inl (-1)) s
             else obind (freeproc pp s) (\<lambda>_ s. Done (Inl pid) s))
        else kwait_scan pps True p addr s
      else kwait_scan pps havekids p addr s)"

definition kwait :: "u64 \<Rightarrow> kernel \<Rightarrow> int kres" where
  "kwait addr s =
     obind (deref ''kerneltrap'' (myproc s) s) (\<lambda>p s.
     obind (kwait_scan [0..<NPROC] False p addr s) (\<lambda>r s.
     case r of
       Inl v \<Rightarrow> Done v s
     | Inr havekids \<Rightarrow>
         if \<not> havekids \<or> killed p s \<noteq> 0 then Done (-1) s
         else Asleep (ChProc p) s))"

section \<open>The first return to user space\<close>

text \<open>
  \<open>forkret\<close> up to \<open>prepare_return\<close>: the first process to run mounts the file system and
  executes \<^verbatim>\<open>/init\<close>; \<open>exec\<close> is \<open>kexec\<close>, which theory \<open>Exec\<close> defines over this one.
\<close>

definition forkret_first :: "(u8 list \<Rightarrow> u8 list list \<Rightarrow> kernel \<Rightarrow> int kres) \<Rightarrow> bool \<Rightarrow> kernel \<Rightarrow> bool kres" where
  "forkret_first exec first s =
     obind (deref ''kerneltrap'' (myproc s) s) (\<lambda>p s.
     if first then
       obind (fsinit ROOTDEV s) (\<lambda>_ s.
       obind (exec (chars ''/init'') [chars ''/init''] s) (\<lambda>r s.
       let s = upd_tframe p (\<lambda>t. t\<lparr>tf_a0 := of_int r\<rparr>) s
       in if tf_a0 (tframes s (p_trapframe (procs s ! p))) = -1 then Panic ''exec'' else Done False s))
     else Done first s)"

end
