(* ===== verification/Exec.thy ===== *)
theory Exec
  imports Life
begin

text \<open>
  \<^verbatim>\<open>kernel/exec.c\<close>: loading an ELF file into a new page table, the user stack with the
  argument strings, and the switch of the process to the new image.  The path and the
  arguments are byte sequences without their terminating NUL.
\<close>

section \<open>elf.h\<close>

record elfhdr =
  eh_magic :: u32
  eh_entry :: u64
  eh_phoff :: u64
  eh_phnum :: u16

record proghdr =
  ph_type :: u32
  ph_flags :: u32
  ph_off :: u64
  ph_vaddr :: u64
  ph_filesz :: u64
  ph_memsz :: u64

abbreviation (input) ELF_MAGIC :: u32 where "ELF_MAGIC \<equiv> 0x464C457F"
abbreviation (input) ELF_PROG_LOAD :: u32 where "ELF_PROG_LOAD \<equiv> 1"

definition elfhdr_get :: "u8 list \<Rightarrow> elfhdr" where
  "elfhdr_get bs =
     \<lparr>eh_magic = get32 bs 0, eh_entry = word_of_bytes (take 8 (drop 24 bs)),
      eh_phoff = word_of_bytes (take 8 (drop 32 bs)), eh_phnum = get16 bs 56\<rparr>"

definition proghdr_get :: "u8 list \<Rightarrow> proghdr" where
  "proghdr_get bs =
     \<lparr>ph_type = get32 bs 0, ph_flags = get32 bs 4, ph_off = word_of_bytes (take 8 (drop 8 bs)),
      ph_vaddr = word_of_bytes (take 8 (drop 16 bs)), ph_filesz = word_of_bytes (take 8 (drop 32 bs)),
      ph_memsz = word_of_bytes (take 8 (drop 40 bs))\<rparr>"

section \<open>exec.c\<close>

definition flags2perm :: "u32 \<Rightarrow> u64" where
  "flags2perm flags =
     (let perm = (if flags AND 1 \<noteq> 0 then PTE_X else 0)
      in if flags AND 2 \<noteq> 0 then perm OR PTE_W else perm)"

text \<open>
  The loop counter of \<open>loadseg\<close> is a \<open>uint\<close>: it takes the values 0, 4096, ... below \<open>sz\<close>.  When
  \<open>sz\<close> is within a page of the largest \<open>uint\<close> the increment wraps to 0 and the same reads start
  again, for ever.
\<close>

fun loadseg_loop :: "nat list \<Rightarrow> u64 \<Rightarrow> u64 \<Rightarrow> nat \<Rightarrow> u32 \<Rightarrow> u32 \<Rightarrow> kernel \<Rightarrow> int kres" where
  "loadseg_loop [] pagetable va ip offset sz s = (if sz > 0xFFFFF000 then Spins s else Done 0 s)"
| "loadseg_loop (i # is) pagetable va ip offset sz s =
     obind (walkaddr pagetable (va + of_nat i) s) (\<lambda>pa s.
     if pa = 0 then Panic ''loadseg: address should exist''
     else let n = (if sz - of_nat i < 4096 then sz - of_nat i else 4096)
          in obind (readi ip (DMem pa) (offset + of_nat i) n s) (\<lambda>(r, _) s.
             if r \<noteq> uint n then Done (-1) s
             else loadseg_loop is pagetable va ip offset sz s))"

definition loadseg :: "u64 \<Rightarrow> u64 \<Rightarrow> nat \<Rightarrow> u32 \<Rightarrow> u32 \<Rightarrow> kernel \<Rightarrow> int kres" where
  "loadseg pagetable va ip offset sz s =
     loadseg_loop (map ((*) 4096) [0..<(unat sz + 4095) div 4096]) pagetable va ip offset sz s"

text \<open>The label \<open>bad\<close>.\<close>

definition exec_bad :: "u64 \<Rightarrow> u64 \<Rightarrow> nat option \<Rightarrow> kernel \<Rightarrow> int kres" where
  "exec_bad pagetable sz ip s =
     obind (if pagetable \<noteq> 0 then proc_freepagetable pagetable sz s else Done () s) (\<lambda>_ s.
     case ip of
       None \<Rightarrow> Done (-1) s
     | Some ip \<Rightarrow> obind (iunlockput ip s) (\<lambda>_ s. obind (end_op s) (\<lambda>_ s. Done (-1) s)))"

text \<open>The loop over the program headers: whether it got to its end, and the size reached.\<close>

fun load_segments :: "nat \<Rightarrow> int \<Rightarrow> nat \<Rightarrow> u64 \<Rightarrow> u64 \<Rightarrow> kernel \<Rightarrow> (bool \<times> u64) kres" where
  "load_segments 0 off ip pagetable sz s = Done (True, sz) s"
| "load_segments (Suc k) off ip pagetable sz s =
     obind (readi ip DLocal (of_int off) 56 s) (\<lambda>(r, bs) s.
     if r \<noteq> 56 then Done (False, sz) s
     else let ph = proghdr_get bs; off' = int32 (off + 56)
          in if ph_type ph \<noteq> ELF_PROG_LOAD then load_segments k off' ip pagetable sz s
             else if ph_memsz ph < ph_filesz ph then Done (False, sz) s
             else if ph_vaddr ph + ph_memsz ph < ph_vaddr ph then Done (False, sz) s
             else if ph_vaddr ph mod PGSIZE \<noteq> 0 then Done (False, sz) s
             else obind (uvmalloc pagetable sz (ph_vaddr ph + ph_memsz ph) (flags2perm (ph_flags ph)) s) (\<lambda>sz1 s.
               if sz1 = 0 then Done (False, sz) s
               else obind (loadseg pagetable (ph_vaddr ph) ip (ucast (ph_off ph)) (ucast (ph_filesz ph)) s) (\<lambda>r s.
                 if r < 0 then Done (False, sz1) s
                 else load_segments k off' ip pagetable sz1 s)))"

text \<open>The loop that pushes the argument strings, newest stack address last.\<close>

fun push_args :: "u8 list list \<Rightarrow> nat \<Rightarrow> u64 \<Rightarrow> u64 \<Rightarrow> u64 \<Rightarrow> u64 list \<Rightarrow> kernel \<Rightarrow> (bool \<times> u64 \<times> u64 list) kres" where
  "push_args [] argc pagetable sp stackbase ustack s = Done (True, sp, ustack) s"
| "push_args (a # as) argc pagetable sp stackbase ustack s =
     (if argc \<ge> MAXARG then Done (False, sp, ustack) s
      else let sp = sp - (of_nat (length a) + 1);
               sp = sp - sp mod 16
           in if sp < stackbase then Done (False, sp, ustack) s
              else obind (copyout pagetable sp (a @ [0]) s) (\<lambda>r s.
                if r < 0 then Done (False, sp, ustack) s
                else push_args as (argc + 1) pagetable sp stackbase (ustack @ [sp]) s))"

definition last_elem :: "u8 list \<Rightarrow> u8 list" where
  "last_elem path = rev (takeWhile (\<lambda>c. c \<noteq> SLASH) (rev path))"

text \<open>From \<open>p->trapframe->a1 = sp\<close> to the end.\<close>

definition exec_commit :: "nat \<Rightarrow> u8 list \<Rightarrow> u64 \<Rightarrow> u64 \<Rightarrow> u64 \<Rightarrow> u64 \<Rightarrow> u64 \<Rightarrow> nat \<Rightarrow> kernel \<Rightarrow> int kres" where
  "exec_commit p path pagetable sz oldsz sp entry argc s =
     (let s = upd_tframe p (\<lambda>t. t\<lparr>tf_a1 := sp\<rparr>) s;
          s = upd_proc p (\<lambda>x. x\<lparr>p_name := safestrcpy (p_name x) (last_elem path @ [0]) 16\<rparr>) s;
          oldpagetable = p_pagetable (procs s ! p);
          s = upd_proc p (\<lambda>x. x\<lparr>p_pagetable := pagetable, p_sz := sz\<rparr>) s;
          s = upd_tframe p (\<lambda>t. t\<lparr>tf_epc := entry, tf_sp := sp\<rparr>) s
      in obind (proc_freepagetable oldpagetable oldsz s) (\<lambda>_ s. Done (int argc) s))"

text \<open>From the allocation of the user stack on.\<close>

definition exec_stack :: "nat \<Rightarrow> u8 list \<Rightarrow> u8 list list \<Rightarrow> u64 \<Rightarrow> u64 \<Rightarrow> u64 \<Rightarrow> kernel \<Rightarrow> int kres" where
  "exec_stack p path argv pagetable sz entry s =
     (let oldsz = p_sz (procs s ! p);
          sz = PGROUNDUP sz
      in obind (uvmalloc pagetable sz (sz + (USERSTACK + 1) * PGSIZE) PTE_W s) (\<lambda>sz1 s.
         if sz1 = 0 then exec_bad pagetable sz None s
         else let sz = sz1
              in obind (uvmclear pagetable (sz - (USERSTACK + 1) * PGSIZE) s) (\<lambda>_ s.
                 let stackbase = sz - USERSTACK * PGSIZE
                 in obind (push_args argv 0 pagetable sz stackbase [] s) (\<lambda>(ok, sp, ustack) s.
                    if \<not> ok then exec_bad pagetable sz None s
                    else let argc = length ustack;
                             sp = sp - of_nat ((argc + 1) * 8);
                             sp = sp - sp mod 16
                         in if sp < stackbase then exec_bad pagetable sz None s
                            else obind (copyout pagetable sp (concat (map (bytes_of 8) (ustack @ [0]))) s) (\<lambda>r s.
                              if r < 0 then exec_bad pagetable sz None s
                              else exec_commit p path pagetable sz oldsz sp entry argc s)))))"

definition kexec :: "u8 list \<Rightarrow> u8 list list \<Rightarrow> kernel \<Rightarrow> int kres" where
  "kexec path argv s =
     obind (deref ''kerneltrap'' (myproc s) s) (\<lambda>p s.
     obind (begin_op s) (\<lambda>_ s.
     obind (namei path s) (\<lambda>ip s.
     case ip of
       None \<Rightarrow> obind (end_op s) (\<lambda>_ s. Done (-1) s)
     | Some ip \<Rightarrow>
         obind (ilock ip s) (\<lambda>_ s.
         obind (readi ip DLocal 0 64 s) (\<lambda>(r, bs) s.
         if r \<noteq> 64 then exec_bad 0 0 (Some ip) s
         else let elf = elfhdr_get bs
              in if eh_magic elf \<noteq> ELF_MAGIC then exec_bad 0 0 (Some ip) s
                 else obind (proc_pagetable p s) (\<lambda>pagetable s.
                   if pagetable = 0 then exec_bad 0 0 (Some ip) s
                   else obind (load_segments (unat (eh_phnum elf)) (int32 (uint (eh_phoff elf))) ip pagetable 0 s)
                          (\<lambda>(ok, sz) s.
                     if \<not> ok then exec_bad pagetable sz (Some ip) s
                     else obind (iunlockput ip s) (\<lambda>_ s.
                          obind (end_op s) (\<lambda>_ s.
                          exec_stack p path argv pagetable sz (eh_entry elf) s)))))))))"

definition forkret_init :: "bool \<Rightarrow> kernel \<Rightarrow> bool kres" where
  "forkret_init first s = forkret_first kexec first s"

end
