(* ===== verification/Sysproc.thy ===== *)
theory Sysproc
  imports Exec
begin

text \<open>
  The arguments of system calls (\<^verbatim>\<open>kernel/syscall.c\<close>) and the process calls of
  \<^verbatim>\<open>kernel/sysproc.c\<close>, \<open>getpinfo\<close> among them.
\<close>

section \<open>syscall.c: arguments\<close>

definition cur :: "kernel \<Rightarrow> nat kres" where
  "cur s = deref ''kerneltrap'' (myproc s) s"

definition fetchaddr :: "u64 \<Rightarrow> kernel \<Rightarrow> (int \<times> u64) kres" where
  "fetchaddr addr s =
     obind (cur s) (\<lambda>p s.
     if addr \<ge> p_sz (procs s ! p) \<or> addr + 8 > p_sz (procs s ! p) then Done (-1, 0) s
     else obind (copyin (p_pagetable (procs s ! p)) addr 8 s) (\<lambda>(r, bs) s.
       if r \<noteq> 0 then Done (-1, 0) s else Done (0, word_of_bytes bs) s))"

text \<open>
  The string without its NUL, which \<open>copyinstr\<close> has stored when it returns 0; \<open>None\<close> is the
  error return.
\<close>

definition fetchstr :: "u64 \<Rightarrow> nat \<Rightarrow> kernel \<Rightarrow> u8 list option kres" where
  "fetchstr addr mx s =
     obind (cur s) (\<lambda>p s.
     obind (copyinstr (p_pagetable (procs s ! p)) addr mx s) (\<lambda>(r, bs) s.
     if r < 0 then Done None s else Done (Some (takeWhile (\<lambda>c. c \<noteq> 0) bs)) s))"

definition argraw :: "int \<Rightarrow> kernel \<Rightarrow> u64 kres" where
  "argraw n s =
     obind (cur s) (\<lambda>p s.
     let tf = tframes s (p_trapframe (procs s ! p))
     in if n = 0 then Done (tf_a0 tf) s
        else if n = 1 then Done (tf_a1 tf) s
        else if n = 2 then Done (tf_a2 tf) s
        else if n = 3 then Done (tf_a3 tf) s
        else if n = 4 then Done (tf_a4 tf) s
        else if n = 5 then Done (tf_a5 tf) s
        else Panic ''argraw'')"

definition argint :: "int \<Rightarrow> kernel \<Rightarrow> int kres" where
  "argint n s = obind (argraw n s) (\<lambda>v s. Done (int32 (uint v)) s)"

definition argaddr :: "int \<Rightarrow> kernel \<Rightarrow> u64 kres" where
  "argaddr n s = argraw n s"

definition argstr :: "int \<Rightarrow> nat \<Rightarrow> kernel \<Rightarrow> u8 list option kres" where
  "argstr n mx s = obind (argaddr n s) (\<lambda>addr s. fetchstr addr mx s)"

section \<open>sysproc.c\<close>

definition sys_exit :: "kernel \<Rightarrow> u64 kres" where
  "sys_exit s = obind (argint 0 s) (\<lambda>n s. kexit n s)"

definition sys_getpid :: "kernel \<Rightarrow> u64 kres" where
  "sys_getpid s = obind (cur s) (\<lambda>p s. Done (of_int (p_pid (procs s ! p))) s)"

definition sys_fork :: "kernel \<Rightarrow> u64 kres" where
  "sys_fork s = obind (kfork s) (\<lambda>r s. Done (of_int r) s)"

definition sys_wait :: "kernel \<Rightarrow> u64 kres" where
  "sys_wait s = obind (argaddr 0 s) (\<lambda>p s. obind (kwait p s) (\<lambda>r s. Done (of_int r) s))"

abbreviation (input) SBRK_EAGER :: int where "SBRK_EAGER \<equiv> 1"

definition sys_sbrk :: "kernel \<Rightarrow> u64 kres" where
  "sys_sbrk s =
     obind (argint 0 s) (\<lambda>n s.
     obind (argint 1 s) (\<lambda>t s.
     obind (cur s) (\<lambda>p s.
     let addr = p_sz (procs s ! p)
     in if t = SBRK_EAGER \<or> n < 0 then
          obind (growproc n s) (\<lambda>r s. Done (if r < 0 then -1 else addr) s)
        else if addr + of_int n < addr then Done (-1) s
        else if addr + of_int n > TRAPFRAME then Done (-1) s
        else Done addr (upd_proc p (\<lambda>x. x\<lparr>p_sz := p_sz x + of_int n\<rparr>) s))))"

fun pause_loop :: "(kernel \<Rightarrow> kernel) list \<Rightarrow> nat \<Rightarrow> u32 \<Rightarrow> u32 \<Rightarrow> kernel \<Rightarrow> u64 kres" where
  "pause_loop envs p ticks0 n s =
     (if ticks s - ticks0 < n then
        if killed p s \<noteq> 0 then Done (-1) s
        else (case envs of
                [] \<Rightarrow> Asleep ChTicks s
              | env # envs \<Rightarrow> pause_loop envs p ticks0 n (ksleep p ChTicks env s))
      else Done 0 s)"

declare pause_loop.simps [simp del]

definition sys_pause :: "(kernel \<Rightarrow> kernel) list \<Rightarrow> kernel \<Rightarrow> u64 kres" where
  "sys_pause envs s =
     obind (argint 0 s) (\<lambda>n s.
     obind (cur s) (\<lambda>p s.
     pause_loop envs p (ticks s) (of_int (if n < 0 then 0 else n)) s))"

definition sys_kill :: "kernel \<Rightarrow> u64 kres" where
  "sys_kill s = obind (argint 0 s) (\<lambda>pid s. let (r, s) = kkill pid s in Done (of_int r) s)"

definition sys_uptime :: "kernel \<Rightarrow> u64 kres" where
  "sys_uptime s = Done (ucast (ticks s)) s"

section \<open>getpinfo\<close>

record pstat =
  ps_isused :: "int list"
  ps_pid :: "int list"
  ps_ppid :: "int list"
  ps_pname :: "u8 list list"
  ps_priority :: "int list"
  ps_pstate :: "int list"
  ps_memsize :: "int list"

text \<open>The numbers of \<open>enum procstate\<close>.\<close>

fun state_num :: "procstate \<Rightarrow> int" where
  "state_num UNUSED = 0"
| "state_num USED = 1"
| "state_num SLEEPING = 2"
| "state_num RUNNABLE = 3"
| "state_num RUNNING = 4"
| "state_num ZOMBIE = 5"

text \<open>One turn of the copying loop.\<close>

definition pstat_fill :: "kernel \<Rightarrow> nat \<Rightarrow> pstat \<Rightarrow> pstat" where
  "pstat_fill s i ps =
     (let p = procs s ! i
      in if p_state p \<noteq> UNUSED then
           ps\<lparr>ps_isused := (ps_isused ps)[i := 1], ps_pid := (ps_pid ps)[i := p_pid p],
              ps_ppid := (ps_ppid ps)[i := (case p_parent p of None \<Rightarrow> 0 | Some q \<Rightarrow> p_pid (procs s ! q))],
              ps_pname := (ps_pname ps)[i := safestrcpy (ps_pname ps ! i) (p_name p) 16],
              ps_priority := (ps_priority ps)[i := p_priority p],
              ps_pstate := (ps_pstate ps)[i := state_num (p_state p)],
              ps_memsize := (ps_memsize ps)[i := int32 (uint (p_sz p))]\<rparr>
         else
           ps\<lparr>ps_isused := (ps_isused ps)[i := 0], ps_pid := (ps_pid ps)[i := 0],
              ps_ppid := (ps_ppid ps)[i := 0], ps_pname := (ps_pname ps)[i := (ps_pname ps ! i)[0 := 0]],
              ps_priority := (ps_priority ps)[i := 0], ps_pstate := (ps_pstate ps)[i := 0],
              ps_memsize := (ps_memsize ps)[i := 0]\<rparr>)"

text \<open>\<open>junk\<close> is what the structure on the kernel stack holds before it is filled.\<close>

definition pstat_of :: "pstat \<Rightarrow> kernel \<Rightarrow> pstat" where
  "pstat_of junk s =
     (let ps = fold (\<lambda>i ps. ps\<lparr>ps_isused := (ps_isused ps)[i := 0]\<rparr>) [0..<NPROC] junk
      in fold (pstat_fill s) [0..<NPROC] ps)"

definition ints_bytes :: "int list \<Rightarrow> u8 list" where
  "ints_bytes xs = concat (map (\<lambda>x. bytes_of 4 (of_int x :: u32)) xs)"

definition pstat_bytes :: "pstat \<Rightarrow> u8 list" where
  "pstat_bytes ps =
     ints_bytes (ps_isused ps) @ ints_bytes (ps_pid ps) @ ints_bytes (ps_ppid ps) @ concat (ps_pname ps)
     @ ints_bytes (ps_priority ps) @ ints_bytes (ps_pstate ps) @ ints_bytes (ps_memsize ps)"

definition sys_getpinfo :: "pstat \<Rightarrow> kernel \<Rightarrow> u64 kres" where
  "sys_getpinfo junk s =
     obind (argaddr 0 s) (\<lambda>addr s.
     let ps = pstat_of junk s
     in obind (cur s) (\<lambda>p s.
        obind (copyout (p_pagetable (procs s ! p)) addr (pstat_bytes ps) s) (\<lambda>r s.
        Done (if r < 0 then -1 else 0) s)))"

end
