(* ===== verification/Sysfile.thy ===== *)
theory Sysfile
  imports Sysproc
begin

text \<open>
  \<^verbatim>\<open>kernel/sysfile.c\<close>: the system calls on files, directories and descriptors.  A local
  \<open>name[DIRSIZ]\<close> starts as zeroes; \<open>nameiparent\<close> overwrites it up to its NUL before it is read.
\<close>

section \<open>Descriptors\<close>

definition argfd :: "int \<Rightarrow> kernel \<Rightarrow> (nat \<times> nat) option kres" where
  "argfd n s =
     obind (argint n s) (\<lambda>fd s.
     if fd < 0 \<or> fd \<ge> int NOFILE then Done None s
     else obind (cur s) (\<lambda>p s.
       case p_ofile (procs s ! p) ! nat fd of
         None \<Rightarrow> Done None s
       | Some f \<Rightarrow> Done (Some (nat fd, f)) s))"

definition set_ofile :: "nat \<Rightarrow> nat \<Rightarrow> nat option \<Rightarrow> kernel \<Rightarrow> kernel" where
  "set_ofile p fd f s = upd_proc p (\<lambda>x. x\<lparr>p_ofile := (p_ofile x)[fd := f]\<rparr>) s"

definition fdalloc :: "nat \<Rightarrow> kernel \<Rightarrow> nat option kres" where
  "fdalloc f s =
     obind (cur s) (\<lambda>p s.
     case find (\<lambda>fd. p_ofile (procs s ! p) ! fd = None) [0..<NOFILE] of
       None \<Rightarrow> Done None s
     | Some fd \<Rightarrow> Done (Some fd) (set_ofile p fd (Some f) s))"

definition sys_dup :: "kernel \<Rightarrow> u64 kres" where
  "sys_dup s =
     obind (argfd 0 s) (\<lambda>r s.
     case r of
       None \<Rightarrow> Done (-1) s
     | Some (_, f) \<Rightarrow>
         obind (fdalloc f s) (\<lambda>fd s.
         case fd of
           None \<Rightarrow> Done (-1) s
         | Some fd \<Rightarrow> obind (filedup f s) (\<lambda>_ s. Done (of_nat fd) s)))"

definition sys_read :: "(kernel \<Rightarrow> kernel) list \<Rightarrow> kernel \<Rightarrow> u64 kres" where
  "sys_read envs s =
     obind (argaddr 1 s) (\<lambda>p s.
     obind (argint 2 s) (\<lambda>n s.
     obind (argfd 0 s) (\<lambda>r s.
     case r of
       None \<Rightarrow> Done (-1) s
     | Some (_, f) \<Rightarrow> obind (fileread envs f p n s) (\<lambda>r s. Done (of_int r) s))))"

definition sys_write :: "(kernel \<Rightarrow> kernel) list \<Rightarrow> kernel \<Rightarrow> u64 kres" where
  "sys_write envs s =
     obind (argaddr 1 s) (\<lambda>p s.
     obind (argint 2 s) (\<lambda>n s.
     obind (argfd 0 s) (\<lambda>r s.
     case r of
       None \<Rightarrow> Done (-1) s
     | Some (_, f) \<Rightarrow> obind (filewrite envs f p n s) (\<lambda>r s. Done (of_int r) s))))"

definition sys_close :: "kernel \<Rightarrow> u64 kres" where
  "sys_close s =
     obind (argfd 0 s) (\<lambda>r s.
     case r of
       None \<Rightarrow> Done (-1) s
     | Some (fd, f) \<Rightarrow>
         obind (cur s) (\<lambda>p s.
         let s = set_ofile p fd None s
         in obind (fileclose f s) (\<lambda>_ s. Done 0 s)))"

definition sys_fstat :: "u8 list \<Rightarrow> kernel \<Rightarrow> u64 kres" where
  "sys_fstat pad s =
     obind (argaddr 1 s) (\<lambda>st s.
     obind (argfd 0 s) (\<lambda>r s.
     case r of
       None \<Rightarrow> Done (-1) s
     | Some (_, f) \<Rightarrow> obind (filestat pad f st s) (\<lambda>r s. Done (of_int r) s)))"

section \<open>link and unlink\<close>

definition short :: "int \<Rightarrow> int" where
  "short x = sint (of_int x :: 16 word)"

definition end_minus1 :: "kernel \<Rightarrow> u64 kres" where
  "end_minus1 s = obind (end_op s) (\<lambda>_ s. Done (-1) s)"

text \<open>The label \<open>bad\<close> of \<open>sys_link\<close>.\<close>

definition link_bad :: "nat \<Rightarrow> kernel \<Rightarrow> u64 kres" where
  "link_bad ip s =
     obind (ilock ip s) (\<lambda>_ s.
     let s = upd_inode ip (\<lambda>x. x\<lparr>i_nlink := short (i_nlink x - 1)\<rparr>) s
     in obind (iupdate ip s) (\<lambda>_ s.
        obind (iunlockput ip s) (\<lambda>_ s. end_minus1 s)))"

definition sys_link :: "kernel \<Rightarrow> u64 kres" where
  "sys_link s =
     obind (argstr 0 MAXPATH s) (\<lambda>old s.
     case old of None \<Rightarrow> Done (-1) s | Some old \<Rightarrow>
     obind (argstr 1 MAXPATH s) (\<lambda>new s.
     case new of None \<Rightarrow> Done (-1) s | Some new \<Rightarrow>
     obind (begin_op s) (\<lambda>_ s.
     obind (namei old s) (\<lambda>ip s.
     case ip of None \<Rightarrow> end_minus1 s | Some ip \<Rightarrow>
     obind (ilock ip s) (\<lambda>_ s.
     if i_type (itable s ! ip) = T_DIR then
       obind (iunlockput ip s) (\<lambda>_ s. end_minus1 s)
     else
       let s = upd_inode ip (\<lambda>x. x\<lparr>i_nlink := short (i_nlink x + 1)\<rparr>) s
       in obind (iupdate ip s) (\<lambda>_ s.
          obind (iunlock ip s) (\<lambda>_ s.
          obind (nameiparent new (replicate DIRSIZ 0) s) (\<lambda>(dp, name) s.
          case dp of None \<Rightarrow> link_bad ip s | Some dp \<Rightarrow>
          obind (ilock dp s) (\<lambda>_ s.
          obind (if i_dev (itable s ! dp) \<noteq> i_dev (itable s ! ip) then Done (-1) s
                 else dirlink dp name (i_inum (itable s ! ip)) s) (\<lambda>r s.
          if r < 0 then obind (iunlockput dp s) (\<lambda>_ s. link_bad ip s)
          else obind (iunlockput dp s) (\<lambda>_ s.
               obind (iput ip s) (\<lambda>_ s.
               obind (end_op s) (\<lambda>_ s. Done 0 s)))))))))))))"

fun isdirempty_loop :: "nat list \<Rightarrow> nat \<Rightarrow> kernel \<Rightarrow> bool kres" where
  "isdirempty_loop [] dp s = Done True s"
| "isdirempty_loop (off # offs) dp s =
     obind (readi dp DLocal (of_nat off) 16 s) (\<lambda>(r, de) s.
     if r \<noteq> 16 then Panic ''isdirempty: readi''
     else if de_inum de \<noteq> 0 then Done False s
     else isdirempty_loop offs dp s)"

definition isdirempty :: "nat \<Rightarrow> kernel \<Rightarrow> bool kres" where
  "isdirempty dp s = isdirempty_loop (drop 2 (de_offs (i_size (itable s ! dp)))) dp s"

definition unlink_bad :: "nat \<Rightarrow> kernel \<Rightarrow> u64 kres" where
  "unlink_bad dp s = obind (iunlockput dp s) (\<lambda>_ s. end_minus1 s)"

text \<open>\<open>sys_unlink\<close> once the entry is known to be removable.\<close>

definition unlink_entry :: "nat \<Rightarrow> nat \<Rightarrow> nat \<Rightarrow> kernel \<Rightarrow> u64 kres" where
  "unlink_entry dp ip off s =
     obind (writei dp (SLocal (replicate 16 0)) (of_nat off) 16 s) (\<lambda>r s.
     if r \<noteq> 16 then Panic ''unlink: writei''
     else obind (if i_type (itable s ! ip) = T_DIR
                 then iupdate dp (upd_inode dp (\<lambda>x. x\<lparr>i_nlink := short (i_nlink x - 1)\<rparr>) s)
                 else Done () s) (\<lambda>_ s.
          obind (iunlockput dp s) (\<lambda>_ s.
          let s = upd_inode ip (\<lambda>x. x\<lparr>i_nlink := short (i_nlink x - 1)\<rparr>) s
          in obind (iupdate ip s) (\<lambda>_ s.
             obind (iunlockput ip s) (\<lambda>_ s.
             obind (end_op s) (\<lambda>_ s. Done 0 s))))))"

definition sys_unlink :: "kernel \<Rightarrow> u64 kres" where
  "sys_unlink s =
     obind (argstr 0 MAXPATH s) (\<lambda>path s.
     case path of None \<Rightarrow> Done (-1) s | Some path \<Rightarrow>
     obind (begin_op s) (\<lambda>_ s.
     obind (nameiparent path (replicate DIRSIZ 0) s) (\<lambda>(dp, name) s.
     case dp of None \<Rightarrow> end_minus1 s | Some dp \<Rightarrow>
     obind (ilock dp s) (\<lambda>_ s.
     if namecmp name (chars ''.'' @ [0]) = 0 \<or> namecmp name (chars ''..'' @ [0]) = 0 then unlink_bad dp s
     else obind (dirlookup dp name s) (\<lambda>found s.
       case found of None \<Rightarrow> unlink_bad dp s | Some (ip, off) \<Rightarrow>
       obind (ilock ip s) (\<lambda>_ s.
       if i_nlink (itable s ! ip) < 1 then Panic ''unlink: nlink < 1''
       else obind (if i_type (itable s ! ip) = T_DIR then isdirempty ip s else Done True s) (\<lambda>emp s.
         if \<not> emp then obind (iunlockput ip s) (\<lambda>_ s. unlink_bad dp s)
         else unlink_entry dp ip off s)))))))"

section \<open>open and create\<close>

definition create_fail :: "nat \<Rightarrow> nat \<Rightarrow> kernel \<Rightarrow> nat option kres" where
  "create_fail ip dp s =
     (let s = upd_inode ip (\<lambda>x. x\<lparr>i_nlink := 0\<rparr>) s
      in obind (iupdate ip s) (\<lambda>_ s.
         obind (iunlockput ip s) (\<lambda>_ s.
         obind (iunlockput dp s) (\<lambda>_ s. Done None s))))"

text \<open>\<open>create\<close> from the allocation of the inode on.\<close>

definition create_new :: "nat \<Rightarrow> u8 list \<Rightarrow> int \<Rightarrow> int \<Rightarrow> int \<Rightarrow> kernel \<Rightarrow> nat option kres" where
  "create_new dp name ty major minor s =
     obind (ialloc (i_dev (itable s ! dp)) ty s) (\<lambda>ip s.
     case ip of None \<Rightarrow> obind (iunlockput dp s) (\<lambda>_ s. Done None s) | Some ip \<Rightarrow>
     obind (ilock ip s) (\<lambda>_ s.
     let s = upd_inode ip (\<lambda>x. x\<lparr>i_major := major, i_minor := minor, i_nlink := 1\<rparr>) s
     in obind (iupdate ip s) (\<lambda>_ s.
        obind (if ty = T_DIR then
                 obind (dirlink ip (chars ''.'' @ [0]) (i_inum (itable s ! ip)) s) (\<lambda>r s.
                 if r < 0 then Done r s else dirlink ip (chars ''..'' @ [0]) (i_inum (itable s ! dp)) s)
               else Done 0 s) (\<lambda>r s.
        if r < 0 then create_fail ip dp s
        else obind (dirlink dp name (i_inum (itable s ! ip)) s) (\<lambda>r s.
          if r < 0 then create_fail ip dp s
          else obind (if ty = T_DIR
                      then iupdate dp (upd_inode dp (\<lambda>x. x\<lparr>i_nlink := short (i_nlink x + 1)\<rparr>) s)
                      else Done () s) (\<lambda>_ s.
               obind (iunlockput dp s) (\<lambda>_ s. Done (Some ip) s)))))))"

definition create :: "u8 list \<Rightarrow> int \<Rightarrow> int \<Rightarrow> int \<Rightarrow> kernel \<Rightarrow> nat option kres" where
  "create path ty major minor s =
     obind (nameiparent path (replicate DIRSIZ 0) s) (\<lambda>(dp, name) s.
     case dp of None \<Rightarrow> Done None s | Some dp \<Rightarrow>
     obind (ilock dp s) (\<lambda>_ s.
     obind (dirlookup dp name s) (\<lambda>found s.
     case found of
       Some (ip, _) \<Rightarrow>
         obind (iunlockput dp s) (\<lambda>_ s.
         obind (ilock ip s) (\<lambda>_ s.
         if ty = T_FILE \<and> (i_type (itable s ! ip) = T_FILE \<or> i_type (itable s ! ip) = T_DEVICE) then Done (Some ip) s
         else obind (iunlockput ip s) (\<lambda>_ s. Done None s)))
     | None \<Rightarrow> create_new dp name ty major minor s)))"


text \<open>\<open>omode & flag\<close>\<close>

definition has :: "int \<Rightarrow> int \<Rightarrow> bool" where
  "has omode flag = (omode AND flag \<noteq> 0)"

text \<open>\<open>sys_open\<close> with the inode found or created and locked.\<close>

definition open_inode :: "nat \<Rightarrow> int \<Rightarrow> kernel \<Rightarrow> u64 kres" where
  "open_inode ip omode s =
     (if i_type (itable s ! ip) = T_DEVICE
         \<and> (i_major (itable s ! ip) < 0 \<or> i_major (itable s ! ip) \<ge> NDEV) then
        obind (iunlockput ip s) (\<lambda>_ s. end_minus1 s)
      else case filealloc s of
        (None, s) \<Rightarrow> obind (iunlockput ip s) (\<lambda>_ s. end_minus1 s)
      | (Some f, s) \<Rightarrow>
          obind (fdalloc f s) (\<lambda>fd s.
          case fd of
            None \<Rightarrow> obind (fileclose f s) (\<lambda>_ s. obind (iunlockput ip s) (\<lambda>_ s. end_minus1 s))
          | Some fd \<Rightarrow>
              let s = (if i_type (itable s ! ip) = T_DEVICE
                       then upd_file f (\<lambda>x. x\<lparr>f_type := FD_DEVICE, f_major := i_major (itable s ! ip)\<rparr>) s
                       else upd_file f (\<lambda>x. x\<lparr>f_type := FD_INODE, f_off := 0\<rparr>) s);
                  s = upd_file f (\<lambda>x. x\<lparr>f_ip := Some ip, f_readable := \<not> has omode O_WRONLY,
                                       f_writable := (has omode O_WRONLY \<or> has omode O_RDWR)\<rparr>) s
              in obind (if has omode O_TRUNC \<and> i_type (itable s ! ip) = T_FILE then itrunc ip s else Done () s) (\<lambda>_ s.
                 obind (iunlock ip s) (\<lambda>_ s.
                 obind (end_op s) (\<lambda>_ s. Done (of_nat fd) s)))))"

definition sys_open :: "kernel \<Rightarrow> u64 kres" where
  "sys_open s =
     obind (argint 1 s) (\<lambda>omode s.
     obind (argstr 0 MAXPATH s) (\<lambda>path s.
     case path of None \<Rightarrow> Done (-1) s | Some path \<Rightarrow>
     obind (begin_op s) (\<lambda>_ s.
     if has omode O_CREATE then
       obind (create path T_FILE 0 0 s) (\<lambda>ip s.
       case ip of None \<Rightarrow> end_minus1 s | Some ip \<Rightarrow> open_inode ip omode s)
     else
       obind (namei path s) (\<lambda>ip s.
       case ip of None \<Rightarrow> end_minus1 s | Some ip \<Rightarrow>
       obind (ilock ip s) (\<lambda>_ s.
       if i_type (itable s ! ip) = T_DIR \<and> omode \<noteq> O_RDONLY then
         obind (iunlockput ip s) (\<lambda>_ s. end_minus1 s)
       else open_inode ip omode s)))))"

definition make_node :: "u8 list option \<Rightarrow> int \<Rightarrow> int \<Rightarrow> int \<Rightarrow> kernel \<Rightarrow> u64 kres" where
  "make_node path ty major minor s =
     (case path of None \<Rightarrow> end_minus1 s | Some path \<Rightarrow>
      obind (create path ty major minor s) (\<lambda>ip s.
      case ip of None \<Rightarrow> end_minus1 s | Some ip \<Rightarrow>
      obind (iunlockput ip s) (\<lambda>_ s. obind (end_op s) (\<lambda>_ s. Done 0 s))))"

definition sys_mkdir :: "kernel \<Rightarrow> u64 kres" where
  "sys_mkdir s =
     obind (begin_op s) (\<lambda>_ s.
     obind (argstr 0 MAXPATH s) (\<lambda>path s. make_node path T_DIR 0 0 s))"

definition sys_mknod :: "kernel \<Rightarrow> u64 kres" where
  "sys_mknod s =
     obind (begin_op s) (\<lambda>_ s.
     obind (argint 1 s) (\<lambda>major s.
     obind (argint 2 s) (\<lambda>minor s.
     obind (argstr 0 MAXPATH s) (\<lambda>path s. make_node path T_DEVICE (short major) (short minor) s))))"

definition sys_chdir :: "kernel \<Rightarrow> u64 kres" where
  "sys_chdir s =
     obind (cur s) (\<lambda>p s.
     obind (begin_op s) (\<lambda>_ s.
     obind (argstr 0 MAXPATH s) (\<lambda>path s.
     case path of None \<Rightarrow> end_minus1 s | Some path \<Rightarrow>
     obind (namei path s) (\<lambda>ip s.
     case ip of None \<Rightarrow> end_minus1 s | Some ip \<Rightarrow>
     obind (ilock ip s) (\<lambda>_ s.
     if i_type (itable s ! ip) \<noteq> T_DIR then obind (iunlockput ip s) (\<lambda>_ s. end_minus1 s)
     else obind (iunlock ip s) (\<lambda>_ s.
          obind (deref ''kerneltrap'' (p_cwd (procs s ! p)) s) (\<lambda>cwd s.
          obind (iput cwd s) (\<lambda>_ s.
          obind (end_op s) (\<lambda>_ s.
          Done 0 (upd_proc p (\<lambda>x. x\<lparr>p_cwd := Some ip\<rparr>) s))))))))))"

section \<open>exec and pipe\<close>

text \<open>
  The loop of \<open>sys_exec\<close> over the at most \<open>MAXARG\<close> slots of \<open>argv\<close>: the pages allocated with
  the strings in them, and whether it ended at a null pointer.
\<close>

fun exec_args :: "nat list \<Rightarrow> u64 \<Rightarrow> (u64 \<times> u8 list) list \<Rightarrow> kernel \<Rightarrow> (bool \<times> (u64 \<times> u8 list) list) kres" where
  "exec_args [] uargv acc s = Done (False, acc) s"
| "exec_args (i # is) uargv acc s =
     obind (fetchaddr (uargv + 8 * of_nat i) s) (\<lambda>(r, uarg) s.
     if r < 0 then Done (False, acc) s
     else if uarg = 0 then Done (True, acc) s
     else let (pg, s) = kalloc s
          in if pg = 0 then Done (False, acc) s
             else obind (fetchstr uarg 4096 s) (\<lambda>str s.
               case str of
                 None \<Rightarrow> Done (False, acc @ [(pg, [])]) s
               | Some a \<Rightarrow> exec_args is uargv (acc @ [(pg, a)]) s))"

fun kfree_all :: "u64 list \<Rightarrow> kernel \<Rightarrow> unit kres" where
  "kfree_all [] s = Done () s"
| "kfree_all (a # as) s = obind (kfree a s) (\<lambda>_ s. kfree_all as s)"

definition sys_exec :: "kernel \<Rightarrow> u64 kres" where
  "sys_exec s =
     obind (argaddr 1 s) (\<lambda>uargv s.
     obind (argstr 0 MAXPATH s) (\<lambda>path s.
     case path of None \<Rightarrow> Done (-1) s | Some path \<Rightarrow>
     obind (exec_args [0..<MAXARG] uargv [] s) (\<lambda>(ok, argv) s.
     if \<not> ok then obind (kfree_all (map fst argv) s) (\<lambda>_ s. Done (-1) s)
     else obind (kexec path (map snd argv) s) (\<lambda>ret s.
          obind (kfree_all (map fst argv) s) (\<lambda>_ s. Done (of_int ret) s)))))"

definition close_both :: "nat \<Rightarrow> nat \<Rightarrow> kernel \<Rightarrow> u64 kres" where
  "close_both rf wr s =
     obind (fileclose rf s) (\<lambda>_ s. obind (fileclose wr s) (\<lambda>_ s. Done (-1) s))"

definition sys_pipe :: "kernel \<Rightarrow> u64 kres" where
  "sys_pipe s =
     obind (cur s) (\<lambda>p s.
     obind (argaddr 0 s) (\<lambda>fdarray s.
     obind (pipealloc s) (\<lambda>r s.
     case r of None \<Rightarrow> Done (-1) s | Some (rf, wr) \<Rightarrow>
     obind (fdalloc rf s) (\<lambda>fd0 s.
     case fd0 of None \<Rightarrow> close_both rf wr s | Some fd0 \<Rightarrow>
     obind (fdalloc wr s) (\<lambda>fd1 s.
     case fd1 of None \<Rightarrow> close_both rf wr (set_ofile p fd0 None s) | Some fd1 \<Rightarrow>
     let pt = p_pagetable (procs s ! p)
     in obind (copyout pt fdarray (bytes_of 4 (of_nat fd0 :: u32)) s) (\<lambda>r s.
        obind (if r < 0 then Done r s else copyout pt (fdarray + 4) (bytes_of 4 (of_nat fd1 :: u32)) s) (\<lambda>r s.
        if r < 0 then close_both rf wr (set_ofile p fd1 None (set_ofile p fd0 None s))
        else Done 0 s)))))))"

end
