(* ===== verification/Trap.thy ===== *)
theory Trap
  imports Sysfile
begin

text \<open>
  The dispatch of system calls (\<^verbatim>\<open>kernel/syscall.c\<close>), traps and interrupts
  (\<^verbatim>\<open>kernel/trap.c\<close>) and the registers of the interrupt controller (\<^verbatim>\<open>kernel/plic.c\<close>).
  What the hardware shows the handler is the record \<open>hw\<close>; what a system call finds besides the
  state (the rest of the system while it sleeps, old bytes of the kernel stack) the record
  \<open>surroundings\<close>.
\<close>

section \<open>syscall.c\<close>

record surroundings =
  sr_envs :: "(kernel \<Rightarrow> kernel) list"
  sr_pad :: "u8 list"
  sr_pstat :: pstat

definition syscalls :: "int \<Rightarrow> (surroundings \<Rightarrow> kernel \<Rightarrow> u64 kres) option" where
  "syscalls num =
     (if num = 1 then Some (\<lambda>_. sys_fork)
      else if num = 2 then Some (\<lambda>_. sys_exit)
      else if num = 3 then Some (\<lambda>_. sys_wait)
      else if num = 4 then Some (\<lambda>_. sys_pipe)
      else if num = 5 then Some (\<lambda>r. sys_read (sr_envs r))
      else if num = 6 then Some (\<lambda>_. sys_kill)
      else if num = 7 then Some (\<lambda>_. sys_exec)
      else if num = 8 then Some (\<lambda>r. sys_fstat (sr_pad r))
      else if num = 9 then Some (\<lambda>_. sys_chdir)
      else if num = 10 then Some (\<lambda>_. sys_dup)
      else if num = 11 then Some (\<lambda>_. sys_getpid)
      else if num = 12 then Some (\<lambda>_. sys_sbrk)
      else if num = 13 then Some (\<lambda>r. sys_pause (sr_envs r))
      else if num = 14 then Some (\<lambda>_. sys_uptime)
      else if num = 15 then Some (\<lambda>_. sys_open)
      else if num = 16 then Some (\<lambda>r. sys_write (sr_envs r))
      else if num = 17 then Some (\<lambda>_. sys_mknod)
      else if num = 18 then Some (\<lambda>_. sys_unlink)
      else if num = 19 then Some (\<lambda>_. sys_link)
      else if num = 20 then Some (\<lambda>_. sys_mkdir)
      else if num = 21 then Some (\<lambda>_. sys_close)
      else if num = 22 then Some (\<lambda>r. sys_getpinfo (sr_pstat r))
      else None)"

definition syscall :: "surroundings \<Rightarrow> kernel \<Rightarrow> unit kres" where
  "syscall r s =
     obind (cur s) (\<lambda>p s.
     let num = int32 (uint (tf_a7 (tframes s (p_trapframe (procs s ! p)))))
     in case syscalls num of
          Some f \<Rightarrow> obind (f r s) (\<lambda>v s. Done () (upd_tframe p (\<lambda>t. t\<lparr>tf_a0 := v\<rparr>) s))
        | None \<Rightarrow>
            let s = printk ''%d %s: unknown sys call %d''
                      ([p_pid (procs s ! p), num] @ map uint (takeWhile (\<lambda>c. c \<noteq> 0) (p_name (procs s ! p)))) s
            in Done () (upd_tframe p (\<lambda>t. t\<lparr>tf_a0 := -1\<rparr>) s))"

section \<open>plic.c\<close>

definition plicinit :: "(u64 \<times> u32) list" where
  "plicinit = [(PLIC + of_int UART0_IRQ * 4, 1), (PLIC + of_int VIRTIO0_IRQ * 4, 1)]"

definition PLIC_SENABLE :: "nat \<Rightarrow> u64" where
  "PLIC_SENABLE hart = PLIC + 0x2080 + of_nat hart * 0x100"

definition PLIC_SPRIORITY :: "nat \<Rightarrow> u64" where
  "PLIC_SPRIORITY hart = PLIC + 0x201000 + of_nat hart * 0x2000"

definition PLIC_SCLAIM :: "nat \<Rightarrow> u64" where
  "PLIC_SCLAIM hart = PLIC + 0x201004 + of_nat hart * 0x2000"

definition plicinithart :: "nat \<Rightarrow> (u64 \<times> u32) list" where
  "plicinithart hart =
     [(PLIC_SENABLE hart, push_bit (nat UART0_IRQ) 1 OR push_bit (nat VIRTIO0_IRQ) 1), (PLIC_SPRIORITY hart, 0)]"

text \<open>The claim register is read once, and written with the number it gave.\<close>

definition plic_claim :: "(u64 \<Rightarrow> u32) \<Rightarrow> nat \<Rightarrow> int" where
  "plic_claim mmio hart = int32 (uint (mmio (PLIC_SCLAIM hart)))"

definition plic_complete :: "int \<Rightarrow> nat \<Rightarrow> u64 \<times> u32" where
  "plic_complete irq hart = (PLIC_SCLAIM hart, of_int irq)"

section \<open>trap.c\<close>

text \<open>
  \<open>hw_done\<close> lists the buffers whose requests the disk has completed; theory \<open>Virtio\<close> shows how
  \<open>virtio_disk_intr\<close> finds them in the used ring.
\<close>

record hw =
  hw_scause :: u64
  hw_sepc :: u64
  hw_stval :: u64
  hw_sstatus :: u64
  hw_satp :: u64
  hw_mmio :: "u64 \<Rightarrow> u32"
  hw_rx :: "u8 list"
  hw_tx_idle :: bool
  hw_done :: "nat list"

definition clockintr :: "kernel \<Rightarrow> kernel" where
  "clockintr s = (if tp s = 0 then wakeup ChTicks (s\<lparr>ticks := ticks s + 1\<rparr>) else s)"

definition devintr :: "hw \<Rightarrow> kernel \<Rightarrow> int \<times> kernel" where
  "devintr h s =
     (if hw_scause h = 0x8000000000000009 then
        let irq = plic_claim (hw_mmio h) (tp s)
        in if irq = UART0_IRQ then (1, uartintr (hw_tx_idle h) (hw_rx h) s)
           else if irq = VIRTIO0_IRQ then (1, fold (\<lambda>b. wakeup (ChBuf b)) (hw_done h) s)
           else if irq \<noteq> 0 then (1, printk ''unexpected interrupt irq=%d'' [irq] s)
           else (1, s)
      else if hw_scause h = 0x8000000000000005 then (2, clockintr s)
      else (0, s))"

abbreviation (input) SSTATUS_SPP :: u64 where "SSTATUS_SPP \<equiv> 0x100"
abbreviation (input) SSTATUS_SPIE :: u64 where "SSTATUS_SPIE \<equiv> 0x20"

text \<open>\<open>prepare_return\<close> yields the values it writes to \<open>stvec\<close>, \<open>sstatus\<close> and \<open>sepc\<close>.\<close>

definition prepare_return :: "hw \<Rightarrow> kernel \<Rightarrow> (u64 \<times> u64 \<times> u64) kres" where
  "prepare_return h s =
     obind (cur s) (\<lambda>p s.
     let s = upd_cpu intr_off s;
         stvec = TRAMPOLINE + (sym_uservec (syms s) - sym_trampoline (syms s));
         s = upd_tframe p (\<lambda>t. t\<lparr>tf_kernel_satp := hw_satp h, tf_kernel_sp := p_kstack (procs s ! p) + PGSIZE,
                                tf_kernel_trap := sym_usertrap (syms s), tf_kernel_hartid := of_nat (tp s)\<rparr>) s;
         x = (hw_sstatus h AND NOT SSTATUS_SPP) OR SSTATUS_SPIE
     in Done (stvec, x, tf_epc (tframes s (p_trapframe (procs s ! p)))) s)"

text \<open>
  The branch on the cause of a trap from user space, giving \<open>which_dev\<close>.
\<close>

definition usertrap_cause :: "hw \<Rightarrow> surroundings \<Rightarrow> nat \<Rightarrow> kernel \<Rightarrow> int kres" where
  "usertrap_cause h r p s =
     (if hw_scause h = 8 then
        obind (if killed p s \<noteq> 0 then kexit (-1) s else Done () s) (\<lambda>_ s.
        let s = upd_tframe p (\<lambda>t. t\<lparr>tf_epc := tf_epc t + 4\<rparr>) s;
            s = upd_cpu intr_on s
        in obind (syscall r s) (\<lambda>_ s. Done 0 s))
      else let (which_dev, s) = devintr h s
           in if which_dev \<noteq> 0 then Done which_dev s
              else obind (if hw_scause h = 15 \<or> hw_scause h = 13
                          then vmfault (p_pagetable (procs s ! p)) (hw_stval h) (hw_scause h = 13) s
                          else Done 0 s) (\<lambda>pa s.
                if pa \<noteq> 0 then Done 0 s
                else let s = printk ''usertrap(): unexpected scause 0x%lx pid=%d'' [uint (hw_scause h), p_pid (procs s ! p)] s;
                         s = printk ''            sepc=0x%lx stval=0x%lx'' [uint (hw_sepc h), uint (hw_stval h)] s
                     in Done 0 (setkilled p s)))"

text \<open>
  \<open>env\<close> is what the rest of the system does if the process gives up the processor here.  The
  result is the user \<open>satp\<close> with the values of \<open>prepare_return\<close>.
\<close>

definition usertrap :: "hw \<Rightarrow> surroundings \<Rightarrow> (kernel \<Rightarrow> kernel) \<Rightarrow> kernel \<Rightarrow> (u64 \<times> u64 \<times> u64 \<times> u64) kres" where
  "usertrap h r env s =
     (if hw_sstatus h AND SSTATUS_SPP \<noteq> 0 then Panic ''usertrap: not from user mode''
      else obind (cur s) (\<lambda>p s.
        let s = upd_tframe p (\<lambda>t. t\<lparr>tf_epc := hw_sepc h\<rparr>) s
        in obind (usertrap_cause h r p s) (\<lambda>which_dev s.
           obind (if killed p s \<noteq> 0 then kexit (-1) s else Done () s) (\<lambda>_ s.
           obind (if which_dev = 2 then yield env s else Done () s) (\<lambda>_ s.
           obind (prepare_return h s) (\<lambda>v s.
           Done (MAKE_SATP (p_pagetable (procs s ! p)), v) s))))))"

definition kerneltrap :: "hw \<Rightarrow> kernel \<Rightarrow> unit kres" where
  "kerneltrap h s =
     (if hw_sstatus h AND SSTATUS_SPP = 0 then Panic ''kerneltrap: not from supervisor mode''
      else if intr_get (mycpu s) then Panic ''kerneltrap: interrupts enabled''
      else let (which_dev, s) = devintr h s
           in if which_dev = 0 then Panic ''kerneltrap''
              else if which_dev = 2 then
                (case c_proc (mycpu s) of
                   Some p \<Rightarrow>
                     if p_state (procs s ! p) = RUNNING then
                       Done () (upd_proc p (\<lambda>x. x\<lparr>p_timer_ticks_used := int32 (p_timer_ticks_used x + 1)\<rparr>) s)
                     else Done () s
                 | None \<Rightarrow> Done () s)
              else Done () s)"

text \<open>The whole of \<open>forkret\<close> after the lock is released; \<open>first\<close> is its static variable.\<close>

definition forkret :: "hw \<Rightarrow> bool \<Rightarrow> kernel \<Rightarrow> (bool \<times> u64 \<times> u64) kres" where
  "forkret h first s =
     obind (forkret_init first s) (\<lambda>first s.
     obind (cur s) (\<lambda>p s.
     obind (prepare_return h s) (\<lambda>_ s.
     Done (first, MAKE_SATP (p_pagetable (procs s ! p)),
           TRAMPOLINE + (sym_userret (syms s) - sym_trampoline (syms s))) s)))"

end
