(* ===== verification/Virtio.thy ===== *)
theory Virtio
  imports Kalloc
begin

text \<open>
  \<^verbatim>\<open>kernel/virtio_disk.c\<close>: descriptors, the available and used rings, and the two ends of a
  disk request.  The device is the other party of a protocol: it takes chains from the available
  ring in the order it likes, does the transfer, and reports the head of the chain in the used
  ring.  Addresses the descriptors hold are the objects they point to.
\<close>

section \<open>virtio.h\<close>

abbreviation (input) NUM :: nat where "NUM \<equiv> 8"
abbreviation (input) VRING_DESC_F_NEXT :: u16 where "VRING_DESC_F_NEXT \<equiv> 1"
abbreviation (input) VRING_DESC_F_WRITE :: u16 where "VRING_DESC_F_WRITE \<equiv> 2"

datatype dma = DmaNull | DmaReq nat | DmaBuf nat | DmaStatus nat

record virtq_desc =
  d_addr :: dma
  d_len :: nat
  d_flags :: u16
  d_next :: nat

record virtio_blk_req =
  r_out :: bool  \<comment> \<open>\<open>VIRTIO_BLK_T_OUT\<close>, write the disk\<close>
  r_sector :: u64

text \<open>
  \<open>struct disk\<close>; \<open>vd_busy\<close> is the field \<open>disk\<close> of each \<open>struct buf\<close>, \<open>vd_woken\<close> the calls of
  \<open>wakeup\<close> in their order.
\<close>

record vdisk =
  vd_desc :: "virtq_desc list"
  vd_avail_idx :: u16
  vd_avail :: "nat list"
  vd_used_devidx :: u16
  vd_used :: "nat list"
  vd_free :: "nat \<Rightarrow> bool"
  vd_used_idx :: u16
  vd_info_b :: "nat option list"
  vd_info_status :: "u8 list"
  vd_ops :: "virtio_blk_req list"
  vd_busy :: "nat \<Rightarrow> bool"
  vd_woken :: "wchan list"

type_synonym 'a vres = "(vdisk, wchan, 'a) outcome"

definition null_desc :: virtq_desc where
  "null_desc = \<lparr>d_addr = DmaNull, d_len = 0, d_flags = 0, d_next = 0\<rparr>"

definition new_vdisk :: vdisk where
  "new_vdisk = \<lparr>vd_desc = replicate NUM null_desc, vd_avail_idx = 0, vd_avail = replicate NUM 0,
     vd_used_devidx = 0, vd_used = replicate NUM 0, vd_free = (\<lambda>_. True), vd_used_idx = 0,
     vd_info_b = replicate NUM None, vd_info_status = replicate NUM 0,
     vd_ops = replicate NUM \<lparr>r_out = False, r_sector = 0\<rparr>, vd_busy = (\<lambda>_. False), vd_woken = []\<rparr>"

section \<open>Initialisation\<close>

text \<open>
  What \<open>virtio_disk_init\<close> reads from the device: the four identification registers, the status
  after negotiation, \<open>QUEUE_READY\<close> and \<open>QUEUE_NUM_MAX\<close>.  It yields the writes to the device's
  registers, by offset, and takes three pages for the rings.
\<close>

record vregs =
  vr_magic :: u32
  vr_version :: u32
  vr_device_id :: u32
  vr_vendor_id :: u32
  vr_features :: u64
  vr_status :: u32
  vr_ready :: u32
  vr_num_max :: u32

definition negotiate :: "u64 \<Rightarrow> u64" where
  "negotiate f = fold (\<lambda>b f. f AND NOT (push_bit b 1)) [5, 7, 11, 12, 27, 29, 28] f"

definition lo32 :: "u64 \<Rightarrow> u32" where "lo32 x = ucast x"
definition hi32 :: "u64 \<Rightarrow> u32" where "hi32 x = ucast (drop_bit 32 x)"

definition virtio_disk_init :: "vregs \<Rightarrow> kernel \<Rightarrow> ((nat \<times> u32) list \<times> vdisk) kres" where
  "virtio_disk_init v s =
     (if vr_magic v \<noteq> 0x74726976 \<or> vr_version v \<noteq> 2 \<or> vr_device_id v \<noteq> 2 \<or> vr_vendor_id v \<noteq> 0x554d4551
      then Panic ''could not find virtio disk''
      else if vr_status v AND 8 = 0 then Panic ''virtio disk FEATURES_OK unset''
      else if vr_ready v \<noteq> 0 then Panic ''virtio disk should not be ready''
      else if vr_num_max v = 0 then Panic ''virtio disk has no queue 0''
      else if vr_num_max v < of_nat NUM then Panic ''virtio disk max queue too short''
      else let (desc, s) = kalloc s; (avail, s) = kalloc s; (used, s) = kalloc s
           in if desc = 0 \<or> avail = 0 \<or> used = 0 then Panic ''virtio disk kalloc''
              else let s = s\<lparr>mem := memset used 0 4096 (memset avail 0 4096 (memset desc 0 4096 (mem s)))\<rparr>
                   in Done ([(0x070, 0), (0x070, 1), (0x070, 3), (0x020, lo32 (negotiate (vr_features v))), (0x070, 11),
                             (0x030, 0), (0x038, of_nat NUM),
                             (0x080, lo32 desc), (0x084, hi32 desc), (0x090, lo32 avail), (0x094, hi32 avail),
                             (0x0a0, lo32 used), (0x0a4, hi32 used), (0x044, 1), (0x070, vr_status v OR 4)],
                            new_vdisk) s)"

section \<open>Descriptors\<close>

definition alloc_desc :: "vdisk \<Rightarrow> nat option \<times> vdisk" where
  "alloc_desc v =
     (case find (\<lambda>i. vd_free v i) [0..<NUM] of
        Some i \<Rightarrow> (Some i, v\<lparr>vd_free := (vd_free v)(i := False)\<rparr>)
      | None \<Rightarrow> (None, v))"

definition free_desc :: "nat \<Rightarrow> vdisk \<Rightarrow> unit vres" where
  "free_desc i v =
     (if i \<ge> NUM then Panic ''free_desc 1''
      else if vd_free v i then Panic ''free_desc 2''
      else Done () (v\<lparr>vd_desc := (vd_desc v)[i := null_desc], vd_free := (vd_free v)(i := True),
                      vd_woken := vd_woken v @ [ChDiskFree]\<rparr>))"

text \<open>
  \<open>free_chain\<close> follows \<open>next\<close> until a descriptor without the flag.  Each turn frees a descriptor
  that was not free, so it cannot take more than \<open>NUM\<close> of them.
\<close>

definition taken :: "vdisk \<Rightarrow> nat set" where
  "taken v = {i. i < NUM \<and> \<not> vd_free v i}"

lemma finite_taken [simp]: "finite (taken v)"
  by (simp add: taken_def)

function free_chain :: "nat \<Rightarrow> vdisk \<Rightarrow> unit vres" where
  "free_chain i v =
     (let flag = d_flags (vd_desc v ! i); nxt = d_next (vd_desc v ! i)
      in obind (free_desc i v) (\<lambda>_ v.
         if flag AND VRING_DESC_F_NEXT \<noteq> 0 then free_chain nxt v else Done () v))"
  by pat_completeness auto

lemma free_desc_taken: "free_desc i v = Done u v' \<Longrightarrow> i \<in> taken v \<and> taken v' = taken v - {i}"
  by (auto simp: free_desc_def taken_def split: if_splits)

termination free_chain
proof (relation "measure (\<lambda>(i, v). card (taken v))")
  fix i :: nat and v v' :: vdisk and flag nxt x
  assume "free_desc i v = Done x v'"
  then have "i \<in> taken v" "taken v' = taken v - {i}" by (simp_all add: free_desc_taken)
  then have "card (taken v') < card (taken v)" by (metis card_Diff1_less finite_taken)
  then show "((nxt, v'), i, v) \<in> measure (\<lambda>(i, v). card (taken v))" by simp
qed simp

declare free_chain.simps [simp del]

fun free_descs :: "nat list \<Rightarrow> vdisk \<Rightarrow> unit vres" where
  "free_descs [] v = Done () v"
| "free_descs (i # is) v = obind (free_desc i v) (\<lambda>_ v. free_descs is v)"

fun alloc_descs :: "nat \<Rightarrow> nat list \<Rightarrow> vdisk \<Rightarrow> nat list option vres" where
  "alloc_descs 0 idx v = Done (Some idx) v"
| "alloc_descs (Suc k) idx v =
     (case alloc_desc v of
        (None, v) \<Rightarrow> obind (free_descs idx v) (\<lambda>_ v. Done None v)
      | (Some i, v) \<Rightarrow> alloc_descs k (idx @ [i]) v)"

definition alloc3_desc :: "vdisk \<Rightarrow> nat list option vres" where
  "alloc3_desc v = alloc_descs 3 [] v"

section \<open>Requests\<close>

text \<open>\<open>virtio_disk_rw\<close> from the three descriptors to the notification of the device.\<close>

definition submit :: "nat \<Rightarrow> nat \<Rightarrow> bool \<Rightarrow> nat \<times> nat \<times> nat \<Rightarrow> vdisk \<Rightarrow> vdisk" where
  "submit b blockno wr = (\<lambda>(i0, i1, i2) v.
     let v = v\<lparr>vd_ops := (vd_ops v)[i0 := \<lparr>r_out = wr, r_sector = of_nat (blockno * 2)\<rparr>]\<rparr>;
         v = v\<lparr>vd_desc := (vd_desc v)[i0 := \<lparr>d_addr = DmaReq i0, d_len = 16, d_flags = VRING_DESC_F_NEXT, d_next = i1\<rparr>]\<rparr>;
         v = v\<lparr>vd_desc := (vd_desc v)[i1 := \<lparr>d_addr = DmaBuf b, d_len = 1024,
                 d_flags = (if wr then 0 else VRING_DESC_F_WRITE) OR VRING_DESC_F_NEXT, d_next = i2\<rparr>]\<rparr>;
         v = v\<lparr>vd_info_status := (vd_info_status v)[i0 := 0xff]\<rparr>;
         v = v\<lparr>vd_desc := (vd_desc v)[i2 := \<lparr>d_addr = DmaStatus i0, d_len = 1, d_flags = VRING_DESC_F_WRITE, d_next = 0\<rparr>]\<rparr>;
         v = v\<lparr>vd_busy := (vd_busy v)(b := True)\<rparr>;
         v = v\<lparr>vd_info_b := (vd_info_b v)[i0 := Some b]\<rparr>;
         v = v\<lparr>vd_avail := (vd_avail v)[unat (vd_avail_idx v mod 8) := i0]\<rparr>
     in v\<lparr>vd_avail_idx := vd_avail_idx v + 1\<rparr>)"

definition rw_start :: "nat \<Rightarrow> nat \<Rightarrow> bool \<Rightarrow> vdisk \<Rightarrow> nat vres" where
  "rw_start b blockno wr v =
     obind (alloc3_desc v) (\<lambda>idx v.
     case idx of
       Some [i0, i1, i2] \<Rightarrow> Done i0 (submit b blockno wr (i0, i1, i2) v)
     | _ \<Rightarrow> Asleep ChDiskFree v)"

text \<open>... and from the end of the wait for \<open>b->disk\<close> on.\<close>

definition rw_finish :: "nat \<Rightarrow> nat \<Rightarrow> vdisk \<Rightarrow> unit vres" where
  "rw_finish b i0 v =
     (if vd_busy v b then Asleep (ChBuf b) v
      else free_chain i0 (v\<lparr>vd_info_b := (vd_info_b v)[i0 := None]\<rparr>))"

section \<open>The interrupt handler\<close>

function virtio_disk_intr :: "vdisk \<Rightarrow> unit vres" where
  "virtio_disk_intr v =
     (if vd_used_idx v \<noteq> vd_used_devidx v then
        let id = vd_used v ! unat (vd_used_idx v mod 8)
        in if id \<ge> NUM then Panic ''kerneltrap''
           else if vd_info_status v ! id \<noteq> 0 then Panic ''virtio_disk_intr status''
           else (case vd_info_b v ! id of
                   None \<Rightarrow> Panic ''kerneltrap''
                 | Some b \<Rightarrow>
                     virtio_disk_intr (v\<lparr>vd_busy := (vd_busy v)(b := False), vd_woken := vd_woken v @ [ChBuf b],
                                         vd_used_idx := vd_used_idx v + 1\<rparr>))
      else Done () v)"
  by pat_completeness auto

lemma used_measure: "i \<noteq> d \<Longrightarrow> unat (d - (i + 1)) < unat (d - i :: u16)"
proof -
  assume "i \<noteq> d"
  then have "d - i \<noteq> 0" by simp
  then have "unat (d - i - 1) < unat (d - i)" by (simp add: unat_minus_one unat_gt_0)
  then show ?thesis by (simp add: algebra_simps)
qed

termination virtio_disk_intr
  by (relation "measure (\<lambda>v. unat (vd_used_devidx v - vd_used_idx v))") (auto simp: used_measure)

declare virtio_disk_intr.simps [simp del]

end
