(* ===== verification/Boot.thy ===== *)
theory Boot
  imports Trap Virtio
begin

text \<open>
  \<^verbatim>\<open>kernel/start.c\<close> and \<^verbatim>\<open>kernel/main.c\<close>: the machine-mode registers each hart sets before it
  enters \<open>main\<close>, and the order in which hart 0 initialises the kernel.
\<close>

section \<open>start.c\<close>

record csrs =
  mstatus :: u64
  mepc :: u64
  satp :: u64
  medeleg :: u64
  mideleg :: u64
  sie :: u64
  pmpaddr0 :: u64
  pmpcfg0 :: u64
  mie :: u64
  menvcfg :: u64
  mcounteren :: u64
  stimecmp :: u64
  csr_tp :: u64

definition timerinit :: "u64 \<Rightarrow> csrs \<Rightarrow> csrs" where
  "timerinit time c =
     (let c = c\<lparr>mie := mie c OR push_bit 5 1\<rparr>;
          c = c\<lparr>menvcfg := menvcfg c OR push_bit 63 1\<rparr>;
          c = c\<lparr>mcounteren := mcounteren c OR 2\<rparr>
      in c\<lparr>stimecmp := time + 1000000\<rparr>)"

definition start :: "u64 \<Rightarrow> u64 \<Rightarrow> u64 \<Rightarrow> csrs \<Rightarrow> csrs" where
  "start main time hartid c =
     (let x = mstatus c AND NOT (push_bit 11 3);
          c = c\<lparr>mstatus := x OR push_bit 11 1\<rparr>;
          c = c\<lparr>mepc := main\<rparr>;
          c = c\<lparr>satp := 0\<rparr>;
          c = c\<lparr>medeleg := 0xffff\<rparr>;
          c = c\<lparr>mideleg := 0xffff\<rparr>;
          c = c\<lparr>sie := sie c OR push_bit 9 1 OR push_bit 5 1\<rparr>;
          c = c\<lparr>pmpaddr0 := 0x3fffffffffffff\<rparr>;
          c = c\<lparr>pmpcfg0 := 0xf\<rparr>;
          c = timerinit time c
      in c\<lparr>csr_tp := of_int (int32 (uint hartid))\<rparr>)"

section \<open>main.c\<close>

text \<open>
  The messages of \<open>main\<close> are calls of \<open>printf\<close> that \<open>kmsgs\<close> records.  \<open>trapinit\<close>, \<open>fileinit\<close>
  and \<open>printfinit\<close> only set up locks, and the \<open>inithart\<close> routines only write registers.
\<close>

definition main_hart0 :: "vregs \<Rightarrow> kernel \<Rightarrow> unit kres" where
  "main_hart0 v s =
     (let s = consoleinit s;
          s = printk [CHR 0x0A] [] s;
          s = printk (''xv6 kernel is booting'' @ [CHR 0x0A]) [] s;
          s = printk [CHR 0x0A] [] s
      in obind (case kinit s of None \<Rightarrow> Spins s | Some r \<Rightarrow> r) (\<lambda>_ s.
         obind (kvminit s) (\<lambda>_ s.
         let s = procinit s;
             s = binit s;
             s = iinit s
         in obind (virtio_disk_init v s) (\<lambda>_ s.
            userinit s))))"

definition main_hart :: "bool \<Rightarrow> kernel \<Rightarrow> unit kres" where
  "main_hart started s =
     (if \<not> started then Spins s
      else Done () (printk (''hart %d starting'' @ [CHR 0x0A]) [int (tp s)] s))"

definition kmain :: "vregs \<Rightarrow> bool \<Rightarrow> kernel \<Rightarrow> unit kres" where
  "kmain v started s = (if tp s = 0 then main_hart0 v s else main_hart started s)"

end
