(* ===== verification/Printf.thy ===== *)
theory Printf
  imports Strings
begin

text \<open>
  The two formatted printers: \<^verbatim>\<open>kernel/printf.c\<close>, which writes to the console, and
  \<^verbatim>\<open>user/printf.c\<close>, which writes to a file descriptor.  Both yield the bytes they write; a
  missing argument is undefined behaviour in C and \<open>None\<close> here.  Formats and strings are byte
  sequences without their NUL.
\<close>

definition ascii :: "string \<Rightarrow> u8 list" where
  "ascii cs = map (of_nat \<circ> of_char) cs"

definition ch :: "char \<Rightarrow> u8" where
  "ch c = of_nat (of_char c)"

section \<open>Integers\<close>

text \<open>
  The bytes \<open>buf[0]\<close>, \<open>buf[1]\<close>, ... that \<open>printint\<close> fills, least significant digit first.  The
  base is 10 or 16.
\<close>

function digit_buf :: "u8 list \<Rightarrow> u64 \<Rightarrow> u64 \<Rightarrow> u8 list" where
  "digit_buf digits base x =
     digits ! unat (x mod base) #
       (if x div base \<noteq> 0 \<and> 1 < base then digit_buf digits base (x div base) else [])"
  by pat_completeness auto
termination
proof (relation "measure (\<lambda>(d, b, x). unat x)")
  show "wf (measure (\<lambda>(d, b, x). unat x))" by simp
  fix digits :: "u8 list" and base x :: u64
  assume "x div base \<noteq> 0 \<and> 1 < base"
  then have "unat (x div base) \<noteq> 0" and b: "1 < unat base"
    by (auto simp: word_less_nat_alt unat_eq_zero)
  then have "unat x div unat base \<noteq> 0" by (simp add: unat_div)
  then have "0 < unat x" by (metis div_0 gr0I)
  with b have "unat x div unat base < unat x" by simp
  then show "((digits, base, x div base), digits, base, x) \<in> measure (\<lambda>(d, b, x). unat x)"
    by (simp add: unat_div)
qed

declare digit_buf.simps [simp del]

definition printint :: "u8 list \<Rightarrow> u64 \<Rightarrow> u64 \<Rightarrow> bool \<Rightarrow> u8 list" where
  "printint digits xx base sg =
     (let neg = (sg \<and> sint xx < 0);
          x = (if neg then - xx else xx);
          buf = digit_buf digits base x;
          buf = (if neg then buf @ [ch (CHR ''-'')] else buf)
      in rev buf)"

fun printptr_loop :: "nat \<Rightarrow> u8 list \<Rightarrow> u64 \<Rightarrow> u8 list" where
  "printptr_loop 0 digits x = []"
| "printptr_loop (Suc k) digits x = digits ! unat (drop_bit 60 x) # printptr_loop k digits (push_bit 4 x)"

definition printptr :: "u8 list \<Rightarrow> u64 \<Rightarrow> u8 list" where
  "printptr digits x = ascii ''0x'' @ printptr_loop 16 digits x"

section \<open>Arguments\<close>

datatype varg = VInt u64 | VStr "u8 list option"

text \<open>\<open>va_arg(ap, T)\<close> as the source converts it before passing it on.\<close>

definition va_int :: "u64 \<Rightarrow> u64" where "va_int x = scast (ucast x :: u32)"
definition va_uint32 :: "u64 \<Rightarrow> u64" where "va_uint32 x = ucast (ucast x :: u32)"

definition str_or_null :: "u8 list option \<Rightarrow> u8 list" where
  "str_or_null s = (case s of None \<Rightarrow> ascii ''(null)'' | Some t \<Rightarrow> t)"

text \<open>
  What one conversion prints: the bytes, how many characters after \<open>c0\<close> it takes, and the
  remaining arguments.  \<open>putc\<close> is how the printer writes the argument of \<open>%c\<close>.
\<close>

fun conv :: "(u64 \<Rightarrow> u8 list) \<Rightarrow> u8 list \<Rightarrow> u8 \<Rightarrow> u8 \<Rightarrow> u8 \<Rightarrow> varg list \<Rightarrow> (u8 list \<times> nat \<times> varg list) option" where
  "conv putc digits c0 c1 c2 args =
     (let int = (\<lambda>f base sg skip. case args of VInt x # args \<Rightarrow> Some (printint digits (f x) base sg, skip, args) | _ \<Rightarrow> None)
      in if c0 = ch (CHR ''d'') then int va_int 10 True 0
         else if c0 = ch (CHR ''l'') \<and> c1 = ch (CHR ''d'') then int id 10 True 1
         else if c0 = ch (CHR ''l'') \<and> c1 = ch (CHR ''l'') \<and> c2 = ch (CHR ''d'') then int id 10 True 2
         else if c0 = ch (CHR ''u'') then int va_uint32 10 False 0
         else if c0 = ch (CHR ''l'') \<and> c1 = ch (CHR ''u'') then int id 10 False 1
         else if c0 = ch (CHR ''l'') \<and> c1 = ch (CHR ''l'') \<and> c2 = ch (CHR ''u'') then int id 10 False 2
         else if c0 = ch (CHR ''x'') then int va_uint32 16 False 0
         else if c0 = ch (CHR ''l'') \<and> c1 = ch (CHR ''x'') then int id 16 False 1
         else if c0 = ch (CHR ''l'') \<and> c1 = ch (CHR ''l'') \<and> c2 = ch (CHR ''x'') then int id 16 False 2
         else if c0 = ch (CHR ''p'') then
           (case args of VInt x # args \<Rightarrow> Some (printptr digits x, 0, args) | _ \<Rightarrow> None)
         else if c0 = ch (CHR ''c'') then
           (case args of VInt x # args \<Rightarrow> Some (putc x, 0, args) | _ \<Rightarrow> None)
         else if c0 = ch (CHR ''s'') then
           (case args of VStr s # args \<Rightarrow> Some (str_or_null s, 0, args) | _ \<Rightarrow> None)
         else if c0 = ch (CHR ''%'') then Some ([ch (CHR ''%'')], 0, args)
         else Some ([ch (CHR ''%''), c0], 0, args))"

declare conv.simps [simp del]

definition nth0 :: "u8 list \<Rightarrow> nat \<Rightarrow> u8" where
  "nth0 xs i = (if i < length xs then xs ! i else 0)"

section \<open>kernel/printf.c\<close>

definition kdigits :: "u8 list" where "kdigits = ascii ''0123456789abcdef''"

text \<open>\<open>consputc\<close> of a \<open>%c\<close> argument: 0x100 is the code of a rub-out.\<close>

definition kputc :: "u64 \<Rightarrow> u8 list" where
  "kputc x = (if (ucast x :: u32) = 0x100 then [8, 32, 8] else [ucast x])"

function kprintf :: "u8 list \<Rightarrow> varg list \<Rightarrow> u8 list option" where
  "kprintf fmt args =
     (if nth0 fmt 0 = 0 then Some []
      else if nth0 fmt 0 \<noteq> ch (CHR ''%'') then map_option (Cons (nth0 fmt 0)) (kprintf (drop 1 fmt) args)
      else let c0 = nth0 fmt 1;
               c1 = (if c0 \<noteq> 0 then nth0 fmt 2 else 0);
               c2 = (if c1 \<noteq> 0 then nth0 fmt 3 else 0)
           in if c0 = 0 then Some []
              else case conv kputc kdigits c0 c1 c2 args of
                     None \<Rightarrow> None
                   | Some (out, skip, args) \<Rightarrow> map_option (append out) (kprintf (drop (2 + skip) fmt) args))"
  by pat_completeness auto
termination
  by (relation "measure (\<lambda>(fmt, args). length fmt)") (auto simp: nth0_def split: if_splits)

declare kprintf.simps [simp del]

section \<open>user/printf.c\<close>

definition udigits :: "u8 list" where "udigits = ascii ''0123456789ABCDEF''"

definition uputc :: "u64 \<Rightarrow> u8 list" where
  "uputc x = [ucast x]"

text \<open>The loop of \<open>vprintf\<close> with its variable \<open>state\<close>, which is 0 or \<open>'%'\<close>.\<close>

function vprintf_loop :: "bool \<Rightarrow> u8 list \<Rightarrow> varg list \<Rightarrow> u8 list option" where
  "vprintf_loop percent fmt args =
     (if nth0 fmt 0 = 0 then Some []
      else let c0 = nth0 fmt 0
           in if \<not> percent then
                if c0 = ch (CHR ''%'') then vprintf_loop True (drop 1 fmt) args
                else map_option (Cons c0) (vprintf_loop False (drop 1 fmt) args)
              else let c1 = (if c0 \<noteq> 0 then nth0 fmt 1 else 0);
                       c2 = (if c1 \<noteq> 0 then nth0 fmt 2 else 0)
                   in case conv uputc udigits c0 c1 c2 args of
                        None \<Rightarrow> None
                      | Some (out, skip, args) \<Rightarrow> map_option (append out) (vprintf_loop False (drop (1 + skip) fmt) args))"
  by pat_completeness auto
termination
  by (relation "measure (\<lambda>(percent, fmt, args). length fmt)") (auto simp: nth0_def split: if_splits)

declare vprintf_loop.simps [simp del]

definition vprintf :: "u8 list \<Rightarrow> varg list \<Rightarrow> u8 list option" where
  "vprintf fmt args = vprintf_loop False fmt args"

end
