(* ===== verification/Addrspace.thy ===== *)
theory Addrspace
  imports Vm
begin

text \<open>
  What the page tables of \<open>Vm\<close> mean: the translation a table gives, the entries it rests on, and
  the copies between kernel and user space in terms of it.
\<close>

section \<open>Translation\<close>

text \<open>The entry a walk without allocation ends at, 0 when a level is missing, and all entries it reads.\<close>

fun leaf :: "nat \<Rightarrow> u64 \<Rightarrow> u64 \<Rightarrow> memory \<Rightarrow> u64" where
  "leaf 0 pt va m = pt + 8 * PX 0 va"
| "leaf (Suc l) pt va m =
     (let e = load64 m (pt + 8 * PX (Suc l) va)
      in if e AND PTE_V \<noteq> 0 then leaf l (PTE2PA e) va m else 0)"

fun slots :: "nat \<Rightarrow> u64 \<Rightarrow> u64 \<Rightarrow> memory \<Rightarrow> u64 list" where
  "slots 0 pt va m = [pt + 8 * PX 0 va]"
| "slots (Suc l) pt va m =
     (let a = pt + 8 * PX (Suc l) va; e = load64 m a
      in a # (if e AND PTE_V \<noteq> 0 then slots l (PTE2PA e) va m else []))"

definition upage :: "u64 \<Rightarrow> u64 \<Rightarrow> memory \<Rightarrow> u64" where
  "upage pt va m =
     (if va \<ge> MAXVA then 0
      else let e = leaf 2 pt va m
           in if e = 0 \<or> load64 m e AND PTE_V = 0 \<or> load64 m e AND PTE_U = 0 then 0
              else PTE2PA (load64 m e))"

definition uwritable :: "u64 \<Rightarrow> u64 \<Rightarrow> memory \<Rightarrow> bool" where
  "uwritable pt va m = (upage pt va m \<noteq> 0 \<and> load64 m (leaf 2 pt va m) AND PTE_W \<noteq> 0)"

text \<open>The physical address of a user byte.\<close>

definition ubyte :: "u64 \<Rightarrow> u64 \<Rightarrow> memory \<Rightarrow> u64" where
  "ubyte pt va m = upage pt (PGROUNDDOWN va) m + (va - PGROUNDDOWN va)"

lemma walk_loop_leaf: "walk_loop l pt va False s = (leaf l pt va (mem s), s)"
  by (induction l arbitrary: pt) (simp_all add: Let_def)

lemma walk_leaf: "walk pt va False s = (if va \<ge> MAXVA then Panic ''walk'' else Done (leaf 2 pt va (mem s)) s)"
  by (simp add: walk_def walk_loop_leaf)

lemma walkaddr_upage: "walkaddr pt va s = Done (upage pt va (mem s)) s"
  by (simp add: walkaddr_def walk_leaf upage_def Let_def)

lemma user_page_mapped: "upage pt va (mem s) \<noteq> 0 \<Longrightarrow> user_page pt va s = Done (upage pt va (mem s)) s"
  by (simp add: user_page_def walkaddr_upage)

text \<open>A change of memory that leaves the entries of a walk alone leaves the walk alone.\<close>

lemma leaf_cong:
  "(\<And>a. a \<in> set (slots l pt va m) \<Longrightarrow> load64 m' a = load64 m a)
   \<Longrightarrow> leaf l pt va m' = leaf l pt va m \<and> slots l pt va m' = slots l pt va m"
  by (induction l arbitrary: pt) (auto simp: Let_def)

lemma leaf_in_slots: "leaf l pt va m = 0 \<or> leaf l pt va m \<in> set (slots l pt va m)"
  by (induction l arbitrary: pt) (auto simp: Let_def)

lemma upage_cong:
  assumes "\<And>a. a \<in> set (slots 2 pt va m) \<Longrightarrow> load64 m' a = load64 m a"
  shows "upage pt va m' = upage pt va m" and "uwritable pt va m' = uwritable pt va m"
    and "slots 2 pt va m' = slots 2 pt va m"
proof -
  have l: "leaf 2 pt va m' = leaf 2 pt va m" and s: "slots 2 pt va m' = slots 2 pt va m"
    using leaf_cong [OF assms] by auto
  have "leaf 2 pt va m = 0 \<or> load64 m' (leaf 2 pt va m) = load64 m (leaf 2 pt va m)"
    using leaf_in_slots [of 2 pt va m] assms by auto
  then show u: "upage pt va m' = upage pt va m" by (auto simp: upage_def l Let_def)
  show "slots 2 pt va m' = slots 2 pt va m" by (rule s)
  have "upage pt va m \<noteq> 0 \<Longrightarrow> leaf 2 pt va m \<noteq> 0" by (auto simp: upage_def Let_def split: if_splits)
  then show "uwritable pt va m' = uwritable pt va m"
    using leaf_in_slots [of 2 pt va m] assms by (auto simp: uwritable_def u l)
qed

section \<open>Positions within a page\<close>

lemma PGROUNDDOWN_add:
  assumes "i < 4096 - unat va mod 4096"
  shows "PGROUNDDOWN (va + of_nat i) = PGROUNDDOWN va"
proof -
  define k where "k = unat va div 4096"
  have k: "unat va = 4096 * k + unat va mod 4096" by (simp add: k_def)
  have "4096 * k \<le> unat va" using k by linarith
  also have "unat va < 4096 * 4503599627370496" using unsigned_less [of va] by simp
  finally have "k < 4503599627370496" by simp
  with k assms have le: "unat va + i < 2 ^ 64" by simp
  have m: "(unat va + i) mod 4096 = unat va mod 4096 + i"
    using assms by (metis add.commute less_diff_conv mod_add_left_eq mod_less)
  have "unat (PGROUNDDOWN (va + of_nat i)) = unat va + i - (unat va + i) mod 4096"
    by (simp only: unat_PGROUNDDOWN unat_add_of_nat [OF le])
  also have "\<dots> = unat (PGROUNDDOWN va)" using m by (simp add: unat_PGROUNDDOWN)
  finally show ?thesis by (simp only: word_unat_eq_iff)
qed

lemma ubyte_add:
  "i < 4096 - unat va mod 4096 \<Longrightarrow> ubyte pt (va + of_nat i) m = ubyte pt va m + of_nat i"
  by (simp add: ubyte_def PGROUNDDOWN_add)

lemma chunk_eq: "chunk va len = min len (4096 - unat va mod 4096)"
  by (simp add: chunk_def page_rest Let_def min_def)

lemma next_chunk: "PGROUNDDOWN va + 4096 = va + of_nat (4096 - unat va mod 4096)"
proof -
  have "of_nat (4096 - unat va mod 4096) = PGSIZE - (va - PGROUNDDOWN va)"
    using page_rest [of va] by (metis of_nat_unat ucast_id)
  then show ?thesis by simp
qed

section \<open>Copies\<close>

lemma read_bytes_ubyte:
  "n \<le> 4096 - unat va mod 4096 \<Longrightarrow>
   read_bytes m (upage pt (PGROUNDDOWN va) m + (va - PGROUNDDOWN va)) n = map (\<lambda>i. m (ubyte pt (va + of_nat i) m)) [0..<n]"
  by (simp add: read_bytes_def ubyte_add flip: ubyte_def)

lemma copyin_mapped:
  assumes "\<And>i. i < len \<Longrightarrow> upage pt (PGROUNDDOWN (va + of_nat i)) (mem s) \<noteq> 0"
  shows "copyin pt va len s = Done (0, map (\<lambda>i. mem s (ubyte pt (va + of_nat i) (mem s))) [0..<len]) s"
  using assms
proof (induction len arbitrary: va rule: less_induct)
  case (less len)
  show ?case
  proof (cases "len = 0")
    case True
    then show ?thesis by (simp add: copyin.simps)
  next
    case False
    let ?n = "chunk va len"
    have n: "0 < ?n" "?n \<le> len" "?n \<le> 4096 - unat va mod 4096" using False by (simp_all add: chunk_pos chunk_le)
    have m0: "upage pt (PGROUNDDOWN va) (mem s) \<noteq> 0" using less.prems [of 0] False by simp
    have next_va: "PGROUNDDOWN va + 4096 + of_nat i = va + of_nat (?n + i)" if "i < len - ?n" for i
    proof -
      have "?n = 4096 - unat va mod 4096" using that by (simp add: chunk_eq min_def split: if_splits)
      then show ?thesis by (simp add: next_chunk)
    qed
    have "copyin pt (PGROUNDDOWN va + 4096) (len - ?n) s
        = Done (0, map (\<lambda>i. mem s (ubyte pt (PGROUNDDOWN va + 4096 + of_nat i) (mem s))) [0..<len - ?n]) s"
    proof (rule less.IH)
      show "len - ?n < len" using n False by simp
      show "upage pt (PGROUNDDOWN (PGROUNDDOWN va + 4096 + of_nat i)) (mem s) \<noteq> 0" if "i < len - ?n" for i
        using less.prems [of "?n + i"] that by (simp only: next_va [OF that]) simp
    qed
    also have "map (\<lambda>i. mem s (ubyte pt (PGROUNDDOWN va + 4096 + of_nat i) (mem s))) [0..<len - ?n]
        = map (\<lambda>i. mem s (ubyte pt (va + of_nat i) (mem s))) [?n..<len]"
      using next_va by (intro nth_equalityI) (simp_all add: add.assoc)
    finally have rest: "copyin pt (PGROUNDDOWN va + 4096) (len - ?n) s
        = Done (0, map (\<lambda>i. mem s (ubyte pt (va + of_nat i) (mem s))) [?n..<len]) s" .
    have "[0..<len] = [0..<?n] @ [?n..<len]" using n by (metis le_add_diff_inverse upt_add_eq_append zero_le)
    then show ?thesis
      using False m0 n
      by (simp add: copyin.simps [of pt va len] user_page_mapped read_bytes_ubyte rest Let_def)
  qed
qed

text \<open>
  A buffer of the user: every page of it mapped and writable, no two of its bytes in one place,
  and none of them in an entry that translates it.
\<close>

definition user_buffer :: "u64 \<Rightarrow> u64 \<Rightarrow> nat \<Rightarrow> memory \<Rightarrow> bool" where
  "user_buffer pt va n m \<longleftrightarrow>
     (\<forall>i<n. uwritable pt (PGROUNDDOWN (va + of_nat i)) m) \<and>
     inj_on (\<lambda>i. ubyte pt (va + of_nat i) m) {..<n} \<and>
     (\<forall>i<n. \<forall>j<n. \<forall>a\<in>set (slots 2 pt (PGROUNDDOWN (va + of_nat i)) m).
        \<not> unat (ubyte pt (va + of_nat j) m - a) < 8)"

definition put_bytes :: "(nat \<Rightarrow> u64) \<Rightarrow> u8 list \<Rightarrow> memory \<Rightarrow> memory" where
  "put_bytes f bs m = fold (\<lambda>i m. m(f i := bs ! i)) [0..<length bs] m"

lemma put_bytes_Nil [simp]: "put_bytes f [] m = m"
  by (simp add: put_bytes_def)

lemma put_bytes_snoc: "put_bytes f (bs @ [b]) m = (put_bytes f bs m)(f (length bs) := b)"
proof -
  have "fold (\<lambda>i m. m(f i := (bs @ [b]) ! i)) [0..<length bs] m = fold (\<lambda>i m. m(f i := bs ! i)) [0..<length bs] m"
    by (intro fold_cong) (simp_all add: nth_append)
  then show ?thesis by (simp add: put_bytes_def)
qed

lemma put_bytes_append: "put_bytes f (as @ bs) m = put_bytes (\<lambda>i. f (length as + i)) bs (put_bytes f as m)"
  by (induction bs rule: rev_induct) (simp_all add: put_bytes_snoc flip: append_assoc)

lemma put_bytes_other: "(\<And>i. i < length bs \<Longrightarrow> a \<noteq> f i) \<Longrightarrow> put_bytes f bs m a = m a"
  by (induction bs rule: rev_induct) (simp_all add: put_bytes_snoc)

lemma put_bytes_at:
  "inj_on f {..<length bs} \<Longrightarrow> i < length bs \<Longrightarrow> put_bytes f bs m (f i) = bs ! i"
proof (induction bs rule: rev_induct)
  case (snoc b bs)
  then have "inj_on f {..<length bs}" by (rule_tac inj_on_subset) auto
  moreover have "f i \<noteq> f (length bs)" if "i < length bs"
    using that snoc.prems by (auto simp: inj_on_def)
  ultimately show ?case using snoc by (cases "i = length bs") (auto simp: put_bytes_snoc nth_append)
qed simp

lemma put_bytes_cong: "(\<And>i. i < length bs \<Longrightarrow> f i = g i) \<Longrightarrow> put_bytes f bs m = put_bytes g bs m"
  by (induction bs rule: rev_induct) (simp_all add: put_bytes_snoc)

lemma write_bytes_put: "length bs \<le> 4096 \<Longrightarrow> write_bytes a bs m = put_bytes (\<lambda>i. a + of_nat i) bs m"
proof
  fix x assume l: "length bs \<le> 4096"
  have inj: "inj_on (\<lambda>i. a + of_nat i :: u64) {..<length bs}"
  proof (rule inj_onI)
    fix i j assume "i \<in> {..<length bs}" "j \<in> {..<length bs}" "a + of_nat i = a + (of_nat j :: u64)"
    then have "unat (of_nat i :: u64) = unat (of_nat j :: u64)" "i < 4096" "j < 4096" using l by auto
    then show "i = j" by (simp add: unat_of_nat)
  qed
  show "write_bytes a bs m x = put_bytes (\<lambda>i. a + of_nat i) bs m x"
  proof (cases "unat (x - a) < length bs")
    case True
    then have "put_bytes (\<lambda>i. a + of_nat i) bs m (a + of_nat (unat (x - a))) = bs ! unat (x - a)"
      using put_bytes_at [OF inj] by blast
    with True show ?thesis by (simp add: write_bytes_def)
  next
    case False
    have "x \<noteq> a + of_nat i" if "i < length bs" for i
      using False that l by (auto simp: unat_of_nat)
    with False show ?thesis by (simp add: write_bytes_def put_bytes_other)
  qed
qed

lemma load64_put_bytes:
  assumes "\<And>j. j < length bs \<Longrightarrow> \<not> unat (f j - a) < 8"
  shows "load64 (put_bytes f bs m) a = load64 m a"
proof (rule load64_cong)
  fix i :: nat assume "i < 8"
  then have "unat (a + of_nat i - a) < 8" by (simp add: unat_of_nat)
  then have "a + of_nat i \<noteq> f j" if "j < length bs" for j
    using assms [OF that] by metis
  then show "put_bytes f bs m (a + of_nat i) = m (a + of_nat i)" by (simp add: put_bytes_other)
qed

lemma user_buffer_stable:
  assumes ub: "user_buffer pt va n m" and k: "length bs \<le> n" and i: "i < n"
  defines "m' \<equiv> put_bytes (\<lambda>j. ubyte pt (va + of_nat j) m) bs m"
  shows "ubyte pt (va + of_nat i) m' = ubyte pt (va + of_nat i) m"
    and "uwritable pt (PGROUNDDOWN (va + of_nat i)) m' = uwritable pt (PGROUNDDOWN (va + of_nat i)) m"
    and "slots 2 pt (PGROUNDDOWN (va + of_nat i)) m' = slots 2 pt (PGROUNDDOWN (va + of_nat i)) m"
proof -
  have "load64 m' a = load64 m a" if "a \<in> set (slots 2 pt (PGROUNDDOWN (va + of_nat i)) m)" for a
    unfolding m'_def
  proof (rule load64_put_bytes)
    fix j assume "j < length bs"
    with ub k i that show "\<not> unat (ubyte pt (va + of_nat j) m - a) < 8" unfolding user_buffer_def by auto
  qed
  note c = upage_cong [where pt = pt and va = "PGROUNDDOWN (va + of_nat i)" and m = m and m' = m', OF this]
  show "ubyte pt (va + of_nat i) m' = ubyte pt (va + of_nat i) m" by (simp add: ubyte_def c)
  show "uwritable pt (PGROUNDDOWN (va + of_nat i)) m' = uwritable pt (PGROUNDDOWN (va + of_nat i)) m"
    and "slots 2 pt (PGROUNDDOWN (va + of_nat i)) m' = slots 2 pt (PGROUNDDOWN (va + of_nat i)) m" by (simp_all add: c)
qed

lemma user_buffer_rest:
  assumes ub: "user_buffer pt va n m" and k: "length bs \<le> n"
  shows "user_buffer pt (va + of_nat (length bs)) (n - length bs) (put_bytes (\<lambda>j. ubyte pt (va + of_nat j) m) bs m)"
proof -
  note st = user_buffer_stable [OF ub k]
  have sh: "va + of_nat (length bs) + of_nat i = va + of_nat (length bs + i)" for i by (simp add: add.assoc)
  have "inj_on (\<lambda>i. ubyte pt (va + of_nat (length bs + i)) m) {..<n - length bs}"
  proof (rule inj_onI)
    fix x y assume *: "x \<in> {..<n - length bs}" "y \<in> {..<n - length bs}"
      "ubyte pt (va + of_nat (length bs + x)) m = ubyte pt (va + of_nat (length bs + y)) m"
    have inj: "inj_on (\<lambda>i. ubyte pt (va + of_nat i) m) {..<n}" using ub by (simp add: user_buffer_def)
    from inj_onD [OF inj *(3)] * show "x = y" by auto
  qed
  then have "inj_on (\<lambda>i. ubyte pt (va + of_nat (length bs + i)) (put_bytes (\<lambda>j. ubyte pt (va + of_nat j) m) bs m)) {..<n - length bs}"
    by (simp add: st inj_on_def del: of_nat_add)
  moreover have "\<not> unat (ubyte pt (va + of_nat (length bs + j)) m - a) < 8"
    if "i < n - length bs" "j < n - length bs" "a \<in> set (slots 2 pt (PGROUNDDOWN (va + of_nat (length bs + i))) m)" for i j a
  proof -
    have "length bs + i < n" "length bs + j < n" using that by simp_all
    with ub that(3) show ?thesis unfolding user_buffer_def by blast
  qed
  ultimately show ?thesis using ub unfolding user_buffer_def sh by (simp add: st del: of_nat_add)
qed

lemma copyout_mapped:
  assumes "user_buffer pt va (length src) (mem s)"
  shows "copyout pt va src s = Done 0 (s\<lparr>mem := put_bytes (\<lambda>i. ubyte pt (va + of_nat i) (mem s)) src (mem s)\<rparr>)"
  using assms
proof (induction "length src" arbitrary: va src s rule: less_induct)
  case (less src va s)
  show ?case
  proof (cases "src = []")
    case True
    then show ?thesis by (simp add: copyout.simps)
  next
    case False
    let ?n = "chunk va (length src)" and ?f = "\<lambda>i. ubyte pt (va + of_nat i) (mem s)"
    let ?as = "take ?n src" and ?bs = "drop ?n src"
    let ?s = "s\<lparr>mem := put_bytes ?f ?as (mem s)\<rparr>"
    have n: "0 < ?n" "?n \<le> length src" "?n \<le> 4096 - unat va mod 4096" using False by (simp_all add: chunk_pos chunk_le)
    have len: "length ?as = ?n" using n by simp
    have w: "uwritable pt (PGROUNDDOWN va) (mem s)" using less.prems False by (auto simp: user_buffer_def)
    then have m0: "upage pt (PGROUNDDOWN va) (mem s) \<noteq> 0" "PGROUNDDOWN va < MAXVA" "leaf 2 pt (PGROUNDDOWN va) (mem s) \<noteq> 0"
      by (auto simp: uwritable_def upage_def Let_def split: if_splits)
    have wb: "write_bytes (upage pt (PGROUNDDOWN va) (mem s) + (va - PGROUNDDOWN va)) ?as (mem s) = put_bytes ?f ?as (mem s)"
    proof -
      have "write_bytes (ubyte pt va (mem s)) ?as (mem s) = put_bytes (\<lambda>i. ubyte pt va (mem s) + of_nat i) ?as (mem s)"
        using n len by (intro write_bytes_put) simp
      also have "\<dots> = put_bytes ?f ?as (mem s)" using n len by (intro put_bytes_cong) (simp add: ubyte_add)
      finally show ?thesis by (simp add: ubyte_def)
    qed
    have "copyout pt (PGROUNDDOWN va + 4096) ?bs ?s = Done 0 (s\<lparr>mem := put_bytes ?f src (mem s)\<rparr>)"
    proof (cases "?bs = []")
      case True
      then have "?as = src" by simp
      with True show ?thesis by (simp add: copyout.simps)
    next
      case False
      then have "?n = 4096 - unat va mod 4096" by (simp add: chunk_eq min_def split: if_splits)
      then have nx: "PGROUNDDOWN va + 4096 = va + of_nat ?n" by (simp add: next_chunk)
      have ub: "user_buffer pt (va + of_nat ?n) (length ?bs) (mem ?s)"
        using user_buffer_rest [OF less.prems, of ?as] len n by simp
      have "ubyte pt (va + of_nat ?n + of_nat i) (mem ?s) = ?f (?n + i)" if "i < length ?bs" for i
        using user_buffer_stable(1) [OF less.prems, of ?as "?n + i"] len n that by (simp add: add.assoc)
      then have "put_bytes (\<lambda>i. ubyte pt (va + of_nat ?n + of_nat i) (mem ?s)) ?bs (mem ?s)
          = put_bytes (\<lambda>i. ?f (?n + i)) ?bs (mem ?s)" by (intro put_bytes_cong)
      then have "copyout pt (PGROUNDDOWN va + 4096) ?bs ?s
          = Done 0 (?s\<lparr>mem := put_bytes (\<lambda>i. ?f (?n + i)) ?bs (mem ?s)\<rparr>)"
        using less.hyps [OF _ ub] n \<open>src \<noteq> []\<close> unfolding nx by simp
      also have "put_bytes (\<lambda>i. ?f (?n + i)) ?bs (mem ?s) = put_bytes ?f src (mem s)"
        using put_bytes_append [of ?f ?as ?bs "mem s"] len by simp
      finally show ?thesis by simp
    qed
    with False m0 w show ?thesis
      by (simp add: copyout.simps [of pt va src] user_page_mapped walk_leaf uwritable_def Let_def wb)
  qed
qed

text \<open>C25: \<open>copyout\<close> to a buffer of the user succeeds, stores the bytes at the places the page table
  gives them and changes nothing else.\<close>

theorem copyout_exact:
  assumes "user_buffer pt va (length src) (mem s)"
  shows "\<exists>m. copyout pt va src s = Done 0 (s\<lparr>mem := m\<rparr>)
    \<and> (\<forall>i<length src. m (ubyte pt (va + of_nat i) (mem s)) = src ! i)
    \<and> (\<forall>a. a \<notin> (\<lambda>i. ubyte pt (va + of_nat i) (mem s)) ` {..<length src} \<longrightarrow> m a = mem s a)"
proof (intro exI conjI allI impI)
  let ?f = "\<lambda>i. ubyte pt (va + of_nat i) (mem s)"
  have inj: "inj_on ?f {..<length src}" using assms by (simp add: user_buffer_def)
  show "copyout pt va src s = Done 0 (s\<lparr>mem := put_bytes ?f src (mem s)\<rparr>)" by (rule copyout_mapped [OF assms])
  show "put_bytes ?f src (mem s) (ubyte pt (va + of_nat i) (mem s)) = src ! i" if "i < length src" for i
    using put_bytes_at [OF inj that] by simp
  show "put_bytes ?f src (mem s) a = mem s a" if "a \<notin> ?f ` {..<length src}" for a
    using that by (intro put_bytes_other) auto
qed

lemma put_bytes_read_back:
  assumes "user_buffer pt va (length src) m" and "m' = put_bytes (\<lambda>i. ubyte pt (va + of_nat i) m) src m"
  shows "map (\<lambda>i. m' (ubyte pt (va + of_nat i) m')) [0..<length src] = src"
proof -
  have "inj_on (\<lambda>i. ubyte pt (va + of_nat i) m) {..<length src}" using assms by (simp add: user_buffer_def)
  then show ?thesis
    using put_bytes_at user_buffer_stable(1) [OF assms(1) order_refl] by (intro nth_equalityI) (simp_all add: assms(2))
qed

text \<open>C26: what \<open>copyout\<close> has stored in a buffer of the user, \<open>copyin\<close> reads back.\<close>

theorem copyin_copyout:
  assumes ub: "user_buffer pt va (length src) (mem s)"
  shows "obind (copyout pt va src s) (\<lambda>r s. copyin pt va (length src) s)
       = obind (copyout pt va src s) (\<lambda>r s. Done (0, src) s)"
proof -
  let ?m = "put_bytes (\<lambda>i. ubyte pt (va + of_nat i) (mem s)) src (mem s)"
  note st = user_buffer_stable [OF ub order_refl]
  have "upage pt (PGROUNDDOWN (va + of_nat i)) ?m \<noteq> 0" if "i < length src" for i
    using st(2) [OF that] ub that by (auto simp: user_buffer_def uwritable_def)
  then have "copyin pt va (length src) (s\<lparr>mem := ?m\<rparr>)
      = Done (0, map (\<lambda>i. ?m (ubyte pt (va + of_nat i) ?m)) [0..<length src]) (s\<lparr>mem := ?m\<rparr>)"
    by (subst copyin_mapped) simp_all
  also have "map (\<lambda>i. ?m (ubyte pt (va + of_nat i) ?m)) [0..<length src] = src" by (rule put_bytes_read_back [OF ub refl])
  finally show ?thesis by (simp add: copyout_mapped [OF ub])
qed

section \<open>A small address space\<close>

text \<open>Three levels of tables and one user page at virtual address 0, readable and writable.\<close>

definition small_mem :: memory where
  "small_mem =
     store64 0x80001000 (PA2PTE 0x80002000 OR PTE_V)
       (store64 0x80002000 (PA2PTE 0x80003000 OR PTE_V)
         (store64 0x80003000 (PA2PTE 0x80004000 OR 0x17) (\<lambda>_. 0)))"

lemma load64_store64_page:
  assumes "p mod 4096 = (0 :: u64)" "q mod 4096 = (0 :: u64)" "p \<noteq> q"
  shows "load64 (store64 p v m) q = load64 m q"
proof (rule load64_cong)
  fix i :: nat assume "i < 8"
  then have "\<not> unat (q + of_nat i - p) < 8" using page_separate [OF assms, of i] by simp
  then show "store64 p v m (q + of_nat i) = m (q + of_nat i)" by (simp add: store64_def write_bytes_def)
qed

lemma small_mem_loads:
  "load64 small_mem 0x80001000 = 0x20000801" "load64 small_mem 0x80002000 = 0x20000C01"
  "load64 small_mem 0x80003000 = 0x20001017"
  by (simp_all add: small_mem_def load64_store64_page PA2PTE_def)

lemma small_entries:
  "PTE2PA 0x20000801 = 0x80002000" "PTE2PA 0x20000C01 = 0x80003000" "PTE2PA 0x20001017 = 0x80004000"
  by code_simp+

lemma PX_0 [simp]: "PX l 0 = 0"
  by (simp add: PX_def)

lemma walk_three_levels:
  "leaf 2 pt 0 m = (if load64 m pt AND PTE_V \<noteq> 0 then leaf 1 (PTE2PA (load64 m pt)) 0 m else 0)"
  "leaf 1 pt 0 m = (if load64 m pt AND PTE_V \<noteq> 0 then leaf 0 (PTE2PA (load64 m pt)) 0 m else 0)"
  "slots 2 pt 0 m = pt # (if load64 m pt AND PTE_V \<noteq> 0 then slots 1 (PTE2PA (load64 m pt)) 0 m else [])"
  "slots 1 pt 0 m = pt # (if load64 m pt AND PTE_V \<noteq> 0 then slots 0 (PTE2PA (load64 m pt)) 0 m else [])"
  by (simp_all add: numeral_2_eq_2 Let_def)

lemma small_space:
  "leaf 2 0x80001000 0 small_mem = 0x80003000"
  "slots 2 0x80001000 0 small_mem = [0x80001000, 0x80002000, 0x80003000]"
  "upage 0x80001000 0 small_mem = 0x80004000" "uwritable 0x80001000 0 small_mem"
  by (simp_all add: walk_three_levels small_mem_loads small_entries upage_def uwritable_def del: One_nat_def)

lemma small_round: "i < 2 \<Longrightarrow> PGROUNDDOWN (16 + of_nat i) = 0"
  by (auto simp: less_2_cases_iff PGROUNDDOWN_def)

lemma small_buffer: "user_buffer 0x80001000 16 2 small_mem"
proof -
  have u: "ubyte 0x80001000 (16 + of_nat i) small_mem = 0x80004010 + of_nat i" if "i < 2" for i
    using that by (simp add: ubyte_def small_round small_space)
  have "inj_on (\<lambda>i. ubyte 0x80001000 (16 + of_nat i) small_mem) {..<2}"
    by (auto simp: inj_on_def u less_2_cases_iff)
  then show ?thesis
    by (auto simp: user_buffer_def small_round small_space u less_2_cases_iff)
qed

definition small_kernel :: kernel where
  "small_kernel = (zero_kernel zero_table (\<lambda>_. []))\<lparr>mem := small_mem\<rparr>"

lemma small_kernel_buffer: "user_buffer 0x80001000 16 (length [7, 9 :: u8]) (mem small_kernel)"
  using small_buffer by (simp add: small_kernel_def numeral_2_eq_2)

theorem copyout_exact_witness:
  "user_buffer 0x80001000 16 (length [7, 9 :: u8]) (mem small_kernel)
   \<and> (\<exists>m. copyout 0x80001000 16 [7, 9] small_kernel = Done 0 (small_kernel\<lparr>mem := m\<rparr>)
         \<and> (\<forall>i<length [7, 9 :: u8]. m (ubyte 0x80001000 (16 + of_nat i) (mem small_kernel)) = [7, 9] ! i))"
  using small_kernel_buffer copyout_exact [OF small_kernel_buffer] by blast

theorem copyin_copyout_witness:
  "user_buffer 0x80001000 16 (length [7, 9 :: u8]) (mem small_kernel)
   \<and> obind (copyout 0x80001000 16 [7, 9] small_kernel) (\<lambda>r s. copyin 0x80001000 16 (length [7, 9 :: u8]) s)
     = obind (copyout 0x80001000 16 [7, 9] small_kernel) (\<lambda>r s. Done (0, [7, 9]) s)"
  using small_kernel_buffer copyin_copyout [OF small_kernel_buffer] by blast

end
