(* ===== verification/Pagemap.thy ===== *)
theory Pagemap
  imports Addrspace
begin

text \<open>
  Page tables as maps from virtual pages to entries.  A table in memory is well formed when its
  pages form a tree; then \<open>walk\<close> with allocation, \<open>mappages\<close> and \<open>uvmunmap\<close> act on the map as the
  obvious updates.
\<close>

section \<open>Trees of tables\<close>

definition ent :: "memory \<Rightarrow> u64 \<Rightarrow> nat \<Rightarrow> u64" where
  "ent m pt i = load64 m (pt + 8 * of_nat i)"

definition valid_pte :: "u64 \<Rightarrow> bool" where
  "valid_pte e \<longleftrightarrow> e AND PTE_V \<noteq> 0"

definition table_page :: "u64 \<Rightarrow> bool" where
  "table_page pt \<longleftrightarrow> pt mod 4096 = 0 \<and> pt \<noteq> 0"

fun tables :: "nat \<Rightarrow> u64 \<Rightarrow> memory \<Rightarrow> u64 set" where
  "tables 0 pt m = {pt}"
| "tables (Suc l) pt m = insert pt (\<Union>i \<in> {i. i < 512 \<and> valid_pte (ent m pt i)}. tables l (PTE2PA (ent m pt i)) m)"

fun tree :: "nat \<Rightarrow> u64 \<Rightarrow> memory \<Rightarrow> bool" where
  "tree 0 pt m \<longleftrightarrow> table_page pt"
| "tree (Suc l) pt m \<longleftrightarrow> table_page pt
     \<and> (\<forall>i<512. valid_pte (ent m pt i) \<longrightarrow> tree l (PTE2PA (ent m pt i)) m \<and> pt \<notin> tables l (PTE2PA (ent m pt i)) m)
     \<and> (\<forall>i<512. \<forall>j<512. i \<noteq> j \<longrightarrow> valid_pte (ent m pt i) \<longrightarrow> valid_pte (ent m pt j) \<longrightarrow>
          tables l (PTE2PA (ent m pt i)) m \<inter> tables l (PTE2PA (ent m pt j)) m = {})"

definition ix :: "nat \<Rightarrow> u64 \<Rightarrow> nat" where
  "ix l va = unat (PX l va)"

lemma ix_less: "ix l va < 512"
proof -
  have "PX l va = drop_bit (12 + 9 * l) va mod 512"
    using take_bit_eq_mask [of 9 "drop_bit (12 + 9 * l) va"]
    by (simp add: PX_def mask_eq_exp_minus_1 take_bit_eq_mod)
  then show ?thesis by (simp add: ix_def unat_mod)
qed

lemma PX_ix: "PX l va = of_nat (ix l va)"
  by (simp add: ix_def)


lemma tree_root: "tree l pt m \<Longrightarrow> table_page pt"
  by (cases l) simp_all


text \<open>Memories that agree on a set of pages.\<close>

definition agree :: "u64 set \<Rightarrow> memory \<Rightarrow> memory \<Rightarrow> bool" where
  "agree P m m' \<longleftrightarrow> (\<forall>p\<in>P. \<forall>i<4096. m' (p + of_nat i) = m (p + of_nat i))"

lemma agree_subset: "agree P m m' \<Longrightarrow> Q \<subseteq> P \<Longrightarrow> agree Q m m'"
  by (auto simp: agree_def)

lemma agree_refl [simp]: "agree P m m"
  by (simp add: agree_def)


lemma ent_agree: "agree P m m' \<Longrightarrow> pt \<in> P \<Longrightarrow> i < 512 \<Longrightarrow> ent m' pt i = ent m pt i"
proof -
  assume *: "agree P m m'" "pt \<in> P" "i < 512"
  have "m' (pt + 8 * of_nat i + of_nat k) = m (pt + 8 * of_nat i + of_nat k)" if "k < 8" for k
  proof -
    have "pt + 8 * of_nat i + of_nat k = pt + of_nat (8 * i + k)" by simp
    then show ?thesis using * that by (simp only:) (simp add: agree_def del: of_nat_add of_nat_mult)
  qed
  then show ?thesis by (simp add: ent_def load64_cong [of m' _ m])
qed

lemma leaf_ent: "leaf (Suc l) pt va m = (let e = ent m pt (ix (Suc l) va) in if valid_pte e then leaf l (PTE2PA e) va m else 0)"
  by (simp add: ent_def PX_ix valid_pte_def)







lemma leaf_agree: "agree (tables l pt m) m m' \<Longrightarrow> leaf l pt va m' = leaf l pt va m"
proof (induction l arbitrary: pt)
  case (Suc l)
  have e: "ent m' pt i = ent m pt i" if "i < 512" for i using ent_agree [OF Suc.prems _ that] by simp
  have "leaf l (PTE2PA (ent m pt i)) va m' = leaf l (PTE2PA (ent m pt i)) va m" if "i < 512" "valid_pte (ent m pt i)" for i
    using that by (intro Suc.IH agree_subset [OF Suc.prems]) auto
  then show ?case by (simp add: e ix_less leaf_ent Let_def del: leaf.simps)
qed simp


section \<open>Stores\<close>


lemma same_outside_refl [simp]: "same_outside p m m"
  by (simp add: same_outside_def)





section \<open>Walks that allocate\<close>










section \<open>The map of a page table\<close>

text \<open>
  The specification of a page table: a partial map from page-aligned virtual addresses below
  \<open>MAXVA\<close> to entries.
\<close>

definition vpage :: "u64 \<Rightarrow> bool" where
  "vpage va \<longleftrightarrow> va mod PGSIZE = 0 \<and> va < MAXVA"








section \<open>mappages\<close>



lemma next_vpage: "vpage va \<Longrightarrow> (va + PGSIZE) mod PGSIZE = 0"
proof -
  assume "vpage va"
  then have "unat va mod 4096 = 0" "unat va < 274877906944"
    by (auto simp: vpage_def word_less_nat_alt page_unat)
  moreover have "unat (va + 4096) = unat va + 4096"
    using \<open>unat va < 274877906944\<close> unat_add_of_nat [of va 4096] by simp
  ultimately have "unat (va + 4096) mod 4096 = 0" by simp
  then show ?thesis by (simp add: aligned_unat)
qed


definition only_mem :: "kernel \<Rightarrow> kernel \<Rightarrow> bool" where
  "only_mem s s' \<longleftrightarrow> (\<exists>m f. s' = s\<lparr>mem := m, freelist := f\<rparr>)"

lemma only_mem_refl [simp]: "only_mem s s"
  by (simp add: only_mem_def exI [of _ "mem s"] exI [of _ "freelist s"])


lemma only_mem_upd [intro]: "only_mem s s' \<Longrightarrow> only_mem s (s'\<lparr>mem := m\<rparr>)"
proof -
  assume "only_mem s s'"
  then obtain m' f where "s' = s\<lparr>mem := m', freelist := f\<rparr>" unfolding only_mem_def by blast
  then have "s'\<lparr>mem := m\<rparr> = s\<lparr>mem := m, freelist := f\<rparr>" by simp
  then show ?thesis unfolding only_mem_def by blast
qed










end
