(* ===== verification/Fifo.thy ===== *)
theory Fifo
  imports Pipe Addrspace
begin

text \<open>
  A pipe is a queue.  The locale \<open>bounded_fifo\<close> states what a bounded queue promises and proves
  once that any sequence of insertions and removals gives the elements back in order; the ring
  buffer of \<^verbatim>\<open>pipe.c\<close>, with its two free-running 32-bit counters, is an interpretation.  On top,
  \<open>pipewrite\<close> and \<open>piperead\<close> move bytes between user memory and that queue.
\<close>

section \<open>Bounded queues\<close>

locale bounded_fifo =
  fixes cap :: nat and ok :: "'s \<Rightarrow> bool" and elems :: "'s \<Rightarrow> 'e list"
    and full :: "'s \<Rightarrow> bool" and emp :: "'s \<Rightarrow> bool"
    and put :: "'e \<Rightarrow> 's \<Rightarrow> 's" and peek :: "'s \<Rightarrow> 'e" and del :: "'s \<Rightarrow> 's"
  assumes bounded: "ok s \<Longrightarrow> length (elems s) \<le> cap"
    and full_iff: "ok s \<Longrightarrow> full s \<longleftrightarrow> length (elems s) = cap"
    and emp_iff: "ok s \<Longrightarrow> emp s \<longleftrightarrow> elems s = []"
    and put_ok: "ok s \<Longrightarrow> \<not> full s \<Longrightarrow> ok (put x s)"
    and elems_put: "ok s \<Longrightarrow> \<not> full s \<Longrightarrow> elems (put x s) = elems s @ [x]"
    and peek_hd: "ok s \<Longrightarrow> \<not> emp s \<Longrightarrow> peek s = hd (elems s)"
    and del_ok: "ok s \<Longrightarrow> \<not> emp s \<Longrightarrow> ok (del s)"
    and elems_del: "ok s \<Longrightarrow> \<not> emp s \<Longrightarrow> elems (del s) = tl (elems s)"

text \<open>
  A run of requests: \<open>Some x\<close> asks to insert \<open>x\<close> and is refused when the queue is full, \<open>None\<close> asks
  to remove and is refused when it is empty.  The result is what went in, what came out, and the
  final state.
\<close>

fun fifo_run ::
  "('s \<Rightarrow> bool) \<Rightarrow> ('s \<Rightarrow> bool) \<Rightarrow> ('e \<Rightarrow> 's \<Rightarrow> 's) \<Rightarrow> ('s \<Rightarrow> 'e) \<Rightarrow> ('s \<Rightarrow> 's) \<Rightarrow> 'e option list \<Rightarrow> 's \<Rightarrow> 'e list \<times> 'e list \<times> 's" where
  "fifo_run full emp put peek del [] s = ([], [], s)"
| "fifo_run full emp put peek del (Some x # rs) s =
     (if full s then fifo_run full emp put peek del rs s
      else let (ins, outs, t) = fifo_run full emp put peek del rs (put x s) in (x # ins, outs, t))"
| "fifo_run full emp put peek del (None # rs) s =
     (if emp s then fifo_run full emp put peek del rs s
      else let (ins, outs, t) = fifo_run full emp put peek del rs (del s) in (ins, peek s # outs, t))"

context bounded_fifo
begin

lemma run_fifo:
  "ok s \<Longrightarrow> fifo_run full emp put peek del rs s = (ins, outs, t) \<Longrightarrow> ok t \<and> elems s @ ins = outs @ elems t"
proof (induction rs arbitrary: s ins outs)
  case (Cons r rs)
  show ?case
  proof (cases r)
    case (Some x)
    show ?thesis
    proof (cases "full s")
      case True
      with Some Cons show ?thesis by simp
    next
      case False
      then obtain is' where "ins = x # is'" "fifo_run full emp put peek del rs (put x s) = (is', outs, t)"
        using Some Cons.prems by (auto split: prod.splits)
      with Cons.IH [of "put x s"] Cons.prems False show ?thesis by (simp add: put_ok elems_put)
    qed
  next
    case None
    show ?thesis
    proof (cases "emp s")
      case True
      with None Cons show ?thesis by simp
    next
      case False
      then obtain os' where o: "outs = peek s # os'" "fifo_run full emp put peek del rs (del s) = (ins, os', t)"
        using None Cons.prems by (auto split: prod.splits)
      have "elems s \<noteq> []" using False Cons.prems by (simp add: emp_iff)
      with Cons.IH [OF del_ok o(2)] Cons.prems False o show ?thesis
        by (cases "elems s") (simp_all add: elems_del peek_hd)
    qed
  qed
qed simp

lemma puts_append:
  "ok s \<Longrightarrow> length (elems s) + length xs \<le> cap \<Longrightarrow> ok (fold put xs s) \<and> elems (fold put xs s) = elems s @ xs"
proof (induction xs arbitrary: s)
  case (Cons x xs)
  then have "\<not> full s" by (simp add: full_iff)
  with Cons show ?case by (simp add: put_ok elems_put)
qed simp

lemma not_full_put: "ok s \<Longrightarrow> length (elems s) < cap \<Longrightarrow> \<not> full s"
  by (simp add: full_iff)

lemma dels_drop:
  "ok s \<Longrightarrow> n \<le> length (elems s) \<Longrightarrow> ok ((del ^^ n) s) \<and> elems ((del ^^ n) s) = drop n (elems s)"
proof (induction n)
  case (Suc n)
  then have "ok ((del ^^ n) s)" "elems ((del ^^ n) s) = drop n (elems s)" "\<not> emp ((del ^^ n) s)"
    by (auto simp: emp_iff)
  then show ?case by (simp add: del_ok elems_del drop_Suc tl_drop)
qed simp

end

section \<open>The ring buffer\<close>

definition pipe_ok :: "pipe \<Rightarrow> bool" where
  "pipe_ok p \<longleftrightarrow> length (pi_data p) = PIPESIZE \<and> unat (pi_nwrite p - pi_nread p) \<le> PIPESIZE"

definition pipe_bytes :: "pipe \<Rightarrow> u8 list" where
  "pipe_bytes p =
     map (\<lambda>i. pi_data p ! unat ((pi_nread p + of_nat i) mod 512)) [0..<unat (pi_nwrite p - pi_nread p)]"

lemma length_pipe_bytes: "length (pipe_bytes p) = unat (pi_nwrite p - pi_nread p)"
  by (simp add: pipe_bytes_def)

lemma unat_mod_512: "unat ((r + of_nat i :: u32) mod 512) = (unat r + i) mod 512"
proof -
  have "unat (r + of_nat i :: u32) mod 512 = (unat r + i mod 2 ^ 32) mod 2 ^ 32 mod 512"
    by (simp add: unat_word_ariths unat_of_nat)
  also have "\<dots> = (unat r + i) mod 512" by (simp add: mod_mod_cancel mod_add_right_eq flip: mod_add_eq [of _ _ 512])
  finally show ?thesis by (simp add: unat_mod)
qed

lemma ring_index_inj:
  assumes "i < 512" "j < 512" "(a + i) mod 512 = (a + j) mod (512 :: nat)"
  shows "i = j"
proof -
  have *: "y \<le> x" if "x \<le> y" "y < 512" "(a + x) mod 512 = (a + y) mod (512 :: nat)" for x y
  proof -
    have "512 dvd (a + y) - (a + x)" using that by (metis mod_eq_dvd_iff_nat add_left_mono)
    then have "512 dvd y - x" by simp
    then show ?thesis using that by (meson dvd_imp_le less_imp_diff_less not_less zero_less_diff)
  qed
  show ?thesis using *[of i j] *[of j i] assms by (metis le_antisym nat_le_linear)
qed

lemma counter_Suc:
  assumes "unat (w - r :: u32) < 512"
  shows "unat (w + 1 - r) = Suc (unat (w - r))"
proof -
  have "w + 1 - r = (w - r) + 1" by simp
  moreover have "unat ((w - r) + 1) = Suc (unat (w - r))"
    using assms by (simp add: unat_word_ariths)
  ultimately show ?thesis by (simp only:)
qed

lemma counter_pred:
  assumes "unat (w - r :: u32) \<noteq> 0"
  shows "unat (w - (r + 1)) = unat (w - r) - 1"
proof -
  have "w - r \<noteq> 0" using assms by (metis unat_0)
  then have "unat (w - r - 1) = unat (w - r) - 1" by (simp add: unat_minus_one)
  then show ?thesis by (simp add: diff_diff_eq)
qed

interpretation pq: bounded_fifo PIPESIZE pipe_ok pipe_bytes pipe_full pipe_empty pipe_put pipe_peek pipe_drop
proof
  fix p assume ok: "pipe_ok p"
  show "length (pipe_bytes p) \<le> PIPESIZE" using ok by (simp add: pipe_ok_def length_pipe_bytes)
  have f: "pipe_full p \<longleftrightarrow> unat (pi_nwrite p - pi_nread p) = 512"
  proof -
    have "pipe_full p \<longleftrightarrow> pi_nwrite p - pi_nread p = 512" by (auto simp: pipe_full_def algebra_simps)
    also have "\<dots> \<longleftrightarrow> unat (pi_nwrite p - pi_nread p) = 512" by (simp add: word_unat_eq_iff)
    finally show ?thesis .
  qed
  then show "pipe_full p \<longleftrightarrow> length (pipe_bytes p) = PIPESIZE" by (simp add: length_pipe_bytes)
  have e: "pipe_empty p \<longleftrightarrow> unat (pi_nwrite p - pi_nread p) = 0"
    by (auto simp: pipe_empty_def unat_eq_zero)
  then show "pipe_empty p \<longleftrightarrow> pipe_bytes p = []" by (simp add: pipe_bytes_def)
  fix x
  {
    assume "\<not> pipe_full p"
    with ok f have n: "unat (pi_nwrite p - pi_nread p) < 512" by (simp add: pipe_ok_def)
    note c = counter_Suc [OF n]
    from ok c n show "pipe_ok (pipe_put x p)" by (simp add: pipe_ok_def pipe_put_def)
    let ?n = "unat (pi_nwrite p - pi_nread p)"
    have w: "pi_nwrite p = pi_nread p + of_nat ?n" by simp
    have upd: "(pi_data p)[unat (pi_nwrite p mod 512) := x] ! unat ((pi_nread p + of_nat i) mod 512)
        = (if i = ?n then x else pi_data p ! unat ((pi_nread p + of_nat i) mod 512))" if "i \<le> ?n" for i
    proof -
      have "unat ((pi_nread p + of_nat i) mod 512) = unat (pi_nwrite p mod 512) \<longleftrightarrow> i = ?n"
        using that n ring_index_inj [of i ?n "unat (pi_nread p)"] by (subst w) (auto simp: unat_mod_512 simp del: of_nat_unat)
      moreover have "unat (pi_nwrite p mod 512) < 512" by (simp add: unat_mod)
      ultimately show ?thesis using ok by (auto simp: pipe_ok_def nth_list_update)
    qed
    then show "pipe_bytes (pipe_put x p) = pipe_bytes p @ [x]" using upd [of ?n]
      by (simp add: pipe_bytes_def pipe_put_def c)
  }
  {
    assume "\<not> pipe_empty p"
    with e have n: "unat (pi_nwrite p - pi_nread p) \<noteq> 0" by simp
    note c = counter_pred [OF n]
    let ?n = "unat (pi_nwrite p - pi_nread p)"
    have u: "[0..<?n] = 0 # map Suc [0..<?n - 1]" using n by (metis One_nat_def Suc_pred map_Suc_upt neq0_conv upt_conv_Cons)
    show "pipe_peek p = hd (pipe_bytes p)" by (simp add: pipe_peek_def pipe_bytes_def u)
    from ok c show "pipe_ok (pipe_drop p)" by (auto simp: pipe_ok_def pipe_drop_def)
    show "pipe_bytes (pipe_drop p) = tl (pipe_bytes p)"
      by (simp add: pipe_bytes_def pipe_drop_def c u add.assoc)
  }
qed

text \<open>C27: the ring buffer of a pipe is a first-in first-out queue: whatever bytes are offered and
  asked for, in whatever order, the bytes that came out followed by those still inside are the bytes
  that were inside followed by those that went in.\<close>

theorem pipe_is_fifo:
  assumes "pipe_ok p" and "fifo_run pipe_full pipe_empty pipe_put pipe_peek pipe_drop rs p = (ins, outs, q)"
  shows "pipe_ok q \<and> pipe_bytes p @ ins = outs @ pipe_bytes q"
  using pq.run_fifo [OF assms] .

section \<open>Reading and writing\<close>

lemma upd_pipe_simps [simp]:
  "procs (upd_pipe pi f s) = procs s" "mem (upd_pipe pi f s) = mem s" "cpus (upd_pipe pi f s) = cpus s" "tp (upd_pipe pi f s) = tp s"
  "pipes (upd_pipe pi f s) pi = f (pipes s pi)" "killed pr (upd_pipe pi f s) = killed pr s"
  by (simp_all add: upd_pipe_def killed_def)

lemma upd_pipe_upd_pipe [simp]: "upd_pipe pi g (upd_pipe pi f s) = upd_pipe pi (g \<circ> f) s"
  by (simp add: upd_pipe_def)

lemma pipe_put_open [simp]: "pi_readopen (pipe_put x p) = pi_readopen p" "pi_writeopen (pipe_put x p) = pi_writeopen p"
  by (simp_all add: pipe_put_def)




lemma user_buffer_prefix: "user_buffer pt va n m \<Longrightarrow> k \<le> n \<Longrightarrow> user_buffer pt va k m"
proof -
  assume *: "user_buffer pt va n m" "k \<le> n"
  then have "\<And>i. i < k \<Longrightarrow> i < n" "{..<k} \<subseteq> {..<n}" by auto
  with *(1) show ?thesis unfolding user_buffer_def by (meson inj_on_subset)
qed

lemma copyout_one:
  "user_buffer pt va (Suc k) (mem s) \<Longrightarrow> copyout pt va [c] s = Done 0 (s\<lparr>mem := (mem s)(ubyte pt va (mem s) := c)\<rparr>)"
  using copyout_mapped [of pt va "[c]" s] user_buffer_prefix [of pt va "Suc k" "mem s" 1]
  by (simp add: put_bytes_def)

lemma user_buffer_next:
  assumes "user_buffer pt va (Suc k) m"
  shows "user_buffer pt (va + 1) k (m(ubyte pt va m := c))"
    and "i < k \<Longrightarrow> ubyte pt (va + 1 + of_nat i) (m(ubyte pt va m := c)) = ubyte pt (va + 1 + of_nat i) m"
  using user_buffer_rest [OF assms, of "[c]"] user_buffer_stable(1) [OF assms, of "[c]" "Suc i"]
  by (simp_all add: put_bytes_def add.assoc)

lemma piperead_copy_all:
  assumes "pipe_ok (pipes s pi)" "0 \<le> i" "pt = p_pagetable (procs s ! pr)"
    "k = min (nat (n - i)) (length (pipe_bytes (pipes s pi)))"
    "user_buffer pt (addr + of_int i) k (mem s)"
  shows "piperead_copy pr pi addr i n s
    = Done (i + int k) (upd_pipe pi (pipe_drop ^^ k)
        (s\<lparr>mem := put_bytes (\<lambda>j. ubyte pt (addr + of_int i + of_nat j) (mem s)) (take k (pipe_bytes (pipes s pi))) (mem s)\<rparr>))"
  using assms
proof (induction k arbitrary: i s)
  case 0
  then have "\<not> i < n \<or> pipe_empty (pipes s pi)" by (auto simp: pq.emp_iff min_def split: if_splits)
  then show ?case by (auto simp: piperead_copy.simps upd_pipe_def)
next
  case (Suc k)
  have i: "i < n" and ne: "\<not> pipe_empty (pipes s pi)" using Suc.prems by (auto simp: pq.emp_iff)
  let ?a = "ubyte pt (addr + of_int i) (mem s)" and ?c = "pipe_peek (pipes s pi)"
  let ?s = "upd_pipe pi pipe_drop (s\<lparr>mem := (mem s)(?a := ?c)\<rparr>)"
  have bs: "pipe_bytes (pipes s pi) = ?c # pipe_bytes (pipe_drop (pipes s pi))"
    using Suc.prems ne by (cases "pipe_bytes (pipes s pi)") (auto simp: pq.emp_iff pq.peek_hd pq.elems_del)
  have "piperead_copy pr pi addr i n s = piperead_copy pr pi addr (i + 1) n ?s"
    using i ne Suc.prems copyout_one [OF Suc.prems(5), of ?c]
    by (subst piperead_copy.simps) (simp add: Let_def)
  also have "\<dots> = Done (i + 1 + int k) (upd_pipe pi (pipe_drop ^^ k)
      (?s\<lparr>mem := put_bytes (\<lambda>j. ubyte pt (addr + of_int (i + 1) + of_nat j) (mem ?s)) (take k (pipe_bytes (pipes ?s pi))) (mem ?s)\<rparr>))"
  proof (rule Suc.IH)
    show "pipe_ok (pipes ?s pi)" using Suc.prems ne by (simp add: pq.del_ok upd_pipe_def)
    show "k = min (nat (n - (i + 1))) (length (pipe_bytes (pipes ?s pi)))"
    proof -
      have "nat (n - i) = Suc (nat (n - (i + 1)))" using i by simp
      then show ?thesis using Suc.prems(4) by (simp add: bs upd_pipe_def)
    qed
    show "user_buffer pt (addr + of_int (i + 1)) k (mem ?s)"
      using user_buffer_next(1) [OF Suc.prems(5), of ?c] by (simp add: upd_pipe_def algebra_simps)
  qed (use Suc.prems in \<open>simp_all add: upd_pipe_def\<close>)
  also have "put_bytes (\<lambda>j. ubyte pt (addr + of_int (i + 1) + of_nat j) (mem ?s)) (take k (pipe_bytes (pipes ?s pi))) (mem ?s)
      = put_bytes (\<lambda>j. ubyte pt (addr + of_int i + of_nat j) (mem s)) (take (Suc k) (pipe_bytes (pipes s pi))) (mem s)"
  proof -
    let ?f = "\<lambda>j. ubyte pt (addr + of_int i + of_nat j) (mem s)"
    have "take (Suc k) (pipe_bytes (pipes s pi)) = [?c] @ take k (pipe_bytes (pipes ?s pi))"
      by (subst bs) (simp add: upd_pipe_def)
    moreover have "put_bytes (\<lambda>j. ubyte pt (addr + of_int (i + 1) + of_nat j) (mem ?s)) (take k (pipe_bytes (pipes ?s pi))) (mem ?s)
        = put_bytes (\<lambda>j. ?f (length [?c] + j)) (take k (pipe_bytes (pipes ?s pi))) (mem ?s)"
      using user_buffer_next(2) [OF Suc.prems(5), of _ ?c] by (intro put_bytes_cong) (simp add: upd_pipe_def algebra_simps)
    moreover have "mem ?s = put_bytes ?f [?c] (mem s)" by (simp add: put_bytes_def upd_pipe_def)
    ultimately show ?thesis by (simp only: put_bytes_append)
  qed
  finally show ?case by (simp add: upd_pipe_def funpow_swap1)
qed

text \<open>C29: a read from a pipe that holds bytes does not wait: \<open>piperead\<close> delivers the oldest bytes, as
  many as are asked for or there are, to the user's buffer, removes exactly those from the pipe and
  wakes the writers.\<close>

theorem piperead_delivers:
  assumes "myproc s = Some pr" "pipe_ok (pipes s pi)" "pipe_bytes (pipes s pi) \<noteq> []" "pt = p_pagetable (procs s ! pr)"
    "k = min n (length (pipe_bytes (pipes s pi)))" "user_buffer pt addr k (mem s)"
  shows "\<exists>p m. piperead envs pi addr (int n) s
      = Done (int k) (wakeup (ChPipeWrite pi) (s\<lparr>pipes := (pipes s)(pi := p), mem := m\<rparr>))
    \<and> pipe_ok p \<and> pipe_bytes p = drop k (pipe_bytes (pipes s pi))
    \<and> (\<forall>j<k. m (ubyte pt (addr + of_nat j) (mem s)) = pipe_bytes (pipes s pi) ! j)
    \<and> (\<forall>a. a \<notin> (\<lambda>j. ubyte pt (addr + of_nat j) (mem s)) ` {..<k} \<longrightarrow> m a = mem s a)"
proof -
  let ?f = "\<lambda>j. ubyte pt (addr + of_nat j) (mem s)" and ?bs = "take k (pipe_bytes (pipes s pi))"
  let ?p = "(pipe_drop ^^ k) (pipes s pi)"
  have inj: "inj_on ?f {..<length ?bs}" and len: "length ?bs = k" using assms by (auto simp: user_buffer_def)
  have "\<not> pipe_empty (pipes s pi)" using assms by (simp add: pq.emp_iff)
  then have "piperead envs pi addr (int n) s
      = Done (int k) (wakeup (ChPipeWrite pi) (upd_pipe pi (pipe_drop ^^ k) (s\<lparr>mem := put_bytes ?f ?bs (mem s)\<rparr>)))"
    using assms piperead_copy_all [of s pi 0 pt pr k "int n" addr]
    by (simp add: piperead_def piperead_wait.simps)
  also have "upd_pipe pi (pipe_drop ^^ k) (s\<lparr>mem := put_bytes ?f ?bs (mem s)\<rparr>)
      = s\<lparr>pipes := (pipes s)(pi := ?p), mem := put_bytes ?f ?bs (mem s)\<rparr>" by (simp add: upd_pipe_def)
  finally have "piperead envs pi addr (int n) s
      = Done (int k) (wakeup (ChPipeWrite pi) (s\<lparr>pipes := (pipes s)(pi := ?p), mem := put_bytes ?f ?bs (mem s)\<rparr>))" .
  moreover have "put_bytes ?f ?bs (mem s) a = mem s a" if "a \<notin> ?f ` {..<k}" for a
    using that len by (intro put_bytes_other) (simp add: image_iff)
  moreover have "put_bytes ?f ?bs (mem s) (?f j) = pipe_bytes (pipes s pi) ! j" if "j < k" for j
    using put_bytes_at [OF inj] that len by simp
  ultimately show ?thesis
    using pq.dels_drop [of "pipes s pi" k] assms(2,5)
    by (intro exI [of _ ?p] exI [of _ "put_bytes ?f ?bs (mem s)"]) simp
qed

section \<open>A small pipe\<close>

text \<open>One byte inside, and the write counter just past the wrap-around of 32 bits.\<close>

definition small_pipe :: pipe where
  "small_pipe = \<lparr>pi_data = (replicate 512 0)[511 := 3], pi_nread = 0xFFFFFFFF, pi_nwrite = 0,
     pi_readopen = True, pi_writeopen = True\<rparr>"

lemma small_pipe_ok: "pipe_ok small_pipe" and small_pipe_bytes: "pipe_bytes small_pipe = [3]"
  by (simp_all add: small_pipe_def pipe_ok_def pipe_bytes_def)

theorem pipe_is_fifo_witness:
  "pipe_ok small_pipe
   \<and> (case fifo_run pipe_full pipe_empty pipe_put pipe_peek pipe_drop [Some 7, None, None, None] small_pipe of
        (ins, outs, q) \<Rightarrow> pipe_ok q \<and> pipe_bytes small_pipe @ ins = outs @ pipe_bytes q)"
  using small_pipe_ok pipe_is_fifo [OF small_pipe_ok, of "[Some 7, None, None, None]"] by (auto split: prod.splits)

definition pipe_kernel :: kernel where
  "pipe_kernel =
     (upd_cpu (\<lambda>c. c\<lparr>c_proc := Some 0\<rparr>) (upd_proc 0 (\<lambda>p. p\<lparr>p_pagetable := 0x80001000\<rparr>) small_kernel))
       \<lparr>pipes := (\<lambda>_. small_pipe)\<rparr>"

lemma pipe_kernel_simps:
  "myproc pipe_kernel = Some 0" "pipes pipe_kernel pi = small_pipe" "killed 0 pipe_kernel = 0"
  "p_pagetable (procs pipe_kernel ! 0) = 0x80001000" "mem pipe_kernel = small_mem"
  by (simp_all add: pipe_kernel_def small_kernel_def myproc_def mycpu_def killed_def zero_table_def zero_proc_def upd_cpu_def)


theorem piperead_delivers_witness:
  "pipe_bytes (pipes pipe_kernel 0x80005000) \<noteq> []
   \<and> user_buffer 0x80001000 16 1 (mem pipe_kernel)
   \<and> (\<exists>p m. piperead [] 0x80005000 16 (int 2) pipe_kernel
      = Done (int 1) (wakeup (ChPipeWrite 0x80005000) (pipe_kernel\<lparr>pipes := (pipes pipe_kernel)(0x80005000 := p), mem := m\<rparr>))
    \<and> pipe_ok p \<and> pipe_bytes p = drop 1 (pipe_bytes (pipes pipe_kernel 0x80005000))
    \<and> (\<forall>j<1. m (ubyte 0x80001000 (16 + of_nat j) (mem pipe_kernel)) = pipe_bytes (pipes pipe_kernel 0x80005000) ! j))"
proof -
  have k: "1 = min 2 (length (pipe_bytes (pipes pipe_kernel 0x80005000)))" by (simp add: pipe_kernel_simps small_pipe_bytes)
  have ub: "user_buffer 0x80001000 16 1 (mem pipe_kernel)"
    using user_buffer_prefix [OF small_buffer, of 1] by (simp add: pipe_kernel_simps)
  have ne: "pipe_bytes (pipes pipe_kernel 0x80005000) \<noteq> []" by (simp add: pipe_kernel_simps small_pipe_bytes)
  have ok: "pipe_ok (pipes pipe_kernel 0x80005000)" by (simp add: pipe_kernel_simps small_pipe_ok)
  from piperead_delivers [OF pipe_kernel_simps(1) ok ne pipe_kernel_simps(4) [symmetric] k ub, of "[]"] ub ne
  show ?thesis by blast
qed

end
