(* ===== verification/Filemap.thy ===== *)
theory Filemap
  imports Fs
begin

text \<open>
  The block map of a file: twelve direct block numbers and one indirect block of 256 more, and the
  bytes they give.  The lemmas say how the map and the bytes change when a block is added and when
  bytes are stored; the kernel's \<open>writei\<close> and the image builder of \<^verbatim>\<open>mkfs\<close> both work this way.
\<close>

section \<open>The bytes of a file\<close>

definition file_addr :: "(nat \<Rightarrow> u8 list) \<Rightarrow> nat list \<Rightarrow> nat \<Rightarrow> nat" where
  "file_addr D addrs bn =
     (if bn < NDIRECT then addrs ! bn else unat (get32 (D (addrs ! NDIRECT)) (4 * (bn - NDIRECT))))"

definition file_byte :: "(nat \<Rightarrow> u8 list) \<Rightarrow> nat list \<Rightarrow> nat \<Rightarrow> u8" where
  "file_byte D addrs k = D (file_addr D addrs (k div BSIZE)) ! (k mod BSIZE)"

definition file_bytes :: "(nat \<Rightarrow> u8 list) \<Rightarrow> nat list \<Rightarrow> nat \<Rightarrow> u8 list" where
  "file_bytes D addrs sz = map (file_byte D addrs) [0..<sz]"

text \<open>The file's block \<open>bn\<close> has a block of the disk.\<close>

definition has_block :: "(nat \<Rightarrow> u8 list) \<Rightarrow> nat list \<Rightarrow> nat \<Rightarrow> bool" where
  "has_block D addrs bn \<longleftrightarrow> bn < MAXFILE \<and> (NDIRECT \<le> bn \<longrightarrow> addrs ! NDIRECT \<noteq> 0)
     \<and> file_addr D addrs bn \<noteq> 0 \<and> length (D (file_addr D addrs bn)) = BSIZE"

definition file_ok :: "(nat \<Rightarrow> u8 list) \<Rightarrow> inode \<Rightarrow> bool" where
  "file_ok D ip \<longleftrightarrow> unat (i_size ip) \<le> MAXFILE * BSIZE \<and> (\<forall>bn. bn * BSIZE < unat (i_size ip) \<longrightarrow> has_block D (i_addrs ip) bn)"

lemma length_file_bytes [simp]: "length (file_bytes D addrs sz) = sz"
  by (simp add: file_bytes_def)

lemma file_bytes_segment:
  "off + n \<le> sz \<Longrightarrow> take n (drop off (file_bytes D addrs sz)) = map (\<lambda>k. file_byte D addrs (off + k)) [0..<n]"
  by (intro nth_equalityI) (simp_all add: file_bytes_def)

text \<open>The bytes within one block.\<close>

lemma block_pos:
  assumes "off mod c + k < (c :: nat)"
  shows "(off + k) div c = off div c" "(off + k) mod c = off mod c + k"
proof -
  have e: "c * (off div c) + off mod c = off" by simp
  show d: "(off + k) div c = off div c"
  proof (rule div_nat_eqI)
    show "c * (off div c) \<le> off + k" using e by linarith
    show "off + k < c * Suc (off div c)" using e assms unfolding mult_Suc_right by linarith
  qed
  have "c * ((off + k) div c) + (off + k) mod c = off + k" by simp
  then show "(off + k) mod c = off mod c + k" using e unfolding d by linarith
qed

lemma file_byte_block:
  assumes "off mod BSIZE + m \<le> BSIZE" "length (D (file_addr D addrs (off div BSIZE))) = BSIZE"
  shows "take m (drop (off mod BSIZE) (D (file_addr D addrs (off div BSIZE)))) = map (\<lambda>k. file_byte D addrs (off + k)) [0..<m]"
proof (rule nth_equalityI)
  show "length (take m (drop (off mod BSIZE) (D (file_addr D addrs (off div BSIZE))))) = length (map (\<lambda>k. file_byte D addrs (off + k)) [0..<m])"
    using assms by simp
  fix k assume "k < length (take m (drop (off mod BSIZE) (D (file_addr D addrs (off div BSIZE)))))"
  then have k: "k < m" by simp
  then have "off mod BSIZE + k < BSIZE" using assms(1) by simp
  note block_pos [OF this]
  then show "take m (drop (off mod BSIZE) (D (file_addr D addrs (off div BSIZE)))) ! k = map (\<lambda>k. file_byte D addrs (off + k)) [0..<m] ! k"
    using k assms by (simp add: file_byte_def)
qed

section \<open>Adding blocks\<close>

text \<open>
  \<open>fmap_ok D addrs N\<close>: the first \<open>N\<close> blocks of the file have distinct blocks of the disk, which are not
  the indirect block, and the entries behind them are 0.
\<close>

definition fmap_ok :: "(nat \<Rightarrow> u8 list) \<Rightarrow> nat list \<Rightarrow> nat \<Rightarrow> bool" where
  "fmap_ok D addrs N \<longleftrightarrow> length addrs = NDIRECT + 1 \<and> N \<le> MAXFILE
     \<and> (\<forall>bn<N. file_addr D addrs bn \<noteq> 0) \<and> inj_on (file_addr D addrs) {..<N}
     \<and> (\<forall>bn<NDIRECT. N \<le> bn \<longrightarrow> addrs ! bn = 0)
     \<and> (if addrs ! NDIRECT = 0 then N \<le> NDIRECT
        else length (D (addrs ! NDIRECT)) = BSIZE \<and> addrs ! NDIRECT \<notin> file_addr D addrs ` {..<N}
          \<and> (\<forall>bn<MAXFILE. N \<le> bn \<longrightarrow> NDIRECT \<le> bn \<longrightarrow> file_addr D addrs bn = 0))"

definition fblocks :: "(nat \<Rightarrow> u8 list) \<Rightarrow> nat list \<Rightarrow> nat \<Rightarrow> nat set" where
  "fblocks D addrs N = file_addr D addrs ` {..<N} \<union> (if addrs ! NDIRECT = 0 then {} else {addrs ! NDIRECT})"

lemma finite_fblocks [simp]: "finite (fblocks D addrs N)"
  by (simp add: fblocks_def)

text \<open>Only the indirect block and the blocks of the file matter.\<close>

lemma file_addr_cong:
  "bn < NDIRECT \<or> D' (addrs ! NDIRECT) = D (addrs ! NDIRECT) \<Longrightarrow> file_addr D' addrs bn = file_addr D addrs bn"
  by (auto simp: file_addr_def)

lemma fmap_addr_cong:
  assumes "fmap_ok D addrs N" "addrs ! NDIRECT = 0 \<or> D' (addrs ! NDIRECT) = D (addrs ! NDIRECT)" "bn < N"
  shows "file_addr D' addrs bn = file_addr D addrs bn"
  using assms by (intro file_addr_cong) (auto simp: fmap_ok_def split: if_splits)

lemma fmap_ok_cong:
  assumes ok: "fmap_ok D addrs N" and D': "addrs ! NDIRECT = 0 \<or> D' (addrs ! NDIRECT) = D (addrs ! NDIRECT)"
  shows "fmap_ok D' addrs N" and "fblocks D' addrs N = fblocks D addrs N"
proof -
  have a: "file_addr D' addrs bn = file_addr D addrs bn" if "bn < N" for bn using fmap_addr_cong [OF ok _ that, of D'] D' by simp
  have im: "file_addr D' addrs ` {..<N} = file_addr D addrs ` {..<N}" by (rule image_cong) (simp_all add: a)
  have inj: "inj_on (file_addr D' addrs) {..<N} \<longleftrightarrow> inj_on (file_addr D addrs) {..<N}" by (rule inj_on_cong) (simp add: a)
  have z: "file_addr D' addrs bn = file_addr D addrs bn" if "addrs ! NDIRECT \<noteq> 0" for bn using that D' by (simp add: file_addr_def)
  show "fmap_ok D' addrs N" using ok D' unfolding fmap_ok_def im inj by (auto simp: a z split: if_splits)
  show "fblocks D' addrs N = fblocks D addrs N" by (simp add: fblocks_def im)
qed

lemma file_bytes_cong:
  assumes ok: "fmap_ok D addrs N" and D': "\<And>b. b \<in> fblocks D addrs N \<Longrightarrow> D' b = D b" and sz: "sz \<le> N * BSIZE"
  shows "file_bytes D' addrs sz = file_bytes D addrs sz"
proof -
  have i: "addrs ! NDIRECT = 0 \<or> D' (addrs ! NDIRECT) = D (addrs ! NDIRECT)" using D' [of "addrs ! NDIRECT"] by (cases "addrs ! NDIRECT = 0") (simp_all add: fblocks_def)
  have "file_byte D' addrs k = file_byte D addrs k" if "k < sz" for k
  proof -
    have bn: "k div BSIZE < N" using that sz by (metis less_le_trans div_less_iff_less_mult zero_less_numeral)
    have "D' (file_addr D addrs (k div BSIZE)) = D (file_addr D addrs (k div BSIZE))" using bn by (intro D') (auto simp: fblocks_def)
    then show ?thesis using fmap_addr_cong [OF ok _ bn, of D'] i by (simp add: file_byte_def)
  qed
  then show ?thesis by (simp add: file_bytes_def)
qed

lemma add_direct:
  assumes ok: "fmap_ok D addrs N" and N: "N < NDIRECT" and b: "b \<noteq> 0" "b \<notin> fblocks D addrs N"
  shows "fmap_ok D (addrs[N := b]) (Suc N)" and "fblocks D (addrs[N := b]) (Suc N) = insert b (fblocks D addrs N)"
    and "\<And>bn. bn < N \<Longrightarrow> file_addr D (addrs[N := b]) bn = file_addr D addrs bn" and "file_addr D (addrs[N := b]) N = b"
proof -
  have len: "length addrs = NDIRECT + 1" using ok by (simp add: fmap_ok_def)
  show a: "\<And>bn. bn < N \<Longrightarrow> file_addr D (addrs[N := b]) bn = file_addr D addrs bn" using N by (simp add: file_addr_def)
  show n: "file_addr D (addrs[N := b]) N = b" using N len by (simp add: file_addr_def)
  have ind: "addrs[N := b] ! NDIRECT = addrs ! NDIRECT" using N by simp
  have im: "file_addr D (addrs[N := b]) ` {..<N} = file_addr D addrs ` {..<N}" by (rule image_cong) (simp_all add: a)
  have inj: "inj_on (file_addr D (addrs[N := b])) {..<N}"
    using ok a by (subst inj_on_cong [of _ _ "file_addr D addrs"]) (simp_all add: fmap_ok_def)
  show "fblocks D (addrs[N := b]) (Suc N) = insert b (fblocks D addrs N)"
    by (simp add: fblocks_def lessThan_Suc ind im n)
  have far: "file_addr D (addrs[N := b]) bn = file_addr D addrs bn" if "NDIRECT \<le> bn" for bn using that N by (simp add: file_addr_def)
  show "fmap_ok D (addrs[N := b]) (Suc N)"
    using ok b N inj unfolding fmap_ok_def ind lessThan_Suc
    by (auto simp: a n im far less_Suc_eq fblocks_def nth_list_update)
qed

lemma add_indirect:
  assumes ok: "fmap_ok D addrs N" and z: "addrs ! NDIRECT = 0" and b: "b \<noteq> 0" "b \<notin> fblocks D addrs N" "D b = replicate BSIZE 0"
  shows "fmap_ok D (addrs[NDIRECT := b]) N" and "fblocks D (addrs[NDIRECT := b]) N = insert b (fblocks D addrs N)"
    and "\<And>bn. bn < N \<Longrightarrow> file_addr D (addrs[NDIRECT := b]) bn = file_addr D addrs bn"
proof -
  have len: "length addrs = NDIRECT + 1" and N: "N \<le> NDIRECT" using ok z by (auto simp: fmap_ok_def)
  show a: "\<And>bn. bn < N \<Longrightarrow> file_addr D (addrs[NDIRECT := b]) bn = file_addr D addrs bn" using N by (simp add: file_addr_def)
  have ind: "addrs[NDIRECT := b] ! NDIRECT = b" using len by simp
  have im: "file_addr D (addrs[NDIRECT := b]) ` {..<N} = file_addr D addrs ` {..<N}" by (rule image_cong) (simp_all add: a)
  have inj: "inj_on (file_addr D (addrs[NDIRECT := b])) {..<N}"
    using ok a by (subst inj_on_cong [of _ _ "file_addr D addrs"]) (simp_all add: fmap_ok_def)
  show "fblocks D (addrs[NDIRECT := b]) N = insert b (fblocks D addrs N)" using z b(1) by (simp add: fblocks_def ind im)
  have far: "file_addr D (addrs[NDIRECT := b]) bn = 0" if "NDIRECT \<le> bn" "bn < MAXFILE" for bn
  proof -
    have "4 * (bn - NDIRECT) + 4 \<le> BSIZE" using that by simp
    then have "take 4 (drop (4 * (bn - NDIRECT)) (D b)) = replicate 4 0" by (simp add: b(3))
    then have "get32 (D b) (4 * (bn - NDIRECT)) = word_of_bytes (replicate 4 0)" by (simp add: get32_def)
    also have "\<dots> = 0" by (simp add: numeral_eq_Suc)
    finally show ?thesis using that ind by (simp add: file_addr_def)
  qed
  show "fmap_ok D (addrs[NDIRECT := b]) N"
    using ok b N inj unfolding fmap_ok_def ind
    by (auto simp: a im far fblocks_def)
qed

lemma add_entry:
  assumes ok: "fmap_ok D addrs N" and N: "NDIRECT \<le> N" "N < MAXFILE" and z: "addrs ! NDIRECT \<noteq> 0"
    and b: "b \<noteq> 0" "b \<notin> fblocks D addrs N" "b < 2 ^ 32"
    and D': "D' (addrs ! NDIRECT) = put32 (4 * (N - NDIRECT)) (of_nat b) (D (addrs ! NDIRECT))"
  shows "fmap_ok D' addrs (Suc N)" and "fblocks D' addrs (Suc N) = insert b (fblocks D addrs N)"
    and "\<And>bn. bn < N \<Longrightarrow> file_addr D' addrs bn = file_addr D addrs bn" and "file_addr D' addrs N = b"
proof -
  have len: "length (D (addrs ! NDIRECT)) = BSIZE" and al: "length addrs = NDIRECT + 1" using ok z by (auto simp: fmap_ok_def)
  have pos: "4 * (bn - NDIRECT) + 4 \<le> BSIZE" if "bn < MAXFILE" for bn using that by simp
  have other: "file_addr D' addrs bn = file_addr D addrs bn" if "bn \<noteq> N" "bn < MAXFILE" for bn
  proof (cases "bn < NDIRECT")
    case False
    have "get32 (D' (addrs ! NDIRECT)) (4 * (bn - NDIRECT)) = get32 (D (addrs ! NDIRECT)) (4 * (bn - NDIRECT))"
      unfolding D' using pos [OF N(2)] pos [OF that(2)] False that(1) N(1) len by (intro get_put32_other) auto
    then show ?thesis by (simp add: file_addr_def)
  qed (simp add: file_addr_def)
  show n: "file_addr D' addrs N = b"
    using N pos [OF N(2)] len b(3) by (simp add: file_addr_def D' unat_of_nat)
  show a: "\<And>bn. bn < N \<Longrightarrow> file_addr D' addrs bn = file_addr D addrs bn" using other N(2) by simp
  have im: "file_addr D' addrs ` {..<N} = file_addr D addrs ` {..<N}" by (rule image_cong) (simp_all add: a)
  have inj: "inj_on (file_addr D' addrs) {..<N}"
    using ok a by (subst inj_on_cong [of _ _ "file_addr D addrs"]) (simp_all add: fmap_ok_def)
  show "fblocks D' addrs (Suc N) = insert b (fblocks D addrs N)" by (auto simp: fblocks_def lessThan_Suc im n)
  have l': "length (D' (addrs ! NDIRECT)) = BSIZE" using pos [OF N(2)] len by (simp add: D')
  show "fmap_ok D' addrs (Suc N)"
    using ok b N z inj l' unfolding fmap_ok_def lessThan_Suc
    by (auto simp: a n im other less_Suc_eq fblocks_def)
qed

section \<open>Storing bytes\<close>

lemma length_store_at [simp]: "off \<le> length d \<Longrightarrow> length (store_at off cs d) = max (length d) (off + length cs)"
  by (simp add: store_at_def)

lemma nth_store_at:
  "off \<le> length d \<Longrightarrow> k < max (length d) (off + length cs) \<Longrightarrow>
     store_at off cs d ! k = (if off \<le> k \<and> k < off + length cs then cs ! (k - off) else d ! k)"
  by (auto simp: store_at_def nth_append)

lemma store_at_append: "store_at (off + length as) bs (store_at off as d) = store_at off (as @ bs) d" if "off \<le> length d"
  using that by (simp add: store_at_def ac_simps)

lemma store_block:
  assumes ok: "fmap_ok D addrs N" and off: "off div BSIZE < N" "off mod BSIZE + length cs \<le> BSIZE"
    and len: "\<And>bn. bn < N \<Longrightarrow> length (D (file_addr D addrs bn)) = BSIZE"
    and a: "a = file_addr D addrs (off div BSIZE)" and D': "D' = D(a := store_at (off mod BSIZE) cs (D a))"
  shows "fmap_ok D' addrs N" and "fblocks D' addrs N = fblocks D addrs N" and "\<And>bn. bn < N \<Longrightarrow> file_addr D' addrs bn = file_addr D addrs bn"
    and "\<And>bn. bn < N \<Longrightarrow> length (D' (file_addr D' addrs bn)) = BSIZE"
    and "off \<le> sz \<Longrightarrow> sz \<le> N * BSIZE \<Longrightarrow> file_bytes D' addrs (max sz (off + length cs)) = store_at off cs (file_bytes D addrs sz)"
proof -
  have "a \<in> file_addr D addrs ` {..<N}" using off(1) by (simp add: a)
  moreover have "addrs ! NDIRECT = 0 \<or> addrs ! NDIRECT \<notin> file_addr D addrs ` {..<N}" using ok by (simp add: fmap_ok_def split: if_splits)
  ultimately have "addrs ! NDIRECT = 0 \<or> a \<noteq> addrs ! NDIRECT" by metis
  then have i: "addrs ! NDIRECT = 0 \<or> D' (addrs ! NDIRECT) = D (addrs ! NDIRECT)" by (auto simp: D')
  show "fmap_ok D' addrs N" "fblocks D' addrs N = fblocks D addrs N" using fmap_ok_cong [OF ok] i by blast+
  show fa: "\<And>bn. bn < N \<Longrightarrow> file_addr D' addrs bn = file_addr D addrs bn" using fmap_addr_cong [OF ok] i by blast
  have la: "length (D a) = BSIZE" using len [OF off(1)] a by simp
  have ob: "off mod BSIZE \<le> length (D a)" unfolding la by (simp add: less_imp_le)
  show "length (D' (file_addr D' addrs bn)) = BSIZE" if "bn < N" for bn
    unfolding fa [OF that] using len [OF that] ob la off(2) by (simp add: D')
  show "file_bytes D' addrs (max sz (off + length cs)) = store_at off cs (file_bytes D addrs sz)" if sz: "off \<le> sz" "sz \<le> N * BSIZE"
  proof (rule nth_equalityI)
    show "length (file_bytes D' addrs (max sz (off + length cs))) = length (store_at off cs (file_bytes D addrs sz))" using sz by simp
    fix k assume "k < length (file_bytes D' addrs (max sz (off + length cs)))"
    then have k: "k < max sz (off + length cs)" by simp
    have q: "off div BSIZE * BSIZE + off mod BSIZE = off" "k div BSIZE * BSIZE + k mod BSIZE = k" by simp_all
    have "Suc (off div BSIZE) * BSIZE \<le> N * BSIZE" using off(1) by (intro mult_right_mono) simp_all
    then have "off + length cs \<le> N * BSIZE" using off(2) q(1) unfolding mult_Suc by linarith
    then have "k < N * BSIZE" using k sz by linarith
    then have kN: "k div BSIZE < N" by (simp add: div_less_iff_less_mult)
    have in_range: "off \<le> k \<and> k < off + length cs \<longleftrightarrow> k div BSIZE = off div BSIZE \<and> off mod BSIZE \<le> k mod BSIZE \<and> k mod BSIZE < off mod BSIZE + length cs"
    proof
      assume r: "off \<le> k \<and> k < off + length cs"
      then have "off mod BSIZE + (k - off) < BSIZE" using off(2) by linarith
      note p = block_pos [OF this]
      have "off + (k - off) = k" using r by simp
      then have "k div BSIZE = off div BSIZE" "k mod BSIZE = off mod BSIZE + (k - off)" using p by (simp_all only:)
      then show "k div BSIZE = off div BSIZE \<and> off mod BSIZE \<le> k mod BSIZE \<and> k mod BSIZE < off mod BSIZE + length cs" using r by linarith
    next
      assume r: "k div BSIZE = off div BSIZE \<and> off mod BSIZE \<le> k mod BSIZE \<and> k mod BSIZE < off mod BSIZE + length cs"
      then show "off \<le> k \<and> k < off + length cs" using q by linarith
    qed
    have "file_byte D' addrs k = (if off \<le> k \<and> k < off + length cs then cs ! (k - off) else file_byte D addrs k)"
    proof (cases "k div BSIZE = off div BSIZE")
      case True
      have km: "k mod BSIZE < max (length (D a)) (off mod BSIZE + length cs)" using la by simp
      have "k - off = k mod BSIZE - off mod BSIZE" using q True by linarith
      moreover have "file_byte D' addrs k = store_at (off mod BSIZE) cs (D a) ! (k mod BSIZE)"
        using fa [OF kN] True by (simp add: file_byte_def D' a)
      ultimately show ?thesis using nth_store_at [OF ob km] in_range True by (simp add: file_byte_def a)
    next
      case False
      have "inj_on (file_addr D addrs) {..<N}" using ok by (simp add: fmap_ok_def)
      then have "file_addr D addrs (k div BSIZE) \<noteq> a" unfolding a using False kN off(1) by (auto dest: inj_onD)
      then have "file_byte D' addrs k = file_byte D addrs k" using fa [OF kN] by (simp add: file_byte_def D')
      moreover have "\<not> (off \<le> k \<and> k < off + length cs)" using False in_range by blast
      ultimately show ?thesis by (simp only: if_False)
    qed
    then show "file_bytes D' addrs (max sz (off + length cs)) ! k = store_at off cs (file_bytes D addrs sz) ! k"
      using k sz by (cases "k < sz") (auto simp: file_bytes_def nth_store_at)
  qed
qed

section \<open>Inodes on disk\<close>

text \<open>What is stored in one place of a block leaves the rest of it.\<close>

lemma take_drop_store:
  assumes "off + length cs \<le> length d" "k + n \<le> off \<or> off + length cs \<le> k" "k + n \<le> length d"
  shows "take n (drop k (store_at off cs d)) = take n (drop k d)"
  using assms by (intro nth_equalityI) (auto simp: nth_store_at)

lemma put_store_at: "put32 off v d = store_at off (bytes_of 4 v) d" "put16 off w d = store_at off (bytes_of 2 w) d"
  by (simp_all add: put32_def put16_def store_at_def)

lemma put_elsewhere:
  assumes "k + n \<le> length d"
  shows "off + 4 \<le> length d \<Longrightarrow> k + n \<le> off \<or> off + 4 \<le> k \<Longrightarrow> take n (drop k (put32 off v d)) = take n (drop k d)"
    and "off + 2 \<le> length d \<Longrightarrow> k + n \<le> off \<or> off + 2 \<le> k \<Longrightarrow> take n (drop k (put16 off w d)) = take n (drop k d)"
  unfolding put_store_at using assms by (auto intro!: take_drop_store)

lemma get_put_elsewhere:
  "k + 4 \<le> length d \<Longrightarrow> off + 4 \<le> length d \<Longrightarrow> k + 4 \<le> off \<or> off + 4 \<le> k \<Longrightarrow> get32 (put32 off v d) k = get32 d k"
  "k + 4 \<le> length d \<Longrightarrow> off + 2 \<le> length d \<Longrightarrow> k + 4 \<le> off \<or> off + 2 \<le> k \<Longrightarrow> get32 (put16 off w d) k = get32 d k"
  "k + 2 \<le> length d \<Longrightarrow> off + 4 \<le> length d \<Longrightarrow> k + 2 \<le> off \<or> off + 4 \<le> k \<Longrightarrow> get16 (put32 off v d) k = get16 d k"
  "k + 2 \<le> length d \<Longrightarrow> off + 2 \<le> length d \<Longrightarrow> k + 2 \<le> off \<or> off + 2 \<le> k \<Longrightarrow> get16 (put16 off w d) k = get16 d k"
  by (simp_all add: get32_def get16_def put_elsewhere)

lemma put32s:
  assumes "off + 4 * m \<le> length d"
  shows "length (fold (\<lambda>i d. put32 (off + 4 * i) (v i) d) [0..<m] d) = length d
     \<and> (\<forall>i<m. get32 (fold (\<lambda>i d. put32 (off + 4 * i) (v i) d) [0..<m] d) (off + 4 * i) = v i)
     \<and> (\<forall>k n. k + n \<le> length d \<longrightarrow> k + n \<le> off \<or> off + 4 * m \<le> k \<longrightarrow>
          take n (drop k (fold (\<lambda>i d. put32 (off + 4 * i) (v i) d) [0..<m] d)) = take n (drop k d))"
  using assms by (induction m) (auto simp: get_put_elsewhere put_elsewhere less_Suc_eq)

definition dinode_ok :: "dinode \<Rightarrow> bool" where
  "dinode_ok di \<longleftrightarrow> length (di_addrs di) = NDIRECT + 1 \<and> (\<forall>a\<in>set (di_addrs di). a < 2 ^ 32)
     \<and> (\<forall>x\<in>{di_type di, di_major di, di_minor di, di_nlink di}. - (2 ^ 15) \<le> x \<and> x < 2 ^ 15)"

lemma dinode_slot: "64 * (inum mod IPB) + 64 \<le> BSIZE" for inum :: nat
proof -
  have "inum mod IPB < 16" by simp
  then show ?thesis by linarith
qed

lemma sint_of_int16: "- (2 ^ 15) \<le> x \<Longrightarrow> x < 2 ^ 15 \<Longrightarrow> sint (of_int x :: u16) = x"
  by (simp add: signed_of_int signed_take_bit_int_eq_self)

lemma dinode_put_elsewhere:
  assumes "length d = BSIZE" "k + n \<le> BSIZE" "k + n \<le> 64 * (inum mod IPB) \<or> 64 * (inum mod IPB) + 64 \<le> k"
  shows "take n (drop k (dinode_put inum di d)) = take n (drop k d)" "length (dinode_put inum di d) = BSIZE"
proof -
  define o' where "o' = 64 * (inum mod IPB)"
  define d1 where "d1 = put32 (o' + 8) (di_size di) (put16 (o' + 6) (of_int (di_nlink di)) (put16 (o' + 4) (of_int (di_minor di))
    (put16 (o' + 2) (of_int (di_major di)) (put16 o' (of_int (di_type di)) d))))"
  have o: "o' + 64 \<le> BSIZE" using dinode_slot [of inum] by (simp add: o'_def)
  have l: "length d1 = BSIZE" using o assms(1) by (simp add: d1_def)
  have t: "take n (drop k d1) = take n (drop k d)" using o assms by (elim disjE) (simp_all add: d1_def put_elsewhere flip: o'_def)
  have e: "dinode_put inum di d = fold (\<lambda>i d. put32 (o' + 12 + 4 * i) (of_nat (di_addrs di ! i)) d) [0..<NDIRECT + 1] d1"
    by (simp add: dinode_put_def Let_def o'_def d1_def)
  note p = put32s [of "o' + 12" "NDIRECT + 1" d1 "\<lambda>i. of_nat (di_addrs di ! i)"]
  show "length (dinode_put inum di d) = BSIZE" unfolding e using p o l by auto
  show "take n (drop k (dinode_put inum di d)) = take n (drop k d)" unfolding e using p o l t assms by (auto simp flip: o'_def)
qed

lemma dinode_get_put:
  assumes "length d = BSIZE" "dinode_ok di"
  shows "dinode_get (dinode_put inum di d) inum = di"
proof -
  define o' where "o' = 64 * (inum mod IPB)"
  define d1 where "d1 = put32 (o' + 8) (di_size di) (put16 (o' + 6) (of_int (di_nlink di)) (put16 (o' + 4) (of_int (di_minor di))
    (put16 (o' + 2) (of_int (di_major di)) (put16 o' (of_int (di_type di)) d))))"
  define F where "F = fold (\<lambda>i d. put32 (o' + 12 + 4 * i) (of_nat (di_addrs di ! i)) d) [0..<NDIRECT + 1] d1"
  have o: "o' + 64 \<le> BSIZE" using dinode_slot [of inum] by (simp add: o'_def)
  have l: "length d1 = BSIZE" using o assms(1) by (simp add: d1_def)
  have e: "dinode_put inum di d = F"
    by (simp add: dinode_put_def Let_def o'_def d1_def F_def)
  note p = put32s [of "o' + 12" "NDIRECT + 1" d1 "\<lambda>i. of_nat (di_addrs di ! i)", folded F_def]
  have g: "get16 F (o' + j) = get16 d1 (o' + j)" if "j + 2 \<le> 12" for j using p o l that by (simp add: get16_def)
  have "get32 F (o' + 8) = get32 d1 (o' + 8)" using p o l by (simp add: get32_def)
  then have s: "get32 F (o' + 8) = di_size di" using o assms(1) by (simp add: d1_def)
  have r: "get16 F o' = of_int (di_type di)" "get16 F (o' + 2) = of_int (di_major di)" "get16 F (o' + 4) = of_int (di_minor di)"
    "get16 F (o' + 6) = of_int (di_nlink di)"
    using g [of 0] g [of 2] g [of 4] g [of 6] o assms(1) by (simp_all add: d1_def get_put_elsewhere)
  have a: "map (\<lambda>i. unat (get32 F (o' + 12 + 4 * i))) [0..<NDIRECT + 1] = di_addrs di"
  proof (rule nth_equalityI)
    show "length (map (\<lambda>i. unat (get32 F (o' + 12 + 4 * i))) [0..<NDIRECT + 1]) = length (di_addrs di)" using assms(2) by (simp add: dinode_ok_def)
    fix i assume "i < length (map (\<lambda>i. unat (get32 F (o' + 12 + 4 * i))) [0..<NDIRECT + 1])"
    then have i: "i < NDIRECT + 1" by simp
    then have "get32 F (o' + 12 + 4 * i) = of_nat (di_addrs di ! i)" using p o l by auto
    moreover have "di_addrs di ! i < 2 ^ 32" using assms(2) i by (simp add: dinode_ok_def)
    ultimately have "unat (get32 F (o' + 12 + 4 * i)) = di_addrs di ! i" by (simp add: unat_of_nat)
    then show "map (\<lambda>i. unat (get32 F (o' + 12 + 4 * i))) [0..<NDIRECT + 1] ! i = di_addrs di ! i" using i by (simp del: upt_Suc)
  qed
  have ok: "sint (of_int (di_type di) :: u16) = di_type di" "sint (of_int (di_major di) :: u16) = di_major di"
    "sint (of_int (di_minor di) :: u16) = di_minor di" "sint (of_int (di_nlink di) :: u16) = di_nlink di"
    using assms(2) by (simp_all add: dinode_ok_def sint_of_int16)
  show ?thesis unfolding e dinode_get_def Let_def
    using r s a ok by (simp add: o'_def)
qed

lemma dinode_get_put_other:
  assumes "length d = BSIZE" "inum mod IPB \<noteq> inum' mod IPB"
  shows "dinode_get (dinode_put inum di d) inum' = dinode_get d inum'"
proof -
  have "a \<noteq> b \<Longrightarrow> 64 * b + 64 \<le> 64 * a \<or> 64 * a + 64 \<le> 64 * b" for a b :: nat by arith
  note slots = this [OF assms(2)]
  have t: "take n (drop (64 * (inum' mod IPB) + j) (dinode_put inum di d)) = take n (drop (64 * (inum' mod IPB) + j) d)" if "j + n \<le> 64" for j n
    
  proof (rule dinode_put_elsewhere)
    show "64 * (inum' mod IPB) + j + n \<le> BSIZE" using that dinode_slot [of inum'] by linarith
    show "64 * (inum' mod IPB) + j + n \<le> 64 * (inum mod IPB) \<or> 64 * (inum mod IPB) + 64 \<le> 64 * (inum' mod IPB) + j"
      using that slots by linarith
  qed (rule assms(1))
  have g: "get32 (dinode_put inum di d) (64 * (inum' mod IPB) + j) = get32 d (64 * (inum' mod IPB) + j)" if "j + 4 \<le> 64" for j using t [OF that] by (simp add: get32_def)
  have h: "get16 (dinode_put inum di d) (64 * (inum' mod IPB) + j) = get16 d (64 * (inum' mod IPB) + j)" if "j + 2 \<le> 64" for j using t [OF that] by (simp add: get16_def)
  have m: "map (\<lambda>i. unat (get32 (dinode_put inum di d) (64 * (inum' mod IPB) + 12 + 4 * i))) [0..<NDIRECT + 1]
      = map (\<lambda>i. unat (get32 d (64 * (inum' mod IPB) + 12 + 4 * i))) [0..<NDIRECT + 1]"
  proof (rule map_cong [OF refl])
    fix i assume "i \<in> set [0..<NDIRECT + 1]"
    then have "12 + 4 * i + 4 \<le> 64" by auto
    from g [OF this] show "unat (get32 (dinode_put inum di d) (64 * (inum' mod IPB) + 12 + 4 * i)) = unat (get32 d (64 * (inum' mod IPB) + 12 + 4 * i))"
      by (simp only: add.assoc)
  qed
  show ?thesis unfolding dinode_get_def Let_def m
    using h [of 0] h [of 2] h [of 4] h [of 6] g [of 8] by (simp only: add_0_right)
qed

end
