(* ===== verification/Mkfs.thy ===== *)
theory Mkfs
  imports Filemap Dir
begin

text \<open>
  The image builder, \<^verbatim>\<open>mkfs/mkfs.c\<close>.  Its state is the image file, a list of sectors, and the two
  counters \<open>freeinode\<close> and \<open>freeblock\<close>.  \<open>None\<close> is an exit with failure: a failing \<open>assert\<close>, or \<open>die\<close>
  because a sector behind the end of the image cannot be read.  A hole in the image file reads as zeros.
  The host is little-endian, and its
  \<open>lseek\<close> and \<open>write\<close> succeed; the parameter \<open>host\<close> says for the name of an input file what the calls of
  \<open>read\<close> return for it, piece by piece, or \<open>None\<close> when it cannot be opened.
\<close>

section \<open>The program\<close>

record mkfs =
  img :: "nat \<Rightarrow> u8 list"
  nsect :: nat
  freeinode :: nat
  freeblock :: nat

abbreviation (input) NINODES :: nat where "NINODES \<equiv> 200"

definition nbitmap :: nat where "nbitmap = FSSIZE div BPB + 1"
definition ninodeblocks :: nat where "ninodeblocks = NINODES div IPB + 1"
definition nlog :: nat where "nlog = nat LOGBLOCKS + 1"
definition nmeta :: nat where "nmeta = 2 + nlog + ninodeblocks + nbitmap"

definition xshort :: "u16 \<Rightarrow> u16" where
  "xshort x = word_of_bytes [ucast x, ucast (drop_bit 8 x)]"

definition xint :: "u32 \<Rightarrow> u32" where
  "xint x = word_of_bytes [ucast x, ucast (drop_bit 8 x), ucast (drop_bit 16 x), ucast (drop_bit 24 x)]"

definition mk_sb :: superblock where
  "mk_sb =
     \<lparr>sb_magic = FSMAGIC, sb_size = unat (xint (of_nat FSSIZE)), sb_nblocks = unat (xint (of_nat (FSSIZE - nmeta))),
      sb_ninodes = unat (xint (of_nat NINODES)), sb_nlog = unat (xint (of_nat nlog)), sb_logstart = unat (xint 2),
      sb_inodestart = unat (xint (of_nat (2 + nlog))), sb_bmapstart = unat (xint (of_nat (2 + nlog + ninodeblocks)))\<rparr>"

definition sb_bytes :: "superblock \<Rightarrow> u8 list" where
  "sb_bytes S =
     bytes_of 4 (sb_magic S) @ bytes_of 4 (of_nat (sb_size S) :: u32) @ bytes_of 4 (of_nat (sb_nblocks S) :: u32)
     @ bytes_of 4 (of_nat (sb_ninodes S) :: u32) @ bytes_of 4 (of_nat (sb_nlog S) :: u32)
     @ bytes_of 4 (of_nat (sb_logstart S) :: u32) @ bytes_of 4 (of_nat (sb_inodestart S) :: u32)
     @ bytes_of 4 (of_nat (sb_bmapstart S) :: u32)"

definition wsect :: "nat \<Rightarrow> u8 list \<Rightarrow> mkfs \<Rightarrow> mkfs" where
  "wsect sec buf st = st\<lparr>img := (img st)(sec := buf), nsect := max (nsect st) (sec + 1)\<rparr>"

definition rsect :: "nat \<Rightarrow> mkfs \<Rightarrow> u8 list option" where
  "rsect sec st = (if sec < nsect st then Some (img st sec) else None)"

definition mk_IBLOCK :: "nat \<Rightarrow> nat" where
  "mk_IBLOCK inum = inum div IPB + sb_inodestart mk_sb"

definition winode :: "nat \<Rightarrow> dinode \<Rightarrow> mkfs \<Rightarrow> mkfs option" where
  "winode inum ip st =
     Option.bind (rsect (mk_IBLOCK inum) st) (\<lambda>buf.
       Some (wsect (mk_IBLOCK inum) (dinode_put inum ip buf) st))"

definition rinode :: "nat \<Rightarrow> mkfs \<Rightarrow> dinode option" where
  "rinode inum st = Option.bind (rsect (mk_IBLOCK inum) st) (\<lambda>buf. Some (dinode_get buf inum))"

definition mk_ialloc :: "int \<Rightarrow> mkfs \<Rightarrow> (nat \<times> mkfs) option" where
  "mk_ialloc type st =
     (let inum = freeinode st;
          st = st\<lparr>freeinode := freeinode st + 1\<rparr>;
          din = \<lparr>di_type = sint (xshort (of_int type)), di_major = 0, di_minor = 0, di_nlink = sint (xshort 1),
                 di_size = xint 0, di_addrs = replicate (NDIRECT + 1) 0\<rparr>
      in Option.bind (winode inum din st) (\<lambda>st. Some (inum, st)))"

definition mk_balloc :: "nat \<Rightarrow> mkfs \<Rightarrow> mkfs option" where
  "mk_balloc used st =
     (if \<not> used < BPB then None
      else Some (wsect (sb_bmapstart mk_sb) (fold bm_set [0..<used] (replicate BSIZE 0)) st))"

text \<open>The block of the disk for block \<open>fbn\<close> of the file, taken from \<open>freeblock\<close> when there is none.\<close>

definition iappend_block :: "dinode \<Rightarrow> nat \<Rightarrow> mkfs \<Rightarrow> (nat \<times> dinode \<times> mkfs) option" where
  "iappend_block din fbn st =
     (if fbn < NDIRECT then
        let (din, st) =
              (if di_addrs din ! fbn = 0
               then (din\<lparr>di_addrs := (di_addrs din)[fbn := freeblock st]\<rparr>, st\<lparr>freeblock := freeblock st + 1\<rparr>)
               else (din, st))
        in Some (di_addrs din ! fbn, din, st)
      else
        let (din, st) =
              (if di_addrs din ! NDIRECT = 0
               then (din\<lparr>di_addrs := (di_addrs din)[NDIRECT := freeblock st]\<rparr>, st\<lparr>freeblock := freeblock st + 1\<rparr>)
               else (din, st))
        in Option.bind (rsect (di_addrs din ! NDIRECT) st) (\<lambda>indirect.
             let (indirect, st) =
                   (if get32 indirect (4 * (fbn - NDIRECT)) = 0
                    then let indirect = put32 (4 * (fbn - NDIRECT)) (xint (of_nat (freeblock st))) indirect
                         in (indirect, wsect (di_addrs din ! NDIRECT) indirect (st\<lparr>freeblock := freeblock st + 1\<rparr>))
                    else (indirect, st))
             in Some (unat (xint (get32 indirect (4 * (fbn - NDIRECT)))), din, st)))"

function iappend_loop :: "dinode \<Rightarrow> nat \<Rightarrow> u8 list \<Rightarrow> mkfs \<Rightarrow> (dinode \<times> nat \<times> mkfs) option" where
  "iappend_loop din off p st =
     (if p = [] then Some (din, off, st)
      else let fbn = off div BSIZE
           in if \<not> fbn < MAXFILE then None
              else case iappend_block din fbn st of
                     None \<Rightarrow> None
                   | Some (x, din, st) \<Rightarrow>
                       let n1 = min (length p) ((fbn + 1) * BSIZE - off)
                       in case rsect x st of
                            None \<Rightarrow> None
                          | Some buf \<Rightarrow>
                              iappend_loop din (off + n1) (drop n1 p)
                                (wsect x (store_at (off - fbn * BSIZE) (take n1 p) buf) st))"
  by pat_completeness auto
termination
proof (relation "measure (\<lambda>(din, off, p, st). length p)")
  fix off :: nat and p :: "u8 list" and n1 fbn :: nat
  assume "p \<noteq> []" "fbn = off div BSIZE" "n1 = min (length p) ((fbn + 1) * BSIZE - off)"
  moreover have "off div BSIZE * BSIZE + off mod BSIZE = off" "off mod BSIZE < BSIZE" by simp_all
  then have "off < (off div BSIZE + 1) * BSIZE" unfolding add_mult_distrib by linarith
  ultimately have "length (drop n1 p) < length p" by (simp add: min_def)
  then show "((din', off + n1, drop n1 p, st'), din, off, p, st) \<in> measure (\<lambda>(din, off, p, st). length p)" for din din' st st'
    by simp
qed auto

declare iappend_loop.simps [simp del]

definition iappend :: "nat \<Rightarrow> u8 list \<Rightarrow> mkfs \<Rightarrow> mkfs option" where
  "iappend inum p st =
     Option.bind (rinode inum st) (\<lambda>din.
     Option.bind (iappend_loop din (unat (xint (di_size din))) p st) (\<lambda>(din, off, st).
       winode inum (din\<lparr>di_size := xint (of_nat off)\<rparr>) st))"

definition mk_dirent :: "nat \<Rightarrow> u8 list \<Rightarrow> u8 list" where
  "mk_dirent inum name = bytes_of 2 (xshort (of_nat inum)) @ take DIRSIZ (name @ replicate DIRSIZ 0)"

text \<open>The name a file gets: without \<^verbatim>\<open>user/\<close> and without a leading underscore.\<close>

definition shortname :: "u8 list \<Rightarrow> u8 list option" where
  "shortname arg =
     (let name = (if take 5 arg = [117, 115, 101, 114, 47] then drop 5 arg else arg)
      in if 47 \<in> set name then None
         else let name = (if name \<noteq> [] \<and> hd name = 95 then tl name else name)
              in if length name \<le> DIRSIZ then Some name else None)"

fun iappends :: "nat \<Rightarrow> u8 list list \<Rightarrow> mkfs \<Rightarrow> mkfs option" where
  "iappends inum [] st = Some st"
| "iappends inum (c # cs) st = Option.bind (iappend inum c st) (iappends inum cs)"

fun mk_files :: "(u8 list \<Rightarrow> u8 list list option) \<Rightarrow> nat \<Rightarrow> u8 list list \<Rightarrow> mkfs \<Rightarrow> mkfs option" where
  "mk_files host rootino [] st = Some st"
| "mk_files host rootino (arg # args) st =
     Option.bind (shortname arg) (\<lambda>name.
     Option.bind (host arg) (\<lambda>chunks.
     Option.bind (mk_ialloc T_FILE st) (\<lambda>(inum, st).
     Option.bind (iappend rootino (mk_dirent inum name) st) (\<lambda>st.
     Option.bind (iappends inum chunks st) (mk_files host rootino args)))))"

definition mk_start :: mkfs where
  "mk_start =
     (let st = \<lparr>img = (\<lambda>_. replicate BSIZE 0), nsect = 0, freeinode = 1, freeblock = nmeta\<rparr>;
          st = fold (\<lambda>i. wsect i (replicate BSIZE 0)) [0..<FSSIZE] st
      in wsect 1 (store_at 0 (sb_bytes mk_sb) (replicate BSIZE 0)) st)"

definition mk_main :: "(u8 list \<Rightarrow> u8 list list option) \<Rightarrow> u8 list list \<Rightarrow> mkfs option" where
  "mk_main host argv =
     (if length argv < 2 then None
      else Option.bind (mk_ialloc T_DIR mk_start) (\<lambda>(rootino, st).
        if rootino \<noteq> ROOTINO then None
        else Option.bind (iappend rootino (mk_dirent rootino [46]) st) (\<lambda>st.
        Option.bind (iappend rootino (mk_dirent rootino [46, 46]) st) (\<lambda>st.
        Option.bind (mk_files host rootino (drop 2 argv) st) (\<lambda>st.
        Option.bind (rinode rootino st) (\<lambda>din.
          let off = unat (xint (di_size din)); off = (off div BSIZE + 1) * BSIZE
          in Option.bind (winode rootino (din\<lparr>di_size := xint (of_nat off)\<rparr>) st) (\<lambda>st.
             mk_balloc (freeblock st) st)))))))"

end
