(* ===== verification/Cache.thy ===== *)
theory Cache
  imports Bio
begin

text \<open>
  The buffer cache as its users see it.  \<open>cache_ok d pid P H s\<close> says that the cache represents the
  device \<open>d\<close>: \<open>P\<close> gives the blocks the log has pinned with their contents, \<open>H\<close> the blocks the
  current process (with pid \<open>pid\<close>) holds locked with theirs, every other cached block equals the
  disk, no block is cached twice, and the reference counts are what \<open>P\<close> and \<open>H\<close> say.  Each routine
  of \<^verbatim>\<open>bio.c\<close> is an update of \<open>P\<close>, \<open>H\<close> and the disk.
\<close>

definition curpid :: "kernel \<Rightarrow> int option" where
  "curpid s = map_option (\<lambda>p. p_pid (procs s ! p)) (myproc s)"

definition content :: "(nat \<rightharpoonup> u8 list) \<Rightarrow> (nat \<rightharpoonup> u8 list) \<Rightarrow> (nat \<Rightarrow> u8 list) \<Rightarrow> nat \<Rightarrow> u8 list" where
  "content P H dk b = (case H b of Some x \<Rightarrow> x | None \<Rightarrow> (case P b of Some x \<Rightarrow> x | None \<Rightarrow> dk b))"

definition buf_ok :: "nat \<Rightarrow> int \<Rightarrow> (nat \<rightharpoonup> u8 list) \<Rightarrow> (nat \<rightharpoonup> u8 list) \<Rightarrow> (nat \<Rightarrow> u8 list) \<Rightarrow> buf \<Rightarrow> bool" where
  "buf_ok d pid P H dk x \<longleftrightarrow>
     (if b_dev x = d then
        b_refcnt x = (if P (b_blockno x) = None then 0 else 1) + (if H (b_blockno x) = None then 0 else 1)
        \<and> (sl_locked (b_lock x) \<longleftrightarrow> H (b_blockno x) \<noteq> None)
        \<and> (sl_locked (b_lock x) \<longrightarrow> sl_pid (b_lock x) = pid)
        \<and> (b_valid x \<longrightarrow> b_data x = content P H dk (b_blockno x))
      else b_refcnt x = 0 \<and> \<not> sl_locked (b_lock x))"

definition has_buf :: "nat \<Rightarrow> nat \<Rightarrow> nat \<Rightarrow> kernel \<Rightarrow> bool" where
  "has_buf d i b s \<longleftrightarrow> i < NBUF \<and> b_dev (bufs s ! i) = d \<and> b_blockno (bufs s ! i) = b \<and> b_valid (bufs s ! i)"

definition cache_ok :: "nat \<Rightarrow> int \<Rightarrow> (nat \<rightharpoonup> u8 list) \<Rightarrow> (nat \<rightharpoonup> u8 list) \<Rightarrow> kernel \<Rightarrow> bool" where
  "cache_ok d pid P H s \<longleftrightarrow>
     length (bufs s) = NBUF \<and> distinct (lru s) \<and> set (lru s) = {..<NBUF} \<and> curpid s = Some pid
     \<and> (\<forall>i<NBUF. \<forall>j<NBUF. b_dev (bufs s ! i) = d \<longrightarrow> b_dev (bufs s ! j) = d
          \<longrightarrow> b_blockno (bufs s ! i) = b_blockno (bufs s ! j) \<longrightarrow> i = j)
     \<and> (\<forall>b\<in>dom P \<union> dom H. \<exists>i. has_buf d i b s)
     \<and> (\<forall>i<NBUF. buf_ok d pid P H (disk s) (bufs s ! i))"

lemma mypid_curpid: "curpid s = Some pid \<Longrightarrow> mypid s = Done pid s"
  by (auto simp: curpid_def mypid_def split: option.splits)

lemma upd_at_procs_pid: "p_pid (upd_at i (wakes ch me i) ps ! j) = p_pid (ps ! j)"
  by (cases "i = j"; cases "i < length ps") (auto simp: wakes_def upd_at_def list_update_beyond)

lemma curpid_wakeup [simp]: "curpid (wakeup ch s) = curpid s"
proof -
  have "p_pid (fold (\<lambda>i. upd_at i (wakes ch me i)) is ps ! j) = p_pid (ps ! j)" for me "is" ps j
    by (induction "is" arbitrary: ps) (simp_all add: upd_at_procs_pid)
  then show ?thesis by (simp add: curpid_def wakeup_eq myproc_def mycpu_def)
qed

lemma curpid_upd [simp]:
  "curpid (s\<lparr>bufs := x1\<rparr>) = curpid s" "curpid (s\<lparr>lru := x2\<rparr>) = curpid s" "curpid (s\<lparr>disk := x3\<rparr>) = curpid s"
  "curpid (s\<lparr>dwrites := x4\<rparr>) = curpid s" "curpid (s\<lparr>klog := x5\<rparr>) = curpid s" "curpid (upd_buf i f s) = curpid s"
  "curpid (printk fm as s) = curpid s"
  by (simp_all add: curpid_def upd_buf_def)

lemma upd_buf_simps [simp]:
  "bufs (upd_buf i f s) = upd_at i f (bufs s)" "lru (upd_buf i f s) = lru s" "disk (upd_buf i f s) = disk s"
  "dwrites (upd_buf i f s) = dwrites s" "klog (upd_buf i f s) = klog s" "kmsgs (upd_buf i f s) = kmsgs s"
  by (simp_all add: upd_buf_def)

lemma sl_buf_simps [simp]:
  "sl_get (SlBuf i) s = b_lock (bufs s ! i)" "sl_put (SlBuf i) lk s = upd_buf i (\<lambda>b. b\<lparr>b_lock := lk\<rparr>) s"
  by (simp_all add: sl_get_def sl_put_def upd_buf_def)

lemma cache_unique:
  "cache_ok d pid P H s \<Longrightarrow> has_buf d i b s \<Longrightarrow> has_buf d j b s \<Longrightarrow> i = j"
  by (simp add: cache_ok_def has_buf_def)

lemma cache_held:
  assumes "cache_ok d pid P H s" "H b = Some x"
  obtains i where "has_buf d i b s" "sl_locked (b_lock (bufs s ! i))" "sl_pid (b_lock (bufs s ! i)) = pid" "b_data (bufs s ! i) = x"
proof -
  have "b \<in> dom P \<union> dom H" using assms(2) by blast
  with assms(1) obtain i where i: "has_buf d i b s" unfolding cache_ok_def by blast
  then have "buf_ok d pid P H (disk s) (bufs s ! i)" using assms by (simp add: cache_ok_def has_buf_def)
  with i assms(2) show thesis by (intro that [of i]) (auto simp: buf_ok_def has_buf_def content_def)
qed

lemma cache_pinned: "cache_ok d pid P H s \<Longrightarrow> P b \<noteq> None \<Longrightarrow> \<exists>i. has_buf d i b s"
proof -
  assume "cache_ok d pid P H s" "P b \<noteq> None"
  moreover from this have "b \<in> dom P \<union> dom H" by blast
  ultimately show ?thesis unfolding cache_ok_def by blast
qed

text \<open>A buffer other than the ones in use is free.\<close>

lemma free_buffer:
  assumes ok: "cache_ok d pid P H s" and fin: "finite (dom P \<union> dom H)" and few: "card (dom P \<union> dom H) < NBUF"
  shows "\<exists>i<NBUF. b_refcnt (bufs s ! i) = 0"
proof (rule ccontr)
  assume "\<not> ?thesis"
  then have nz: "b_refcnt (bufs s ! i) \<noteq> 0" if "i < NBUF" for i using that by blast
  have used: "b_dev (bufs s ! i) = d \<and> b_blockno (bufs s ! i) \<in> dom P \<union> dom H" if "i < NBUF" for i
  proof -
    have "buf_ok d pid P H (disk s) (bufs s ! i)" using ok that by (simp add: cache_ok_def)
    then show ?thesis using nz [OF that] by (auto simp: buf_ok_def split: if_splits)
  qed
  have "inj_on (\<lambda>i. b_blockno (bufs s ! i)) {..<NBUF}"
    using ok used by (auto simp: inj_on_def cache_ok_def)
  then have "card ((\<lambda>i. b_blockno (bufs s ! i)) ` {..<NBUF}) = NBUF" by (simp add: card_image)
  moreover have "(\<lambda>i. b_blockno (bufs s ! i)) ` {..<NBUF} \<subseteq> dom P \<union> dom H" using used by blast
  then have "card ((\<lambda>i. b_blockno (bufs s ! i)) ` {..<NBUF}) \<le> card (dom P \<union> dom H)" by (rule card_mono [OF fin])
  ultimately show False using few by simp
qed

section \<open>bread\<close>

definition held_buf :: "nat \<Rightarrow> nat \<Rightarrow> int \<Rightarrow> bool \<Rightarrow> u8 list \<Rightarrow> buf" where
  "held_buf d b pid pinned c =
     \<lparr>b_valid = True, b_dev = d, b_blockno = b, b_lock = \<lparr>sl_locked = True, sl_pid = pid\<rparr>,
      b_refcnt = (if pinned then 2 else 1), b_data = c\<rparr>"

lemma upd_buf_upd_buf: "upd_buf i f (upd_buf i g s) = upd_buf i (f \<circ> g) s"
  by (cases "i < length (bufs s)") (simp_all add: upd_buf_def upd_at_def list_update_beyond)

lemma upd_buf_cong: "i = j \<Longrightarrow> f (bufs s ! j) = g (bufs s ! j) \<Longrightarrow> s = t \<Longrightarrow> upd_buf i f s = upd_buf j g t"
  by (simp add: upd_buf_def upd_at_def)

lemma nth_upd_at_buf: "length (bufs s) = NBUF \<Longrightarrow> i < NBUF \<Longrightarrow> upd_at i f (bufs s) ! i = f (bufs s ! i)"
  by simp

lemma acquire_buf:
  "curpid s = Some pid \<Longrightarrow> \<not> sl_locked (b_lock (bufs s ! i)) \<Longrightarrow>
   acquiresleep (SlBuf i) s = Done () (upd_buf i (\<lambda>b. b\<lparr>b_lock := \<lparr>sl_locked = True, sl_pid = pid\<rparr>\<rparr>) s)"
  by (simp add: acquiresleep_def mypid_curpid)

text \<open>The rest of \<open>bread\<close> once \<open>bget\<close> has updated the buffer by \<open>f\<close>.\<close>

lemma bread_finish:
  assumes "bget d b s = Done i (upd_buf i f s)" "length (bufs s) = NBUF" "i < NBUF"
    and "b_blockno (f (bufs s ! i)) = b"
  shows "bread d b s = Done i (upd_buf i (\<lambda>x. if b_valid (f x) then f x else (f x)\<lparr>b_data := disk s b, b_valid := True\<rparr>) s)"
proof (cases "b_valid (f (bufs s ! i))")
  case True
  then have "bread d b s = Done i (upd_buf i f s)" using assms by (simp add: bread_def)
  also have "upd_buf i f s = upd_buf i (\<lambda>x. if b_valid (f x) then f x else (f x)\<lparr>b_data := disk s b, b_valid := True\<rparr>) s"
    using True by (intro upd_buf_cong) simp_all
  finally show ?thesis .
next
  case False
  let ?g = "\<lambda>x. (f x)\<lparr>b_data := disk s b, b_valid := True\<rparr>"
  from False have "bread d b s = Done i (upd_buf i ?g s)"
    using assms by (simp add: bread_def virtio_disk_rw_def upd_buf_upd_buf comp_def)
  also have "upd_buf i ?g s = upd_buf i (\<lambda>x. if b_valid (f x) then f x else ?g x) s"
    using False by (intro upd_buf_cong) simp_all
  finally show ?thesis .
qed

text \<open>The buffer \<open>bget\<close> hands out is the one that has the block, or a free one when none has.\<close>

lemma bread_result:
  assumes ok: "cache_ok d pid P H s" and fin: "finite (dom P \<union> dom H)" and few: "P b = None \<Longrightarrow> card (dom P \<union> dom H) < NBUF"
    and b: "H b = None"
  shows "\<exists>i<NBUF. bread d b s = Done i (s\<lparr>bufs := (bufs s)[i := held_buf d b pid (P b \<noteq> None) (content P H (disk s) b)]\<rparr>)
    \<and> (b_dev (bufs s ! i) = d \<and> b_blockno (bufs s ! i) = b
       \<or> b_refcnt (bufs s ! i) = 0 \<and> (\<forall>j<NBUF. \<not> (b_dev (bufs s ! j) = d \<and> b_blockno (bufs s ! j) = b)))"
proof -
  have lru: "set (lru s) = {..<NBUF}" "length (bufs s) = NBUF" and pid: "curpid s = Some pid"
    using ok by (simp_all add: cache_ok_def)
  have bo: "buf_ok d pid P H (disk s) (bufs s ! i)" if "i < NBUF" for i using ok that by (simp add: cache_ok_def)
  let ?f = "find_idx (\<lambda>i. b_dev (bufs s ! i) = d \<and> b_blockno (bufs s ! i) = b) (lru s)"
  show ?thesis
  proof (cases ?f)
    case (Some i)
    then have i: "i < NBUF" "b_dev (bufs s ! i) = d" "b_blockno (bufs s ! i) = b"
      using find_idx_Some [OF Some] lru by auto
    have inv: "P b = None" if "\<not> b_valid (bufs s ! i)"
    proof (rule ccontr)
      assume "P b \<noteq> None"
      then obtain j where "has_buf d j b s" using cache_pinned [OF ok] by blast
      then have "j = i" using ok i by (auto simp: cache_ok_def has_buf_def)
      with \<open>has_buf d j b s\<close> that show False by (simp add: has_buf_def)
    qed
    have x: "b_refcnt (bufs s ! i) = (if P b = None then 0 else 1)" "\<not> sl_locked (b_lock (bufs s ! i))"
      "b_valid (bufs s ! i) \<Longrightarrow> b_data (bufs s ! i) = content P H (disk s) b"
      using bo [OF i(1)] i b by (auto simp: buf_ok_def)
    let ?f = "\<lambda>x. x\<lparr>b_refcnt := b_refcnt x + 1, b_lock := \<lparr>sl_locked = True, sl_pid = pid\<rparr>\<rparr>"
    have "bget d b s = Done i (upd_buf i ?f s)"
      using i x(2) lru acquire_buf [of "upd_buf i (\<lambda>x. x\<lparr>b_refcnt := b_refcnt x + 1\<rparr>) s" pid i] pid
      by (simp add: bget_def Some upd_buf_upd_buf comp_def)
    from bread_finish [OF this lru(2) i(1)] i have "bread d b s
        = Done i (upd_buf i (\<lambda>x. if b_valid (?f x) then ?f x else (?f x)\<lparr>b_data := disk s b, b_valid := True\<rparr>) s)" by simp
    also have "\<dots> = Done i (s\<lparr>bufs := (bufs s)[i := held_buf d b pid (P b \<noteq> None) (content P H (disk s) b)]\<rparr>)"
      using i x inv b by (cases "bufs s ! i") (auto simp: upd_buf_def upd_at_def held_buf_def content_def)
    finally have "bread d b s = Done i (s\<lparr>bufs := (bufs s)[i := held_buf d b pid (P b \<noteq> None) (content P H (disk s) b)]\<rparr>)" .
    with i show ?thesis by blast
  next
    case None
    then have none: "\<forall>j<NBUF. \<not> (b_dev (bufs s ! j) = d \<and> b_blockno (bufs s ! j) = b)"
      using lru by (auto simp: find_idx_None)
    have P: "P b = None"
    proof (rule ccontr)
      assume "P b \<noteq> None"
      then obtain j where "has_buf d j b s" using cache_pinned [OF ok] by blast
      with none show False unfolding has_buf_def by blast
    qed
    obtain k where k: "k < NBUF" "b_refcnt (bufs s ! k) = 0" using free_buffer [OF ok fin few [OF P]] by blast
    then have "find_idx (\<lambda>i. b_refcnt (bufs s ! i) = 0) (rev (lru s)) \<noteq> None"
      using lru by (auto simp: find_idx_None)
    then obtain i where Some: "find_idx (\<lambda>i. b_refcnt (bufs s ! i) = 0) (rev (lru s)) = Some i" by blast
    then have i: "i < NBUF" "b_refcnt (bufs s ! i) = 0" using find_idx_Some [OF Some] lru by auto
    have "\<not> sl_locked (b_lock (bufs s ! i))"
      using bo [OF i(1)] i by (auto simp: buf_ok_def split: if_splits)
    let ?f = "\<lambda>x. x\<lparr>b_dev := d, b_blockno := b, b_valid := False, b_refcnt := 1, b_lock := \<lparr>sl_locked = True, sl_pid = pid\<rparr>\<rparr>"
    have "bget d b s = Done i (upd_buf i ?f s)"
      using i \<open>\<not> sl_locked (b_lock (bufs s ! i))\<close> lru pid
        acquire_buf [of "upd_buf i (\<lambda>x. x\<lparr>b_dev := d, b_blockno := b, b_valid := False, b_refcnt := 1\<rparr>) s" pid i]
      by (simp add: bget_def None Some upd_buf_upd_buf comp_def)
    from bread_finish [OF this lru(2) i(1)] have "bread d b s
        = Done i (upd_buf i (\<lambda>x. (?f x)\<lparr>b_data := disk s b, b_valid := True\<rparr>) s)" by simp
    also have "\<dots> = Done i (s\<lparr>bufs := (bufs s)[i := held_buf d b pid (P b \<noteq> None) (content P H (disk s) b)]\<rparr>)"
      using P b by (cases "bufs s ! i") (simp add: upd_buf_def upd_at_def held_buf_def content_def)
    finally have "bread d b s = Done i (s\<lparr>bufs := (bufs s)[i := held_buf d b pid (P b \<noteq> None) (content P H (disk s) b)]\<rparr>)" .
    with i none show ?thesis by blast
  qed
qed

section \<open>Updates\<close>

text \<open>One buffer changes, and with it what the cache says about one block.\<close>

lemma cache_update:
  assumes ok: "cache_ok d pid P H s" and i: "i < NBUF"
    and old: "b_dev (bufs s ! i) = d \<and> b_blockno (bufs s ! i) = b
       \<or> b_refcnt (bufs s ! i) = 0 \<and> (\<forall>j<NBUF. \<not> (b_dev (bufs s ! j) = d \<and> b_blockno (bufs s ! j) = b))"
    and s': "bufs s' = (bufs s)[i := y]" "distinct (lru s')" "set (lru s') = {..<NBUF}" "curpid s' = Some pid"
    and y: "b_dev y = d" "b_blockno y = b" "b_valid y" "buf_ok d pid P' H' (disk s') y"
    and same: "\<And>c. c \<noteq> b \<Longrightarrow> P' c = P c \<and> H' c = H c \<and> disk s' c = disk s c"
  shows "cache_ok d pid P' H' s'" and "has_buf d i b s'"
    and "\<And>j c. has_buf d j c s \<Longrightarrow> c \<noteq> b \<Longrightarrow> c \<in> dom P \<union> dom H \<Longrightarrow> has_buf d j c s'"
proof -
  have len: "length (bufs s) = NBUF" and bo: "\<And>j. j < NBUF \<Longrightarrow> buf_ok d pid P H (disk s) (bufs s ! j)"
    and uni: "\<And>j k. j < NBUF \<Longrightarrow> k < NBUF \<Longrightarrow> b_dev (bufs s ! j) = d \<Longrightarrow> b_dev (bufs s ! k) = d
        \<Longrightarrow> b_blockno (bufs s ! j) = b_blockno (bufs s ! k) \<Longrightarrow> j = k"
    using ok by (simp_all add: cache_ok_def)
  have nb: "bufs s' ! j = (if j = i then y else bufs s ! j)" if "j < NBUF" for j using that len i by (simp add: s'(1))
  have other: "b_blockno (bufs s ! j) \<noteq> b" if "j < NBUF" "j \<noteq> i" "b_dev (bufs s ! j) = d" for j
    using old uni [of j i] that i by auto
  have keep: "has_buf d j c s'" if "has_buf d j c s" "c \<noteq> b" "c \<in> dom P \<union> dom H" for j c
  proof -
    have "j \<noteq> i"
    proof
      assume "j = i"
      with that have "b_dev (bufs s ! i) = d" "b_blockno (bufs s ! i) = c" by (simp_all add: has_buf_def)
      with that bo [OF i] have "b_refcnt (bufs s ! i) \<noteq> 0" by (auto simp: buf_ok_def)
      with old \<open>b_blockno (bufs s ! i) = c\<close> \<open>c \<noteq> b\<close> show False by auto
    qed
    with that show ?thesis by (simp add: has_buf_def nb)
  qed
  have new: "has_buf d i b s'" using i y by (simp add: has_buf_def nb)
  have "buf_ok d pid P' H' (disk s') (bufs s' ! j)" if "j < NBUF" for j
  proof (cases "j = i")
    case False
    with bo [OF that] other [OF that False] same [of "b_blockno (bufs s ! j)"] that show ?thesis
      by (auto simp: nb buf_ok_def content_def split: option.split)
  next
    case True
    with y i show ?thesis by (simp add: nb)
  qed
  moreover have "\<exists>j. has_buf d j c s'" if c: "c \<in> dom P' \<union> dom H'" for c
  proof (cases "c = b")
    case False
    with same [OF False] c have "c \<in> dom P \<union> dom H" by auto
    moreover obtain j where "has_buf d j c s" using ok calculation unfolding cache_ok_def by blast
    ultimately show ?thesis using keep False by blast
  qed (use new in blast)
  moreover have "j = k" if "j < NBUF" "k < NBUF" "b_dev (bufs s' ! j) = d" "b_dev (bufs s' ! k) = d"
      "b_blockno (bufs s' ! j) = b_blockno (bufs s' ! k)" for j k
  proof (cases "j = i")
    case True
    then show ?thesis using that other [of k] y by (cases "k = i") (simp_all add: nb)
  next
    case False
    then show ?thesis using that other [of j] uni [of j k] y by (cases "k = i") (simp_all add: nb)
  qed
  ultimately show "cache_ok d pid P' H' s'" using s' len by (simp add: cache_ok_def)
  show "has_buf d i b s'" by (rule new)
  show "\<And>j c. has_buf d j c s \<Longrightarrow> c \<noteq> b \<Longrightarrow> c \<in> dom P \<union> dom H \<Longrightarrow> has_buf d j c s'" by (rule keep)
qed

text \<open>What the rest of the file system looks at beside the cache.\<close>

definition same_log :: "kernel \<Rightarrow> kernel \<Rightarrow> bool" where
  "same_log s s' \<longleftrightarrow> klog s' = klog s \<and> disk s' = disk s \<and> dwrites s' = dwrites s"

definition keeps_bufs :: "nat \<Rightarrow> (nat \<rightharpoonup> u8 list) \<Rightarrow> kernel \<Rightarrow> kernel \<Rightarrow> bool" where
  "keeps_bufs d H s s' \<longleftrightarrow> (\<forall>j c. c \<in> dom H \<longrightarrow> has_buf d j c s \<longrightarrow> has_buf d j c s')"

lemma bread_spec:
  assumes ok: "cache_ok d pid P H s" and fin: "finite (dom P \<union> dom H)" and few: "P b = None \<Longrightarrow> card (dom P \<union> dom H) < NBUF" and b: "H b = None"
  shows "\<exists>i s'. bread d b s = Done i s' \<and> same_log s s'
    \<and> cache_ok d pid P (H(b \<mapsto> content P H (disk s) b)) s' \<and> has_buf d i b s'
    \<and> keeps_bufs d H s s'"
proof -
  let ?y = "held_buf d b pid (P b \<noteq> None) (content P H (disk s) b)"
  obtain i where i: "i < NBUF" "bread d b s = Done i (s\<lparr>bufs := (bufs s)[i := ?y]\<rparr>)"
    and old: "b_dev (bufs s ! i) = d \<and> b_blockno (bufs s ! i) = b
       \<or> b_refcnt (bufs s ! i) = 0 \<and> (\<forall>j<NBUF. \<not> (b_dev (bufs s ! j) = d \<and> b_blockno (bufs s ! j) = b))"
    using bread_result [OF assms] by blast
  let ?s = "s\<lparr>bufs := (bufs s)[i := ?y]\<rparr>"
  have y: "b_dev ?y = d" "b_blockno ?y = b" "b_valid ?y" "buf_ok d pid P (H(b \<mapsto> content P H (disk s) b)) (disk ?s) ?y"
    by (simp_all add: buf_ok_def held_buf_def content_def)
  have s': "bufs ?s = (bufs s)[i := ?y]" "distinct (lru ?s)" "set (lru ?s) = {..<NBUF}" "curpid ?s = Some pid"
    using ok by (simp_all add: cache_ok_def)
  note u = cache_update [OF ok i(1) old s' y]
  have "has_buf d j c ?s" if "c \<in> dom H" "has_buf d j c s" for j c
    using that b by (intro u(3)) auto
  moreover have "cache_ok d pid P (H(b \<mapsto> content P H (disk s) b)) ?s" "has_buf d i b ?s"
    by (rule u(1), simp) (rule u(2), simp)
  ultimately show ?thesis using i by (intro exI [of _ i] exI [of _ ?s]) (simp add: same_log_def keeps_bufs_def)
qed

section \<open>Held buffers\<close>

lemma held_facts:
  assumes "cache_ok d pid P H s" "H b = Some x" "has_buf d i b s"
  shows "i < NBUF" "length (bufs s) = NBUF" "b_dev (bufs s ! i) = d" "b_blockno (bufs s ! i) = b" "b_valid (bufs s ! i)"
    "sl_locked (b_lock (bufs s ! i))" "sl_pid (b_lock (bufs s ! i)) = pid" "b_data (bufs s ! i) = x"
    "b_refcnt (bufs s ! i) = (if P b = None then 1 else 2)" "curpid s = Some pid"
    "distinct (lru s)" "set (lru s) = {..<NBUF}"
proof -
  have "buf_ok d pid P H (disk s) (bufs s ! i)" using assms by (simp add: cache_ok_def has_buf_def)
  with assms show "i < NBUF" "length (bufs s) = NBUF" "b_dev (bufs s ! i) = d" "b_blockno (bufs s ! i) = b" "b_valid (bufs s ! i)"
    "sl_locked (b_lock (bufs s ! i))" "sl_pid (b_lock (bufs s ! i)) = pid" "b_data (bufs s ! i) = x"
    "b_refcnt (bufs s ! i) = (if P b = None then 1 else 2)" "curpid s = Some pid"
    "distinct (lru s)" "set (lru s) = {..<NBUF}"
    by (auto simp: buf_ok_def has_buf_def cache_ok_def content_def)
qed

lemma held_update:
  assumes "cache_ok d pid P H s" "H b = Some x" "has_buf d i b s"
    and "bufs s' = (bufs s)[i := y]" "distinct (lru s')" "set (lru s') = {..<NBUF}" "curpid s' = Some pid"
    and "b_dev y = d" "b_blockno y = b" "b_valid y" "buf_ok d pid P' H' (disk s') y"
    and "\<And>c. c \<noteq> b \<Longrightarrow> P' c = P c \<and> H' c = H c \<and> disk s' c = disk s c"
  shows "cache_ok d pid P' H' s' \<and> has_buf d i b s' \<and> keeps_bufs d H s s'"
proof -
  note f = held_facts [OF assms(1-3)]
  note u = cache_update [OF assms(1) f(1) disjI1 [OF conjI [OF f(3,4)]] assms(4-11)]
  have new: "has_buf d i b s'" by (rule u(2)) (use assms(12) in blast)
  have "keeps_bufs d H s s'" unfolding keeps_bufs_def
  proof (intro allI impI)
    fix j c assume c: "c \<in> dom H" "has_buf d j c s"
    show "has_buf d j c s'"
    proof (cases "c = b")
      case True
      with c have "j = i" using cache_unique [OF assms(1) _ assms(3)] by blast
      with new True show ?thesis by simp
    next
      case False
      then show ?thesis using c by (intro u(3)) (use assms(12) in auto)
    qed
  qed
  moreover have "cache_ok d pid P' H' s'" by (rule u(1)) (use assms(12) in blast)
  ultimately show ?thesis using new by blast
qed

lemma set_data_spec:
  assumes "cache_ok d pid P H s" "H b = Some x" "has_buf d i b s"
  shows "cache_ok d pid P (H(b \<mapsto> z)) (set_data i z s) \<and> has_buf d i b (set_data i z s) \<and> keeps_bufs d H s (set_data i z s)
    \<and> same_log s (set_data i z s)"
proof -
  note f = held_facts [OF assms]
  have "cache_ok d pid P (H(b \<mapsto> z)) (set_data i z s) \<and> has_buf d i b (set_data i z s) \<and> keeps_bufs d H s (set_data i z s)"
    by (rule held_update [OF assms, where y = "(bufs s ! i)\<lparr>b_data := z\<rparr>"])
      (use f in \<open>simp_all add: set_data_def upd_at_def buf_ok_def content_def\<close>)
  then show ?thesis by (simp add: same_log_def set_data_def)
qed

lemma holding_buf:
  assumes "cache_ok d pid P H s" "H b = Some x" "has_buf d i b s"
  shows "holdingsleep (SlBuf i) s = Done True s"
  using held_facts [OF assms] by (simp add: holdingsleep_def mypid_curpid)

lemma bwrite_spec:
  assumes "cache_ok d pid P H s" "H b = Some x" "has_buf d i b s"
  shows "\<exists>s'. bwrite i s = Done () s' \<and> s' = s\<lparr>disk := (disk s)(b := x), dwrites := dwrites s @ [(b, x)]\<rparr>
    \<and> cache_ok d pid P H s' \<and> keeps_bufs d H s s'"
proof -
  note f = held_facts [OF assms]
  let ?s = "s\<lparr>disk := (disk s)(b := x), dwrites := dwrites s @ [(b, x)]\<rparr>"
  have "cache_ok d pid P H ?s \<and> has_buf d i b ?s \<and> keeps_bufs d H s ?s"
    by (rule held_update [OF assms, where y = "bufs s ! i"])
      (use f assms(2) in \<open>simp_all add: buf_ok_def content_def\<close>)
  moreover have "bwrite i s = Done () ?s"
    using f by (simp add: bwrite_def holding_buf [OF assms] virtio_disk_rw_def)
  ultimately show ?thesis by blast
qed

lemma held_lru:
  assumes "same_log s t" "bufs t = bs" "lru t = lru s" "curpid t = Some pid"
    and "distinct (lru s)" "set (lru s) = {..<NBUF}" "i < NBUF"
  shows "same_log s (if Q then t\<lparr>lru := i # remove1 i (lru t)\<rparr> else t)"
    "bufs (if Q then t\<lparr>lru := i # remove1 i (lru t)\<rparr> else t) = bs"
    "distinct (lru (if Q then t\<lparr>lru := i # remove1 i (lru t)\<rparr> else t))"
    "set (lru (if Q then t\<lparr>lru := i # remove1 i (lru t)\<rparr> else t)) = {..<NBUF}"
    "curpid (if Q then t\<lparr>lru := i # remove1 i (lru t)\<rparr> else t) = Some pid"
  using assms by (auto simp: same_log_def)

lemma brelse_spec:
  assumes "cache_ok d pid P H s" "H b = Some x" "has_buf d i b s" and x: "x = content P (H(b := None)) (disk s) b"
  shows "\<exists>s'. brelse i s = Done () s' \<and> cache_ok d pid P (H(b := None)) s' \<and> keeps_bufs d H s s' \<and> same_log s s'"
proof -
  note f = held_facts [OF assms(1-3)]
  let ?y = "(bufs s ! i)\<lparr>b_lock := \<lparr>sl_locked = False, sl_pid = 0\<rparr>, b_refcnt := b_refcnt (bufs s ! i) - 1\<rparr>"
  let ?s1 = "upd_buf i (\<lambda>x. x\<lparr>b_refcnt := b_refcnt x - 1\<rparr>) (releasesleep (SlBuf i) s)"
  let ?s2 = "if b_refcnt (bufs ?s1 ! i) = 0 then ?s1\<lparr>lru := i # remove1 i (lru ?s1)\<rparr> else ?s1"
  have rel: "brelse i s = Done () ?s2"
    by (simp only: brelse_def holding_buf [OF assms(1-3)] obind.simps Let_def not_True_eq_False if_False)
  have one: "same_log s ?s1" "bufs ?s1 = (bufs s)[i := ?y]" "lru ?s1 = lru s" "curpid ?s1 = Some pid"
    using f by (simp_all add: releasesleep_def upd_at_def same_log_def)
  have two: "same_log s ?s2" "bufs ?s2 = (bufs s)[i := ?y]" "distinct (lru ?s2)" "set (lru ?s2) = {..<NBUF}" "curpid ?s2 = Some pid"
    by (rule held_lru [OF one]; use f in simp)+
  from rel two have "\<exists>s'. brelse i s = Done () s' \<and> same_log s s' \<and> bufs s' = (bufs s)[i := ?y] \<and> distinct (lru s')
     \<and> set (lru s') = {..<NBUF} \<and> curpid s' = Some pid" by blast
  then obtain s' where s': "brelse i s = Done () s'" "same_log s s'" "bufs s' = (bufs s)[i := ?y]" "distinct (lru s')"
     "set (lru s') = {..<NBUF}" "curpid s' = Some pid" by blast
  have "cache_ok d pid P (H(b := None)) s' \<and> has_buf d i b s' \<and> keeps_bufs d H s s'"
    by (rule held_update [OF assms(1-3) s'(3-6)])
      (use f x s'(2) in \<open>simp_all add: buf_ok_def same_log_def\<close>)
  with s' show ?thesis by blast
qed

lemma bunpin_spec:
  assumes "cache_ok d pid P H s" "H b = Some x" "has_buf d i b s" and "P b \<noteq> None"
  shows "cache_ok d pid (P(b := None)) H (bunpin i s) \<and> keeps_bufs d H s (bunpin i s) \<and> same_log s (bunpin i s)"
proof -
  note f = held_facts [OF assms(1-3)]
  have "cache_ok d pid (P(b := None)) H (bunpin i s) \<and> has_buf d i b (bunpin i s) \<and> keeps_bufs d H s (bunpin i s)"
    by (rule held_update [OF assms(1-3), where y = "(bufs s ! i)\<lparr>b_refcnt := b_refcnt (bufs s ! i) - 1\<rparr>"])
      (use f assms in \<open>simp_all add: bunpin_def upd_at_def buf_ok_def content_def\<close>)
  then show ?thesis by (simp add: same_log_def bunpin_def)
qed

end
