(* ===== verification/Crash.thy ===== *)
theory Crash
  imports Cache Log
begin

text \<open>
  Crash safety of the write-ahead log.  The disk performs block writes one after the other; a crash
  keeps the effect of a prefix of them and loses the memory.  The theory computes the writes of
  \<open>commit\<close> and of \<open>recover_from_log\<close> and shows that recovery after a crash at any point of a commit
  gives all of the transaction or none of it, and that recovery itself may be interrupted.
\<close>

definition apply_writes :: "(nat \<times> u8 list) list \<Rightarrow> (nat \<Rightarrow> u8 list) \<Rightarrow> nat \<Rightarrow> u8 list" where
  "apply_writes ws dk = fold (\<lambda>(b, x) dk. dk(b := x)) ws dk"

definition wrote :: "(nat \<times> u8 list) list \<Rightarrow> kernel \<Rightarrow> kernel \<Rightarrow> bool" where
  "wrote ws s s' \<longleftrightarrow> klog s' = klog s \<and> disk s' = apply_writes ws (disk s) \<and> dwrites s' = dwrites s @ ws"

lemma apply_writes_simps [simp]:
  "apply_writes [] dk = dk" "apply_writes (w # ws) dk = apply_writes ws (dk(fst w := snd w))"
  "apply_writes (us @ ws) dk = apply_writes ws (apply_writes us dk)"
  by (simp_all add: apply_writes_def case_prod_beta)

lemma apply_writes_other: "b \<notin> fst ` set ws \<Longrightarrow> apply_writes ws dk b = dk b"
  by (induction ws arbitrary: dk) auto

lemma apply_writes_at:
  "distinct (map fst ws) \<Longrightarrow> (b, x) \<in> set ws \<Longrightarrow> apply_writes ws dk b = x"
  by (induction ws arbitrary: dk) (force simp: apply_writes_other)+

lemma wrote_trans: "wrote us s t \<Longrightarrow> wrote ws t u \<Longrightarrow> wrote (us @ ws) s u"
  by (simp add: wrote_def)

lemma same_log_wrote: "same_log s s' \<longleftrightarrow> wrote [] s s'"
  by (simp add: same_log_def wrote_def)

section \<open>The steps of a commit\<close>

lemma write_log_step:
  assumes ok: "cache_ok d pid P Map.empty s" and fin: "finite (dom P)" and few: "card (dom P) < NBUF"
    and lg: "l_dev (klog s) = d" "lh_block (klog s) ! t = b" "l_start (klog s) + t + 1 = c" and b: "P b = Some x" and c: "P c = None"
  shows "\<exists>s'. write_log_loop (t # ts) s = write_log_loop ts s' \<and> cache_ok d pid P Map.empty s' \<and> wrote [(c, x)] s s'"
proof -
  have bc: "b \<noteq> c" using b c by auto
  obtain i s1 where s1: "bread d c s = Done i s1" "same_log s s1" "cache_ok d pid P [c \<mapsto> disk s c] s1" "has_buf d i c s1"
    using bread_spec [OF ok, of c] fin few c by (auto simp: content_def)
  obtain j s2 where s2: "bread d b s1 = Done j s2" "same_log s1 s2" "cache_ok d pid P [c \<mapsto> disk s c, b \<mapsto> x] s2" "has_buf d j b s2"
     "has_buf d i c s2"
    using bread_spec [OF s1(3), of b] fin b bc s1(4) by (auto simp: content_def keeps_bufs_def)
  have data: "b_data (bufs s2 ! j) = x" using held_facts(8) [OF s2(3) _ s2(4)] by simp
  let ?s3 = "set_data i x s2"
  have s3: "cache_ok d pid P [c \<mapsto> x, b \<mapsto> x] ?s3" "has_buf d i c ?s3" "has_buf d j b ?s3" "same_log s2 ?s3"
    using set_data_spec [OF s2(3) _ s2(5), of "disk s c" x] bc s2(4) by (auto simp: keeps_bufs_def fun_upd_twist)
  obtain s4 where s4: "bwrite i ?s3 = Done () s4" "wrote [(c, x)] ?s3 s4" "cache_ok d pid P [c \<mapsto> x, b \<mapsto> x] s4"
     "has_buf d i c s4" "has_buf d j b s4"
    using bwrite_spec [OF s3(1) _ s3(2), of x] s3(2,3) bc by (auto simp: keeps_bufs_def wrote_def)
  obtain s5 where s5: "brelse j s4 = Done () s5" "cache_ok d pid P [c \<mapsto> x] s5" "same_log s4 s5" "has_buf d i c s5"
    using brelse_spec [OF s4(3) _ s4(5), of x] s4(4) b bc by (auto simp: content_def keeps_bufs_def)
  have dc: "disk s5 c = x" using s4(2) s5(3) by (simp add: wrote_def same_log_def)
  obtain s6 where s6: "brelse i s5 = Done () s6" "cache_ok d pid P Map.empty s6" "same_log s5 s6"
    using brelse_spec [OF s5(2) _ s5(4), of x] c dc by (auto simp: content_def)
  have k: "klog s1 = klog s" using s1 by (simp add: same_log_def)
  have "wrote [(c, x)] s s6"
    using s1(2) s2(2) s3(4) s4(2) s5(3) s6(3) by (simp add: same_log_def wrote_def)
  moreover have "write_log_loop (t # ts) s = write_log_loop ts s6"
    using lg s1(1) s2(1) s4(1) s5(1) s6(1) by (simp add: k data)
  ultimately show ?thesis using s6(2) by blast
qed

lemma write_log_loop_spec:
  assumes "cache_ok d pid P Map.empty s" and "finite (dom P)" and "card (dom P) < NBUF"
    and "l_dev (klog s) = d" "bl = lh_block (klog s)" "L = l_start (klog s)"
    and "\<And>t. t \<in> set ts \<Longrightarrow> P (bl ! t) \<noteq> None \<and> P (L + t + 1) = None"
  shows "\<exists>s'. write_log_loop ts s = Done () s' \<and> cache_ok d pid P Map.empty s'
    \<and> wrote (map (\<lambda>t. (L + t + 1, the (P (bl ! t)))) ts) s s'"
  using assms(1,4-)
proof (induction ts arbitrary: s)
  case Nil
  then show ?case by (simp add: wrote_def)
next
  case (Cons t ts)
  from Cons.prems(5) [of t] obtain x where x: "P (bl ! t) = Some x" "P (L + t + 1) = None" by auto
  obtain s1 where s1: "write_log_loop (t # ts) s = write_log_loop ts s1" "cache_ok d pid P Map.empty s1" "wrote [(L + t + 1, x)] s s1"
    using write_log_step [OF Cons.prems(1) assms(2,3) Cons.prems(2) _ _ x, of t ts] Cons.prems(3,4) by auto
  have "klog s1 = klog s" using s1(3) by (simp add: wrote_def)
  then obtain s2 where s2: "write_log_loop ts s1 = Done () s2" "cache_ok d pid P Map.empty s2"
     "wrote (map (\<lambda>t. (L + t + 1, the (P (bl ! t)))) ts) s1 s2"
    using Cons.IH [OF s1(2)] Cons.prems(2-5) by auto
  from wrote_trans [OF s1(3) s2(3)] s1(1) s2(1,2) x(1) show ?case by auto
qed

text \<open>The header block is read, changed and written.\<close>

lemma write_head_spec:
  assumes ok: "cache_ok d pid P Map.empty s" and fin: "finite (dom P)" and few: "card (dom P) < NBUF"
    and lg: "l_dev (klog s) = d" "l_start (klog s) = L" and c: "P L = None"
  shows "\<exists>s'. write_head s = Done () s' \<and> cache_ok d pid P Map.empty s'
    \<and> wrote [(L, hdr_put (lh_n (klog s)) (lh_block (klog s)) (disk s L))] s s'"
proof -
  let ?x = "hdr_put (lh_n (klog s)) (lh_block (klog s)) (disk s L)"
  obtain i s1 where s1: "bread d L s = Done i s1" "same_log s s1" "cache_ok d pid P [L \<mapsto> disk s L] s1" "has_buf d i L s1"
    using bread_spec [OF ok, of L] fin few c by (auto simp: content_def)
  have data: "b_data (bufs s1 ! i) = disk s L" using held_facts(8) [OF s1(3) _ s1(4)] by simp
  have k: "klog s1 = klog s" using s1 by (simp add: same_log_def)
  have s2: "cache_ok d pid P [L \<mapsto> ?x] (set_data i ?x s1)" "has_buf d i L (set_data i ?x s1)" "same_log s1 (set_data i ?x s1)"
    using set_data_spec [OF s1(3) _ s1(4), of "disk s L" ?x] by auto
  obtain s3 where s3: "bwrite i (set_data i ?x s1) = Done () s3" "wrote [(L, ?x)] (set_data i ?x s1) s3" "cache_ok d pid P [L \<mapsto> ?x] s3" "has_buf d i L s3"
    using bwrite_spec [OF s2(1) _ s2(2), of ?x] s2(2) by (auto simp: keeps_bufs_def wrote_def)
  have dc: "disk s3 L = ?x" using s3(2) by (simp add: wrote_def)
  obtain s4 where s4: "brelse i s3 = Done () s4" "cache_ok d pid P Map.empty s4" "same_log s3 s4"
    using brelse_spec [OF s3(3) _ s3(4), of ?x] c dc by (auto simp: content_def)
  have "wrote [(L, ?x)] s s4" using s1(2) s2(3) s3(2) s4(3) by (simp add: same_log_def wrote_def)
  moreover have "write_head s = Done () s4"
    using lg s1(1) s3(1) s4(1) by (simp add: write_head_def k data)
  ultimately show ?thesis using s4(2) by blast
qed

text \<open>One block is installed: after a commit from the pinned buffer, which is unpinned, in recovery
  from the log block of an empty cache.\<close>

lemma install_step:
  assumes ok: "cache_ok d pid P Map.empty s" and fin: "finite (dom P)" and few: "card (dom P) + 1 < NBUF \<or> card (dom P) < NBUF \<and> P b \<noteq> None"
    and lg: "l_dev (klog s) = d" "lh_block (klog s) ! t = b" "l_start (klog s) + t + 1 = c" and c: "P c = None" "b \<noteq> c"
    and r: "r = (P b = None)" and x: "x = disk s c"
  shows "\<exists>s'. install_loop (t # ts) r s = install_loop ts r s' \<and> cache_ok d pid (P(b := None)) Map.empty s' \<and> wrote [(b, x)] s s'"
proof -
  let ?s = "if r then printk ''recovering tail %d dst %d'' [int t, int (lh_block (klog s) ! t)] s else s"
  have s0: "cache_ok d pid P Map.empty ?s" "same_log s ?s"
    using ok by (auto simp: cache_ok_def has_buf_def same_log_def)
  obtain i s1 where s1: "bread d c ?s = Done i s1" "same_log ?s s1" "cache_ok d pid P [c \<mapsto> x] s1" "has_buf d i c s1"
    using bread_spec [OF s0(1), of c] fin few c s0(2) x by (auto simp: content_def same_log_def)
  have "card (insert c (dom P)) < NBUF" if "P b = None" using few that fin by (auto simp: card_insert_if)
  then obtain y j s2 where s2: "bread d b s1 = Done j s2" "same_log s1 s2" "cache_ok d pid P [c \<mapsto> x, b \<mapsto> y] s2" "has_buf d j b s2"
     "has_buf d i c s2"
    using bread_spec [OF s1(3), of b] fin c s1(4) by (auto simp: keeps_bufs_def)
  have data: "b_data (bufs s2 ! i) = x" using held_facts(8) [OF s2(3) _ s2(5)] c by simp
  let ?s3 = "set_data j x s2"
  have s3: "cache_ok d pid P [c \<mapsto> x, b \<mapsto> x] ?s3" "has_buf d i c ?s3" "has_buf d j b ?s3" "same_log s2 ?s3"
    using set_data_spec [OF s2(3) _ s2(4), of y x] s2(5) by (auto simp: keeps_bufs_def)
  obtain s4 where s4: "bwrite j ?s3 = Done () s4" "wrote [(b, x)] ?s3 s4" "cache_ok d pid P [c \<mapsto> x, b \<mapsto> x] s4"
     "has_buf d i c s4" "has_buf d j b s4"
    using bwrite_spec [OF s3(1) _ s3(3), of x] s3(2,3) by (auto simp: keeps_bufs_def wrote_def)
  let ?s5 = "if \<not> r then bunpin j s4 else s4"
  have s5: "cache_ok d pid (P(b := None)) [c \<mapsto> x, b \<mapsto> x] ?s5" "has_buf d i c ?s5" "has_buf d j b ?s5" "same_log s4 ?s5"
  proof -
    have "P(b := None) = P" if r using that r by auto
    then show "cache_ok d pid (P(b := None)) [c \<mapsto> x, b \<mapsto> x] ?s5" "has_buf d i c ?s5" "has_buf d j b ?s5" "same_log s4 ?s5"
      using bunpin_spec [OF s4(3) _ s4(5), of x] s4(3-5) r by (auto simp: keeps_bufs_def same_log_def)
  qed
  have dk: "disk ?s5 c = x" "disk ?s5 b = x" using s0(2) s1(2) s2(2) s3(4) s4(2) s5(4) c x by (simp_all add: wrote_def same_log_def)
  obtain s6 where s6: "brelse i ?s5 = Done () s6" "cache_ok d pid (P(b := None)) [b \<mapsto> x] s6" "same_log ?s5 s6" "has_buf d j b s6"
    using brelse_spec [OF s5(1) _ s5(2), of x] s5(3) c dk by (auto simp: content_def keeps_bufs_def fun_upd_twist)
  have "disk s6 b = x" using s6(3) dk by (simp add: same_log_def)
  then obtain s7 where s7: "brelse j s6 = Done () s7" "cache_ok d pid (P(b := None)) Map.empty s7" "same_log s6 s7"
    using brelse_spec [OF s6(2) _ s6(4), of x] by (auto simp: content_def)
  have k: "klog s1 = klog s" "klog ?s = klog s" using s1 s0 by (simp_all add: same_log_def)
  have "wrote [(b, x)] s s7"
    using s0(2) s1(2) s2(2) s3(4) s4(2) s5(4) s6(3) s7(3) by (simp add: same_log_def wrote_def)
  moreover have "install_loop (t # ts) r s = install_loop ts r s7"
    using lg s1(1) s2(1) s4(1) s6(1) s7(1) k data by (cases r) (simp_all add: Let_def)
  ultimately show ?thesis using s7(2) by blast
qed

lemma install_loop_spec:
  assumes "cache_ok d pid P Map.empty s" and "r \<and> P = Map.empty \<or> \<not> r \<and> finite (dom P) \<and> card (dom P) < NBUF"
    and "l_dev (klog s) = d" "bl = lh_block (klog s)" "L = l_start (klog s)"
    and "distinct (map ((!) bl) ts)"
    and "\<And>t. t \<in> set ts \<Longrightarrow> P (L + t + 1) = None \<and> r = (P (bl ! t) = None)"
    and "\<And>t u. t \<in> set ts \<Longrightarrow> u \<in> set ts \<Longrightarrow> bl ! t \<noteq> L + u + 1"
  shows "\<exists>s'. install_loop ts r s = Done () s' \<and> cache_ok d pid (P |` (- (!) bl ` set ts)) Map.empty s'
    \<and> wrote (map (\<lambda>t. (bl ! t, disk s (L + t + 1))) ts) s s'"
  using assms
proof (induction ts arbitrary: s P)
  case Nil
  then show ?case by (simp add: wrote_def)
next
  case (Cons t ts)
  let ?b = "bl ! t" and ?c = "L + t + 1" and ?x = "disk s (L + t + 1)"
  have fin: "finite (dom P)" "card (dom P) + 1 < NBUF \<or> card (dom P) < NBUF \<and> P ?b \<noteq> None"
    using Cons.prems(2) Cons.prems(7) [of t] by auto
  obtain s1 where s1: "install_loop (t # ts) r s = install_loop ts r s1" "cache_ok d pid (P(?b := None)) Map.empty s1" "wrote [(?b, ?x)] s s1"
    using install_step [OF Cons.prems(1) fin Cons.prems(3), of t ?c r ?x ts] Cons.prems(4,5) Cons.prems(7) [of t] Cons.prems(8) [of t t] by auto
  have k: "klog s1 = klog s" and dk: "disk s1 = (disk s)(?b := ?x)" using s1(3) by (simp_all add: wrote_def)
  have "card (dom (P(?b := None))) \<le> card (dom P)" using fin(1) by (auto intro: card_mono)
  then have few: "r \<and> P(?b := None) = Map.empty \<or> \<not> r \<and> finite (dom (P(?b := None))) \<and> card (dom (P(?b := None))) < NBUF"
    using Cons.prems(2) by auto
  have "\<exists>s'. install_loop ts r s1 = Done () s' \<and> cache_ok d pid (P(?b := None) |` (- (!) bl ` set ts)) Map.empty s'
      \<and> wrote (map (\<lambda>t. (bl ! t, disk s1 (L + t + 1))) ts) s1 s'"
  proof (rule Cons.IH [OF s1(2) few])
    show "(P(?b := None)) (L + u + 1) = None \<and> r = ((P(?b := None)) (bl ! u) = None)" if "u \<in> set ts" for u
    proof -
      from that have "bl ! u \<in> (!) bl ` set ts" by (rule imageI)
      with Cons.prems(6) have "bl ! u \<noteq> ?b" by auto
      with that Cons.prems(7) [of u] show ?thesis by auto
    qed
  qed (use Cons.prems(3-6,8) k in auto)
  then obtain s2 where s2: "install_loop ts r s1 = Done () s2" "cache_ok d pid (P(?b := None) |` (- (!) bl ` set ts)) Map.empty s2"
     "wrote (map (\<lambda>t. (bl ! t, disk s1 (L + t + 1))) ts) s1 s2" by blast
  have m: "map (\<lambda>t. (bl ! t, disk s1 (L + t + 1))) ts = map (\<lambda>t. (bl ! t, disk s (L + t + 1))) ts"
  proof (intro map_cong refl)
    fix u assume "u \<in> set ts"
    then have "?b \<noteq> L + u + 1" by (intro Cons.prems(8)) simp_all
    then show "(bl ! u, disk s1 (L + u + 1)) = (bl ! u, disk s (L + u + 1))" by (simp add: dk)
  qed
  have p: "P(?b := None) |` (- (!) bl ` set ts) = P |` (- (!) bl ` set (t # ts))" by (auto simp: restrict_map_def)
  have "wrote (map (\<lambda>t. (bl ! t, disk s (L + t + 1))) (t # ts)) s s2"
    using wrote_trans [OF s1(3) s2(3) [unfolded m]] by simp
  moreover have "install_loop (t # ts) r s = Done () s2" by (simp only: s1(1) s2(1))
  ultimately show ?case using s2(2) [unfolded p] by blast
qed

section \<open>The header\<close>

lemma hdr_fold:
  assumes "int n \<le> LOGBLOCKS" "length d = BSIZE"
  shows "length (fold (\<lambda>i d. put32 (4 + 4 * i) (of_nat (bl ! i)) d) [0..<n] d) = BSIZE
    \<and> get32 (fold (\<lambda>i d. put32 (4 + 4 * i) (of_nat (bl ! i)) d) [0..<n] d) 0 = get32 d 0
    \<and> (\<forall>i<n. get32 (fold (\<lambda>i d. put32 (4 + 4 * i) (of_nat (bl ! i)) d) [0..<n] d) (4 + 4 * i) = of_nat (bl ! i))"
  using assms by (induction n) (auto simp: get_put32_other less_Suc_eq)

lemma hdr_put_get:
  assumes "int n \<le> LOGBLOCKS" "length d = BSIZE"
  shows "length (hdr_put (int n) bl d) = BSIZE" "get32 (hdr_put (int n) bl d) 0 = of_nat n"
    "\<And>i. i < n \<Longrightarrow> get32 (hdr_put (int n) bl d) (4 + 4 * i) = of_nat (bl ! i)"
  using hdr_fold [of n "put32 0 (of_nat n) d" bl] assms by (simp_all add: hdr_put_def)

text \<open>The blocks a header on disk names, and what recovery writes.\<close>

definition log_blocks :: "nat \<Rightarrow> (nat \<Rightarrow> u8 list) \<Rightarrow> nat list" where
  "log_blocks L dk = map (\<lambda>i. unat (get32 (dk L) (4 + 4 * i))) [0..<nat (sint (get32 (dk L) 0))]"

definition log_disk :: "nat \<Rightarrow> (nat \<Rightarrow> u8 list) \<Rightarrow> bool" where
  "log_disk L dk \<longleftrightarrow> length (dk L) = BSIZE \<and> 0 \<le> sint (get32 (dk L) 0) \<and> sint (get32 (dk L) 0) \<le> LOGBLOCKS
     \<and> distinct (log_blocks L dk) \<and> (\<forall>b\<in>set (log_blocks L dk). b \<notin> {L..L + nat LOGBLOCKS})"

definition install_writes :: "nat \<Rightarrow> (nat \<Rightarrow> u8 list) \<Rightarrow> (nat \<times> u8 list) list" where
  "install_writes L dk = map (\<lambda>i. (log_blocks L dk ! i, dk (L + i + 1))) [0..<length (log_blocks L dk)]"

definition recovery_writes :: "nat \<Rightarrow> (nat \<Rightarrow> u8 list) \<Rightarrow> (nat \<times> u8 list) list" where
  "recovery_writes L dk = install_writes L dk @ [(L, put32 0 0 (dk L))]"

lemma install_writes_fst: "map fst (install_writes L dk) = log_blocks L dk" "fst ` set (install_writes L dk) = set (log_blocks L dk)"
proof -
  show *: "map fst (install_writes L dk) = log_blocks L dk" by (simp add: install_writes_def comp_def map_nth)
  show "fst ` set (install_writes L dk) = set (log_blocks L dk)" by (simp flip: * set_map)
qed

lemma hdr_get_blocks:
  assumes "log_disk L dk" "length bl = nat LOGBLOCKS" "hdr_get (dk L) bl = (n, bl')"
  shows "n = int (length (log_blocks L dk))" "length bl' = nat LOGBLOCKS" "\<And>i. i < nat n \<Longrightarrow> bl' ! i = log_blocks L dk ! i"
proof -
  have "length (fold (\<lambda>i bl. bl[i := f i]) [0..<m] bl) = length bl" for f :: "nat \<Rightarrow> nat" and m by (induction m) simp_all
  moreover have "fold (\<lambda>i bl. bl[i := f i]) [0..<m] bl ! i = f i" if "i < m" "m \<le> length bl" for f :: "nat \<Rightarrow> nat" and m i
    using that by (induction m) (auto simp: calculation nth_list_update less_Suc_eq)
  ultimately show "n = int (length (log_blocks L dk))" "length bl' = nat LOGBLOCKS" "\<And>i. i < nat n \<Longrightarrow> bl' ! i = log_blocks L dk ! i"
    using assms by (auto simp: hdr_get_def Let_def log_blocks_def log_disk_def)
qed

lemma cache_ok_upd_log [simp]: "cache_ok d pid P H (upd_log f s) = cache_ok d pid P H s" "has_buf d i b (upd_log f s) = has_buf d i b s"
  by (simp_all add: cache_ok_def has_buf_def upd_log_def)

lemma upd_log_simps [simp]:
  "klog (upd_log f s) = f (klog s)" "disk (upd_log f s) = disk s" "dwrites (upd_log f s) = dwrites s" "bufs (upd_log f s) = bufs s"
  by (simp_all add: upd_log_def)

lemma read_head_spec:
  assumes ok: "cache_ok d pid Map.empty Map.empty s" and lg: "l_dev (klog s) = d" "l_start (klog s) = L"
    and h: "hdr_get (disk s L) (lh_block (klog s)) = (n, bl)"
  shows "\<exists>s'. read_head s = Done () s' \<and> cache_ok d pid Map.empty Map.empty s'
    \<and> klog s' = (klog s)\<lparr>lh_n := n, lh_block := bl\<rparr> \<and> disk s' = disk s \<and> dwrites s' = dwrites s"
proof -
  obtain i s1 where s1: "bread d L s = Done i s1" "same_log s s1" "cache_ok d pid Map.empty [L \<mapsto> disk s L] s1" "has_buf d i L s1"
    using bread_spec [OF ok, of L] by (auto simp: content_def)
  have data: "b_data (bufs s1 ! i) = disk s L" using held_facts(8) [OF s1(3) _ s1(4)] by simp
  let ?s = "upd_log (\<lambda>l. l\<lparr>lh_n := n, lh_block := bl\<rparr>) s1"
  have "cache_ok d pid Map.empty [L \<mapsto> disk s L] ?s" "has_buf d i L ?s" using s1 by simp_all
  then obtain s2 where s2: "brelse i ?s = Done () s2" "cache_ok d pid Map.empty Map.empty s2" "same_log ?s s2"
    using brelse_spec [of d pid Map.empty "[L \<mapsto> disk s L]" ?s L "disk s L" i] s1(2) by (auto simp: content_def same_log_def)
  have "read_head s = Done () s2"
    using lg h s1(1,2) s2(1) by (simp add: read_head_def data same_log_def)
  with s2 s1(2) show ?thesis by (simp add: same_log_def)
qed

lemma hdr_put_0: "hdr_put 0 bl x = put32 0 0 x"
  by (simp add: hdr_put_def)

lemma recover_spec:
  assumes ok: "cache_ok d pid Map.empty Map.empty s" and ld: "log_disk L (disk s)"
    and lg: "l_dev (klog s) = d" "l_start (klog s) = L" "length (lh_block (klog s)) = nat LOGBLOCKS"
  shows "\<exists>s'. recover_from_log s = Done () s' \<and> cache_ok d pid Map.empty Map.empty s' \<and> lh_n (klog s') = 0
    \<and> dwrites s' = dwrites s @ recovery_writes L (disk s) \<and> disk s' = apply_writes (recovery_writes L (disk s)) (disk s)"
proof -
  let ?h = "log_blocks L (disk s)"
  obtain n bl where h: "hdr_get (disk s L) (lh_block (klog s)) = (n, bl)" by (cases "hdr_get (disk s L) (lh_block (klog s))")
  note n = hdr_get_blocks [OF ld lg(3) h]
  obtain s1 where s1: "read_head s = Done () s1" "cache_ok d pid Map.empty Map.empty s1"
      "klog s1 = (klog s)\<lparr>lh_n := n, lh_block := bl\<rparr>" "disk s1 = disk s" "dwrites s1 = dwrites s"
    using read_head_spec [OF ok lg(1,2) h] by auto
  have eq: "map ((!) bl) [0..<nat n] = ?h" using n by (intro nth_equalityI) simp_all
  have out: "bl ! t \<noteq> L + u + 1" if "t < nat n" "u < nat n" for t u
  proof -
    have "n \<le> LOGBLOCKS" using ld n(1) by (simp add: log_disk_def log_blocks_def)
    then have "nat n \<le> nat LOGBLOCKS" by simp
    moreover have "bl ! t \<in> set ?h" using that n by simp
    then have "bl ! t \<notin> {L..L + nat LOGBLOCKS}" using ld by (simp add: log_disk_def)
    ultimately show ?thesis using that by auto
  qed
  have "\<exists>s'. install_loop [0..<nat n] True s1 = Done () s' \<and> cache_ok d pid (Map.empty |` (- (!) bl ` set [0..<nat n])) Map.empty s'
    \<and> wrote (map (\<lambda>t. (bl ! t, disk s1 (L + t + 1))) [0..<nat n]) s1 s'"
    by (rule install_loop_spec [OF s1(2)]) (use s1(3) lg eq ld out in \<open>simp_all add: log_disk_def\<close>)
  moreover have "map (\<lambda>t. (bl ! t, disk s1 (L + t + 1))) [0..<nat n] = install_writes L (disk s)"
    using n by (simp add: install_writes_def s1(4))
  ultimately obtain s2 where s2: "install_trans True s1 = Done () s2" "cache_ok d pid Map.empty Map.empty s2" "wrote (install_writes L (disk s)) s1 s2"
    by (auto simp: install_trans_def s1(3))
  let ?s = "upd_log (\<lambda>l. l\<lparr>lh_n := 0\<rparr>) s2"
  have dL: "disk s2 L = disk s L"
  proof -
    have "L \<notin> set ?h" using ld by (auto simp: log_disk_def)
    then have "L \<notin> fst ` set (install_writes L (disk s))" by (simp add: install_writes_fst)
    then show ?thesis using s2(3) by (simp add: wrote_def apply_writes_other s1(4))
  qed
  have "\<exists>s'. write_head ?s = Done () s' \<and> cache_ok d pid Map.empty Map.empty s'
    \<and> wrote [(L, hdr_put (lh_n (klog ?s)) (lh_block (klog ?s)) (disk ?s L))] ?s s'"
    by (rule write_head_spec) (use s2 s1(3) lg in \<open>simp_all add: wrote_def\<close>)
  then obtain s3 where s3: "write_head ?s = Done () s3" "cache_ok d pid Map.empty Map.empty s3" "wrote [(L, put32 0 0 (disk s L))] ?s s3"
    by (auto simp: hdr_put_0 dL)
  have "recover_from_log s = Done () s3" by (simp add: recover_from_log_def s1(1) s2(1) s3(1))
  with s3 s2(3) s1(4,5) show ?thesis by (simp add: wrote_def recovery_writes_def)
qed

section \<open>A commit\<close>

text \<open>The state before a commit: the log has pinned the blocks of its header, which are outside the
  log, and the header on the disk is empty.\<close>

definition txn_ok :: "nat \<Rightarrow> int \<Rightarrow> (nat \<rightharpoonup> u8 list) \<Rightarrow> (nat \<rightharpoonup> u8 list) \<Rightarrow> kernel \<Rightarrow> bool" where
  "txn_ok d pid P H s \<longleftrightarrow> cache_ok d pid P H s \<and> l_dev (klog s) = d
     \<and> 0 \<le> lh_n (klog s) \<and> lh_n (klog s) < int NBUF \<and> length (lh_block (klog s)) = nat LOGBLOCKS
     \<and> distinct (take (nat (lh_n (klog s))) (lh_block (klog s)))
     \<and> dom P = set (take (nat (lh_n (klog s))) (lh_block (klog s)))
     \<and> (\<forall>b\<in>dom P. b < 2 ^ 32 \<and> b \<notin> {l_start (klog s)..l_start (klog s) + nat LOGBLOCKS})
     \<and> length (disk s (l_start (klog s))) = BSIZE \<and> get32 (disk s (l_start (klog s))) 0 = 0"

definition log_writes :: "nat \<Rightarrow> nat list \<Rightarrow> (nat \<rightharpoonup> u8 list) \<Rightarrow> nat \<Rightarrow> (nat \<times> u8 list) list" where
  "log_writes L bl P n = map (\<lambda>t. (L + t + 1, the (P (bl ! t)))) [0..<n]"

definition home_writes :: "nat list \<Rightarrow> (nat \<rightharpoonup> u8 list) \<Rightarrow> nat \<Rightarrow> (nat \<times> u8 list) list" where
  "home_writes bl P n = map (\<lambda>t. (bl ! t, the (P (bl ! t)))) [0..<n]"

definition commit_writes :: "nat \<Rightarrow> nat list \<Rightarrow> (nat \<rightharpoonup> u8 list) \<Rightarrow> nat \<Rightarrow> (nat \<Rightarrow> u8 list) \<Rightarrow> (nat \<times> u8 list) list" where
  "commit_writes L bl P n dk =
     log_writes L bl P n @ [(L, hdr_put (int n) bl (dk L))] @ home_writes bl P n @ [(L, put32 0 0 (hdr_put (int n) bl (dk L)))]"

lemma log_writes_at:
  assumes "b \<notin> {L..L + nat LOGBLOCKS}" "int n \<le> LOGBLOCKS"
  shows "apply_writes (log_writes L bl P n) dk b = dk b"
  by (rule apply_writes_other) (use assms in \<open>auto simp: log_writes_def\<close>)

lemma log_writes_head: "apply_writes (log_writes L bl P n) dk L = dk L"
  by (rule apply_writes_other) (auto simp: log_writes_def)

lemma log_writes_block: "i < n \<Longrightarrow> apply_writes (log_writes L bl P n) dk (L + i + 1) = the (P (bl ! i))"
  by (rule apply_writes_at) (auto simp: log_writes_def comp_def distinct_map inj_on_def)

lemma txn_facts:
  assumes "txn_ok d pid P H s" and "n = nat (lh_n (klog s))" "bl = lh_block (klog s)" "L = l_start (klog s)"
  shows "finite (dom P)" "card (dom P) = n" "n < NBUF" "lh_n (klog s) = int n" "length bl = nat LOGBLOCKS"
    "\<And>t. t < n \<Longrightarrow> P (bl ! t) \<noteq> None" "\<And>t. t < n \<Longrightarrow> bl ! t \<notin> {L..L + nat LOGBLOCKS}" "\<And>t. t < n \<Longrightarrow> bl ! t < 2 ^ 32"
    "\<And>t. t \<le> nat LOGBLOCKS \<Longrightarrow> P (L + t) = None" "distinct (map ((!) bl) [0..<n])" "set (map ((!) bl) [0..<n]) = dom P"
proof -
  have len: "length bl = nat LOGBLOCKS" "n < NBUF" using assms by (auto simp: txn_ok_def)
  then have tk: "map ((!) bl) [0..<n] = take n bl" by (intro nth_equalityI) simp_all
  then show "distinct (map ((!) bl) [0..<n])" and dm: "set (map ((!) bl) [0..<n]) = dom P" using assms by (simp_all add: txn_ok_def)
  have d: "distinct (take n bl)" "dom P = set (take n bl)" using assms by (simp_all add: txn_ok_def)
  then show "finite (dom P)" "card (dom P) = n" using distinct_card [OF d(1)] len by simp_all
  show "length bl = nat LOGBLOCKS" "n < NBUF" by fact+
  show "lh_n (klog s) = int n" using assms by (simp add: txn_ok_def)
  have mem: "bl ! t \<in> dom P" if "t < n" for t
  proof -
    have "take n bl ! t \<in> set (take n bl)" using that len by (intro nth_mem) simp
    then show ?thesis using that d by simp
  qed
  then show "\<And>t. t < n \<Longrightarrow> P (bl ! t) \<noteq> None" by blast
  show "\<And>t. t < n \<Longrightarrow> bl ! t \<notin> {L..L + nat LOGBLOCKS}" "\<And>t. t < n \<Longrightarrow> bl ! t < 2 ^ 32"
    using mem assms by (simp_all add: txn_ok_def)
  show "P (L + t) = None" if "t \<le> nat LOGBLOCKS" for t
  proof (rule ccontr)
    assume "P (L + t) \<noteq> None"
    then have "L + t \<in> dom P" by blast
    moreover have "\<forall>b\<in>dom P. b \<notin> {L..L + nat LOGBLOCKS}" using assms by (simp add: txn_ok_def)
    ultimately have "L + t \<notin> {L..L + nat LOGBLOCKS}" by blast
    with that show False by simp
  qed
qed

lemma commit_spec:
  assumes tx: "txn_ok d pid P Map.empty s" and n: "n = nat (lh_n (klog s))" "bl = lh_block (klog s)" "L = l_start (klog s)"
    and W: "W = (if n = 0 then [] else commit_writes L bl P n (disk s))"
  shows "\<exists>s'. commit s = Done () s' \<and> cache_ok d pid Map.empty Map.empty s'
    \<and> klog s' = (klog s)\<lparr>lh_n := 0\<rparr> \<and> disk s' = apply_writes W (disk s) \<and> dwrites s' = dwrites s @ W"
proof (cases "n = 0")
  case True
  then have "lh_n (klog s) = 0" "P = Map.empty" using tx n by (auto simp: txn_ok_def)
  with True W tx show ?thesis by (auto simp: commit_def txn_ok_def)
next
  case False
  note f = txn_facts [OF tx n]
  have ok: "cache_ok d pid P Map.empty s" and dev: "l_dev (klog s) = d" using tx by (simp_all add: txn_ok_def)
  have few: "card (dom P) < NBUF" using f(2,3) by simp
  have "\<exists>s'. write_log_loop [0..<n] s = Done () s' \<and> cache_ok d pid P Map.empty s'
      \<and> wrote (map (\<lambda>t. (L + t + 1, the (P (bl ! t)))) [0..<n]) s s'"
    by (rule write_log_loop_spec [OF ok f(1) few dev n(2,3)]) (use f(3,6) f(9) [of "Suc _"] in simp)
  then obtain s1 where s1: "write_log s = Done () s1" "cache_ok d pid P Map.empty s1" "wrote (log_writes L bl P n) s s1"
    by (auto simp: write_log_def log_writes_def f(4))
  have k1: "klog s1 = klog s" "disk s1 L = disk s L" using s1(3) by (simp_all add: wrote_def log_writes_head)
  let ?x = "hdr_put (int n) bl (disk s L)"
  have e: "P L = None" "l_dev (klog s1) = d" "l_start (klog s1) = L" "hdr_put (lh_n (klog s1)) (lh_block (klog s1)) (disk s1 L) = ?x"
    using f(9) [of 0] by (simp_all add: k1 dev f(4) flip: n(2,3))
  obtain s2 where s2: "write_head s1 = Done () s2" "cache_ok d pid P Map.empty s2" "wrote [(L, ?x)] s1 s2"
    using write_head_spec [OF s1(2) f(1) few e(2,3,1), unfolded e(4)] by blast
  have k2: "klog s2 = klog s" "disk s2 L = ?x" using s2(3) k1 by (simp_all add: wrote_def)
  have d2: "disk s2 (L + t + 1) = the (P (bl ! t))" if "t < n" for t
    using s2(3) s1(3) that log_writes_block [of t n L bl P "disk s"] by (simp add: wrote_def)
  have "\<exists>s'. install_loop [0..<n] False s2 = Done () s' \<and> cache_ok d pid (P |` (- (!) bl ` set [0..<n])) Map.empty s'
      \<and> wrote (map (\<lambda>t. (bl ! t, disk s2 (L + t + 1))) [0..<n]) s2 s'"
  proof (rule install_loop_spec [OF s2(2)])
    show "P (L + t + 1) = None \<and> False = (P (bl ! t) = None)" if "t \<in> set [0..<n]" for t
      using that f(3) f(6) [of t] f(9) [of "Suc t"] by auto
    show "bl ! t \<noteq> L + u + 1" if "t \<in> set [0..<n]" "u \<in> set [0..<n]" for t u
      using that f(3) f(7) [of t] by auto
  qed (use few f(1) dev f(10) in \<open>simp_all add: k2 flip: n(2,3)\<close>)
  moreover have "map (\<lambda>t. (bl ! t, disk s2 (L + t + 1))) [0..<n] = home_writes bl P n"
    unfolding home_writes_def by (intro map_cong refl) (simp only: d2 set_upt atLeastLessThan_iff)
  moreover have "P |` (- (!) bl ` set [0..<n]) = Map.empty"
    using f(11) by (auto simp: restrict_map_def fun_eq_iff)
  ultimately obtain s3 where s3: "install_trans False s2 = Done () s3" "cache_ok d pid Map.empty Map.empty s3" "wrote (home_writes bl P n) s2 s3"
    by (auto simp: install_trans_def k2 f(4))
  let ?s = "upd_log (\<lambda>l. l\<lparr>lh_n := 0\<rparr>) s3"
  have "L \<notin> fst ` set (home_writes bl P n)" using f(7) by (force simp: home_writes_def)
  then have k3: "klog s3 = klog s" "disk s3 L = ?x" using s3(3) k2 by (simp_all add: wrote_def apply_writes_other)
  have "\<exists>s'. write_head ?s = Done () s' \<and> cache_ok d pid Map.empty Map.empty s'
    \<and> wrote [(L, hdr_put (lh_n (klog ?s)) (lh_block (klog ?s)) (disk ?s L))] ?s s'"
    by (rule write_head_spec) (use s3(2) in \<open>simp_all add: k3 dev flip: n(2,3)\<close>)
  then obtain s4 where s4: "write_head ?s = Done () s4" "cache_ok d pid Map.empty Map.empty s4" "wrote [(L, put32 0 0 ?x)] ?s s4"
    by (auto simp: hdr_put_0 k3)
  have "commit s = Done () s4" using False by (simp add: commit_def f(4) s1(1) s2(1) s3(1) s4(1))
  with s4 s3(3) s2(3) s1(3) k3 False W show ?thesis by (simp add: wrote_def commit_writes_def)
qed

section \<open>Crashes\<close>

lemma sint_small: "int n \<le> LOGBLOCKS \<Longrightarrow> sint (of_nat n :: u32) = int n"
  by (simp add: signed_of_nat signed_take_bit_int_eq_self)

lemma log_disk_clean:
  assumes "length (dk L) = BSIZE" "get32 (dk L) 0 = 0"
  shows "log_blocks L dk = []" "log_disk L dk" "install_writes L dk = []"
proof -
  show *: "log_blocks L dk = []" using assms by (simp add: log_blocks_def)
  show "log_disk L dk" using assms * by (simp add: log_disk_def)
  show "install_writes L dk = []" using * by (simp add: install_writes_def)
qed

lemma log_disk_full:
  assumes "dk L = hdr_put (int n) bl x" "length x = BSIZE" "int n \<le> LOGBLOCKS"
    and "\<And>t. t < n \<Longrightarrow> bl ! t < 2 ^ 32" "\<And>t. t < n \<Longrightarrow> bl ! t \<notin> {L..L + nat LOGBLOCKS}" "distinct (map ((!) bl) [0..<n])"
    and "\<And>t. t < n \<Longrightarrow> dk (L + t + 1) = the (P (bl ! t))"
  shows "log_disk L dk" "install_writes L dk = home_writes bl P n"
proof -
  note h = hdr_put_get [OF assms(3,2), where bl = bl]
  have lb: "log_blocks L dk = map ((!) bl) [0..<n]"
    unfolding log_blocks_def using h(2,3) assms(4) sint_small [OF assms(3)]
    by (auto simp: assms(1) unat_of_nat)
  show "log_disk L dk" unfolding log_disk_def lb using h(1,2) assms(3,5,6) sint_small [OF assms(3)] by (auto simp: assms(1))
  show "install_writes L dk = home_writes bl P n"
    unfolding install_writes_def home_writes_def lb using assms(7) by simp
qed

lemma home_writes_at:
  assumes "distinct (map ((!) bl) [0..<n])" "\<And>t. t < n \<Longrightarrow> P (bl ! t) \<noteq> None" "set (map ((!) bl) [0..<n]) = dom P"
  shows "apply_writes (home_writes bl P n) dk b = content P Map.empty dk b"
proof (cases "P b")
  case None
  then have "b \<notin> fst ` set (home_writes bl P n)" using assms(2) by (fastforce simp: home_writes_def)
  then show ?thesis using None by (simp add: apply_writes_other content_def)
next
  case (Some x)
  then have "b \<in> (!) bl ` {0..<n}" using assms(3) by auto
  then obtain t where "t < n" "b = bl ! t" by auto
  then have "(b, x) \<in> set (home_writes bl P n)" using Some by (auto simp: home_writes_def)
  moreover have "distinct (map fst (home_writes bl P n))" using assms(1) by (simp add: home_writes_def comp_def)
  ultimately show ?thesis using Some by (simp add: apply_writes_at content_def)
qed

lemma crash_prefix:
  assumes h: "distinct (map ((!) bl) [0..<n])" "\<And>t. t < n \<Longrightarrow> P (bl ! t) \<noteq> None" "set (map ((!) bl) [0..<n]) = dom P"
    and o: "\<And>t. t < n \<Longrightarrow> bl ! t \<notin> {L..L + nat LOGBLOCKS}" "\<And>t. t < n \<Longrightarrow> bl ! t < 2 ^ 32" "int n \<le> LOGBLOCKS"
    and clean: "length (dk L) = BSIZE" "get32 (dk L) 0 = 0"
    and dk': "dk' = apply_writes (take k (commit_writes L bl P n dk)) dk" and b: "b \<notin> {L..L + nat LOGBLOCKS}"
  shows "log_disk L dk' \<and> apply_writes (install_writes L dk') dk' b = (if k \<le> n then dk b else content P Map.empty dk b)"
proof -
  let ?A = "log_writes L bl P n" and ?B = "home_writes bl P n" and ?x = "hdr_put (int n) bl (dk L)"
  have len: "length ?A = n" "length ?B = n" by (simp_all add: log_writes_def home_writes_def)
  consider (early) "k \<le> n" | (mid) "n < k" "k \<le> 2 * n + 1" | (late) "2 * n + 1 < k" by linarith
  then show ?thesis
  proof cases
    case early
    then have t: "take k (commit_writes L bl P n dk) = take k ?A" by (simp add: commit_writes_def len)
    have "c \<notin> fst ` set (take k ?A)" if "c \<notin> {Suc L..L + nat LOGBLOCKS}" for c
      using that o(3) by (auto simp: log_writes_def dest!: in_set_takeD)
    then have "dk' c = dk c" if "c \<notin> {Suc L..L + nat LOGBLOCKS}" for c using that by (simp add: dk' t apply_writes_other)
    then have "dk' L = dk L" "dk' b = dk b" using b by auto
    then show ?thesis using log_disk_clean [of dk' L] clean early by simp
  next
    case mid
    then have t: "take k (commit_writes L bl P n dk) = ?A @ [(L, ?x)] @ take (k - n - 1) ?B"
      by (simp add: commit_writes_def len take_Cons')
    let ?d = "(apply_writes ?A dk)(L := ?x)"
    have keep: "dk' c = ?d c" if "c \<in> {L..L + nat LOGBLOCKS}" for c
    proof -
      have "c \<notin> fst ` set (take (k - n - 1) ?B)"
        using that o(1) by (auto simp: home_writes_def dest!: in_set_takeD)
      then show ?thesis by (simp add: dk' t apply_writes_other)
    qed
    have iw: "log_disk L dk'" "install_writes L dk' = ?B"
    proof -
      have "dk' (L + t + 1) = the (P (bl ! t))" if "t < n" for t
        using that o(3) keep [of "L + t + 1"] log_writes_block [of t n L bl P dk] by simp
      moreover have "dk' L = ?x" using keep [of L] by simp
      ultimately show "log_disk L dk'" "install_writes L dk' = ?B"
        using log_disk_full [OF _ clean(1) o(3) o(2) o(1) h(1), of dk' P] by simp_all
    qed
    have "content P Map.empty dk' b = content P Map.empty dk b"
    proof (cases "P b")
      case None
      then have "b \<notin> fst ` set (take (k - n - 1) ?B)" using h(2) by (fastforce simp: home_writes_def dest!: in_set_takeD)
      then have "dk' b = dk b" using b log_writes_at [OF b o(3)] by (auto simp: dk' t apply_writes_other)
      then show ?thesis using None by (simp add: content_def)
    qed (simp add: content_def)
    with iw mid home_writes_at [OF h, of dk' b] show ?thesis by simp
  next
    case late
    then have t: "take k (commit_writes L bl P n dk) = ?A @ [(L, ?x)] @ ?B @ [(L, put32 0 0 ?x)]"
      by (simp add: commit_writes_def len take_Cons')
    have "length ?x = BSIZE" by (rule hdr_put_get(1) [OF o(3) clean(1)])
    then have "log_disk L dk'" "install_writes L dk' = []" using log_disk_clean [of dk' L] by (simp_all add: dk' t)
    moreover have "dk' b = apply_writes ?B ((apply_writes ?A dk)(L := ?x)) b" using b by (auto simp: dk' t)
    then have "dk' b = content P Map.empty dk b"
      using b home_writes_at [OF h] log_writes_at [OF b o(3)] by (auto simp: content_def split: option.split)
    ultimately show ?thesis using late by simp
  qed
qed

section \<open>Logged updates\<close>

text \<open>The part of the log's state that a transaction does not change.\<close>

definition same_txn :: "kernel \<Rightarrow> kernel \<Rightarrow> bool" where
  "same_txn s s' \<longleftrightarrow> disk s' = disk s \<and> dwrites s' = dwrites s \<and> l_start (klog s') = l_start (klog s)
     \<and> l_outstanding (klog s') = l_outstanding (klog s) \<and> l_committing (klog s') = l_committing (klog s)"

lemma txn_ok_log:
  assumes "txn_ok d pid P H s" "cache_ok d pid P' H' s'" "same_log s s'" "dom P' = dom P"
  shows "txn_ok d pid P' H' s'"
  using assms by (simp add: txn_ok_def same_log_def)

lemma bpin_spec:
  assumes "cache_ok d pid P H s" "H b = Some x" "has_buf d i b s" "P b = None"
  shows "cache_ok d pid (P(b \<mapsto> y)) H (bpin i s) \<and> has_buf d i b (bpin i s) \<and> same_log s (bpin i s)"
proof -
  note f = held_facts [OF assms(1-3)]
  have "cache_ok d pid (P(b \<mapsto> y)) H (bpin i s) \<and> has_buf d i b (bpin i s) \<and> keeps_bufs d H s (bpin i s)"
    by (rule held_update [OF assms(1-3), where y = "(bufs s ! i)\<lparr>b_refcnt := b_refcnt (bufs s ! i) + 1\<rparr>"])
      (use f assms in \<open>simp_all add: bpin_def upd_at_def buf_ok_def content_def\<close>)
  then show ?thesis by (simp add: same_log_def bpin_def)
qed

lemma repin_spec:
  assumes "cache_ok d pid P H s" "H b = Some x" "has_buf d i b s" "P b \<noteq> None"
  shows "cache_ok d pid (P(b \<mapsto> y)) H s"
proof -
  note f = held_facts [OF assms(1-3)]
  have "cache_ok d pid (P(b \<mapsto> y)) H s \<and> has_buf d i b s \<and> keeps_bufs d H s s"
    by (rule held_update [OF assms(1-3), where y = "bufs s ! i"])
      (use f assms in \<open>simp_all add: buf_ok_def content_def\<close>)
  then show ?thesis by blast
qed

lemma log_write_spec:
  assumes tx: "txn_ok d pid P H s" and b: "H b = Some x" "has_buf d i b s" "b < 2 ^ 32"
    and out: "b \<notin> {l_start (klog s)..l_start (klog s) + nat LOGBLOCKS}" "1 \<le> l_outstanding (klog s)"
    and room: "P b = None \<Longrightarrow> lh_n (klog s) + 1 < int NBUF"
  shows "\<exists>s'. log_write i s = Done () s' \<and> txn_ok d pid (P(b \<mapsto> x)) H s' \<and> has_buf d i b s' \<and> same_txn s s'"
proof -
  define n bl where nb: "n = nat (lh_n (klog s))" "bl = lh_block (klog s)"
  note f = txn_facts [OF tx nb refl]
  have ok: "cache_ok d pid P H s" using tx by (simp add: txn_ok_def)
  have bn: "b_blockno (bufs s ! i) = b" using b by (simp add: has_buf_def)
  let ?i = "find_idx (\<lambda>i. bl ! i = b) [0..<n]"
  have guards: "\<not> LOGBLOCKS \<le> lh_n (klog s)" "\<not> l_outstanding (klog s) < 1" using f(3,4) out by simp_all
  show ?thesis
  proof (cases ?i)
    case (Some t)
    then have t: "t < n" "bl ! t = b" using find_idx_Some [OF Some] by auto
    let ?s = "upd_log (\<lambda>l. l\<lparr>lh_block := (lh_block l)[t := b]\<rparr>) s"
    have "log_write i s = Done () ?s"
      using guards Some t unfolding log_write_def bn by (simp flip: nb)
    moreover have "bl[t := b] = bl" using t(2) list_update_id [of bl t] by simp
    then have "?s = s" unfolding upd_log_def by (simp add: nb(2))
    moreover have "P b \<noteq> None" using f(6) t by blast
    then have "txn_ok d pid (P(b \<mapsto> x)) H s" by (intro txn_ok_log [OF tx repin_spec [OF ok b(1,2)]]) (auto simp: same_log_def)
    ultimately show ?thesis using b by (auto simp: same_txn_def)
  next
    case None
    then have fresh: "b \<notin> set (map ((!) bl) [0..<n])" by (auto simp: find_idx_None)
    then have P: "P b = None" using f(11) by blast
    note bp = bpin_spec [OF ok b(1,2) P, of x]
    let ?s = "upd_log (\<lambda>l. l\<lparr>lh_n := lh_n l + 1\<rparr>) (bpin i (upd_log (\<lambda>l. l\<lparr>lh_block := (lh_block l)[n := b]\<rparr>) s))"
    have "log_write i s = Done () ?s"
      using guards None unfolding log_write_def bn by (simp flip: nb)
    moreover have "bpin i (upd_log g s) = upd_log g (bpin i s)" for g by (simp add: bpin_def upd_buf_def upd_log_def)
    then have s': "cache_ok d pid (P(b \<mapsto> x)) H ?s" "has_buf d i b ?s" "same_txn s ?s"
        "klog ?s = (klog s)\<lparr>lh_n := int n + 1, lh_block := bl[n := b]\<rparr>" "disk ?s = disk s"
      using bp f(4) nb(2) by (simp_all add: same_txn_def same_log_def)
    have tk: "take (Suc n) (bl[n := b]) = take n bl @ [b]" using f(3,5) by (simp add: take_Suc_conv_app_nth)
    have "set (take n bl) = dom P" "distinct (take n bl)" using tx nb by (simp_all add: txn_ok_def)
    then have "txn_ok d pid (P(b \<mapsto> x)) H ?s"
      using tx s'(1) room [OF P] P out b(3) f(4,5) unfolding txn_ok_def s'(4,5) by (auto simp: tk nat_add_distrib)
    ultimately show ?thesis using s' by blast
  qed
qed

text \<open>
  The users of the log change a block by reading it, modifying the buffer, \<open>log_write\<close> and \<open>brelse\<close>,
  between \<open>begin_op\<close> and \<open>end_op\<close>.
\<close>

type_synonym update = "nat \<times> (u8 list \<Rightarrow> u8 list)"

definition logged_update :: "nat \<Rightarrow> update \<Rightarrow> kernel \<Rightarrow> unit kres" where
  "logged_update d u s =
     obind (bread d (fst u) s) (\<lambda>i s.
       let s = set_data i (snd u (b_data (bufs s ! i))) s
       in obind (log_write i s) (\<lambda>_ s. brelse i s))"

fun logged_updates :: "nat \<Rightarrow> update list \<Rightarrow> kernel \<Rightarrow> unit kres" where
  "logged_updates d [] s = Done () s"
| "logged_updates d (u # us) s = obind (logged_update d u s) (\<lambda>_ s. logged_updates d us s)"

definition transaction :: "nat \<Rightarrow> update list \<Rightarrow> kernel \<Rightarrow> unit kres" where
  "transaction d us s = obind (begin_op s) (\<lambda>_ s. obind (logged_updates d us s) (\<lambda>_ s. end_op s))"

definition updated :: "update list \<Rightarrow> (nat \<Rightarrow> u8 list) \<Rightarrow> nat \<Rightarrow> u8 list" where
  "updated us dk = fold (\<lambda>u dk. dk(fst u := snd u (dk (fst u)))) us dk"

lemma same_txn_trans: "same_txn s t \<Longrightarrow> same_txn t u \<Longrightarrow> same_txn s u"
  by (simp add: same_txn_def)

lemma same_log_txn: "same_log s t \<Longrightarrow> same_txn s t"
  by (simp add: same_log_def same_txn_def)

lemma logged_update_spec:
  assumes tx: "txn_ok d pid P Map.empty s" and b: "b < 2 ^ 32" "b \<notin> {l_start (klog s)..l_start (klog s) + nat LOGBLOCKS}"
    and out: "1 \<le> l_outstanding (klog s)" and room: "card (insert b (dom P)) < NBUF"
  shows "\<exists>s'. logged_update d (b, f) s = Done () s' \<and> txn_ok d pid (P(b \<mapsto> f (content P Map.empty (disk s) b))) Map.empty s'
    \<and> same_txn s s'"
proof -
  note t = txn_facts [OF tx refl refl refl]
  let ?c = "content P Map.empty (disk s) b"
  have ok: "cache_ok d pid P Map.empty s" using tx by (simp add: txn_ok_def)
  obtain i s1 where s1: "bread d b s = Done i s1" "same_log s s1" "cache_ok d pid P [b \<mapsto> ?c] s1" "has_buf d i b s1"
    using bread_spec [OF ok, of b] t(1,2,3) by auto
  have data: "b_data (bufs s1 ! i) = ?c" using held_facts(8) [OF s1(3) _ s1(4)] by simp
  let ?s2 = "set_data i (f ?c) s1"
  have s2: "cache_ok d pid P [b \<mapsto> f ?c] ?s2" "has_buf d i b ?s2" "same_log s1 ?s2"
    using set_data_spec [OF s1(3) _ s1(4), of ?c "f ?c"] by auto
  have sl: "same_log s ?s2" using s1(2) s2(3) by (simp add: same_log_def)
  have tx2: "txn_ok d pid P [b \<mapsto> f ?c] ?s2" by (rule txn_ok_log [OF tx s2(1) sl refl])
  have "lh_n (klog s) + 1 < int NBUF" if "P b = None"
  proof -
    have "b \<notin> dom P" using that by blast
    then show ?thesis using room t(1,2,4) by simp
  qed
  then obtain s3 where s3: "log_write i ?s2 = Done () s3" "txn_ok d pid (P(b \<mapsto> f ?c)) [b \<mapsto> f ?c] s3" "has_buf d i b s3" "same_txn ?s2 s3"
    using log_write_spec [OF tx2 _ s2(2) b(1), of "f ?c"] b(2) out sl by (auto simp: same_log_def)
  have ok3: "cache_ok d pid (P(b \<mapsto> f ?c)) [b \<mapsto> f ?c] s3" using s3(2) by (simp add: txn_ok_def)
  obtain s4 where s4: "brelse i s3 = Done () s4" "cache_ok d pid (P(b \<mapsto> f ?c)) Map.empty s4" "same_log s3 s4"
    using brelse_spec [OF ok3 _ s3(3), of "f ?c"] by (auto simp: content_def)
  have "txn_ok d pid (P(b \<mapsto> f ?c)) Map.empty s4" by (rule txn_ok_log [OF s3(2) s4(2,3) refl])
  moreover have "same_txn s s4"
    by (rule same_txn_trans [OF same_txn_trans [OF same_log_txn [OF sl] s3(4)] same_log_txn [OF s4(3)]])
  moreover have "logged_update d (b, f) s = Done () s4" by (simp add: logged_update_def s1(1) data s3(1) s4(1))
  ultimately show ?thesis by blast
qed

lemma logged_updates_spec:
  assumes "txn_ok d pid P Map.empty s" "1 \<le> l_outstanding (klog s)" "card (dom P \<union> fst ` set us) < NBUF"
    and "\<And>u. u \<in> set us \<Longrightarrow> fst u < 2 ^ 32 \<and> fst u \<notin> {l_start (klog s)..l_start (klog s) + nat LOGBLOCKS}"
  shows "\<exists>P' s'. logged_updates d us s = Done () s' \<and> txn_ok d pid P' Map.empty s' \<and> same_txn s s'
    \<and> content P' Map.empty (disk s) = updated us (content P Map.empty (disk s)) \<and> dom P' = dom P \<union> fst ` set us"
  using assms
proof (induction us arbitrary: s P)
  case Nil
  then show ?case by (auto simp: same_txn_def updated_def)
next
  case (Cons u us)
  obtain b f where u: "u = (b, f)" by (cases u)
  let ?P = "P(b \<mapsto> f (content P Map.empty (disk s) b))"
  have fin: "finite (dom P)" using txn_facts(1) [OF Cons.prems(1) refl refl refl] .
  have "card (insert b (dom P)) \<le> card (dom P \<union> fst ` set (u # us))" by (rule card_mono) (use fin u in auto)
  then obtain s1 where s1: "logged_update d (b, f) s = Done () s1" "txn_ok d pid ?P Map.empty s1" "same_txn s s1"
    using logged_update_spec [OF Cons.prems(1) _ _ Cons.prems(2), of b f] Cons.prems(3) Cons.prems(4) [of u] u by auto
  have dm: "dom ?P \<union> fst ` set us = dom P \<union> fst ` set (u # us)" using u by auto
  have k: "l_start (klog s1) = l_start (klog s)" "l_outstanding (klog s1) = l_outstanding (klog s)" using s1(3) by (simp_all add: same_txn_def)
  have "\<exists>P' s'. logged_updates d us s1 = Done () s' \<and> txn_ok d pid P' Map.empty s' \<and> same_txn s1 s'
    \<and> content P' Map.empty (disk s1) = updated us (content ?P Map.empty (disk s1)) \<and> dom P' = dom ?P \<union> fst ` set us"
    by (rule Cons.IH [OF s1(2)]; unfold dm k) (use Cons.prems(2-4) in auto)
  then obtain P' s2 where s2: "logged_updates d us s1 = Done () s2" "txn_ok d pid P' Map.empty s2" "same_txn s1 s2"
     "content P' Map.empty (disk s1) = updated us (content ?P Map.empty (disk s1))" "dom P' = dom ?P \<union> fst ` set us"
    by blast
  have "content ?P Map.empty (disk s) = (content P Map.empty (disk s))(b := f (content P Map.empty (disk s) b))"
    by (auto simp: content_def)
  with s2(4) s1(3) have "content P' Map.empty (disk s) = updated (u # us) (content P Map.empty (disk s))"
    by (simp add: same_txn_def updated_def u)
  moreover have "logged_updates d (u # us) s = Done () s2" by (simp add: u s1(1) s2(1))
  ultimately show ?case using s2(2,5) same_txn_trans [OF s1(3) s2(3)] unfolding dm by blast
qed

section \<open>Transactions are atomic\<close>

lemma cache_ok_wakeup [simp]: "cache_ok d pid P H (wakeup ch s) = cache_ok d pid P H s"
  by (simp add: cache_ok_def has_buf_def)

text \<open>No transaction is open, the header on disk is empty.\<close>

definition log_idle :: "nat \<Rightarrow> int \<Rightarrow> kernel \<Rightarrow> bool" where
  "log_idle d pid s \<longleftrightarrow> txn_ok d pid Map.empty Map.empty s \<and> lh_n (klog s) = 0 \<and> l_outstanding (klog s) = 0 \<and> \<not> l_committing (klog s)"

text \<open>A machine that has just booted: nothing is cached.\<close>

definition just_booted :: "nat \<Rightarrow> int \<Rightarrow> kernel \<Rightarrow> bool" where
  "just_booted d pid r \<longleftrightarrow> cache_ok d pid Map.empty Map.empty r \<and> length (lh_block (klog r)) = nat LOGBLOCKS"

definition in_log :: "nat \<Rightarrow> nat \<Rightarrow> bool" where
  "in_log L b \<longleftrightarrow> b \<in> {L..L + nat LOGBLOCKS}"

lemma initlog_spec:
  assumes "just_booted d pid r" "log_disk L (disk r)" "sb_logstart sblk = L"
  shows "\<exists>r'. initlog d sblk r = Done () r' \<and> cache_ok d pid Map.empty Map.empty r'
    \<and> dwrites r' = dwrites r @ recovery_writes L (disk r) \<and> disk r' = apply_writes (recovery_writes L (disk r)) (disk r)"
  using recover_spec [of d pid "upd_log (\<lambda>l. l\<lparr>l_start := sb_logstart sblk, l_dev := d\<rparr>) r" L] assms
  by (auto simp: initlog_def just_booted_def)

lemma recovery_writes_at: "\<not> in_log L b \<Longrightarrow> apply_writes (recovery_writes L dk) dk b = apply_writes (install_writes L dk) dk b"
  by (auto simp: recovery_writes_def in_log_def)

lemma content_empty [simp]: "content Map.empty Map.empty dk = dk"
  by (rule ext) (simp add: content_def)

lemma transaction_runs:
  assumes idle: "log_idle d pid s" and L: "L = l_start (klog s)" and few: "int (card (fst ` set us)) \<le> MAXOPBLOCKS"
    and us: "\<And>u. u \<in> set us \<Longrightarrow> fst u < 2 ^ 32 \<and> \<not> in_log L (fst u)"
  obtains P n bl W s' where "transaction d us s = Done () s'" "dwrites s' = dwrites s @ W" "disk s' = apply_writes W (disk s)"
    "W = (if n = 0 then [] else commit_writes L bl P n (disk s))" "log_idle d pid s'"
    "content P Map.empty (disk s) = updated us (disk s)" "int n \<le> LOGBLOCKS"
    "distinct (map ((!) bl) [0..<n])" "\<And>t. t < n \<Longrightarrow> P (bl ! t) \<noteq> None" "set (map ((!) bl) [0..<n]) = dom P"
    "\<And>t. t < n \<Longrightarrow> bl ! t \<notin> {L..L + nat LOGBLOCKS}" "\<And>t. t < n \<Longrightarrow> bl ! t < 2 ^ 32"
    "length (disk s L) = BSIZE" "get32 (disk s L) 0 = 0"
proof -
  have tx: "txn_ok d pid Map.empty Map.empty s" and z: "lh_n (klog s) = 0" "l_outstanding (klog s) = 0" "\<not> l_committing (klog s)"
    using idle by (simp_all add: log_idle_def)
  let ?s0 = "upd_log (\<lambda>l. l\<lparr>l_outstanding := l_outstanding l + 1\<rparr>) s"
  have b: "begin_op s = Done () ?s0" using z by (simp add: begin_op_def)
  have tx0: "txn_ok d pid Map.empty Map.empty ?s0" using tx by (simp add: txn_ok_def)
  have "\<exists>P s'. logged_updates d us ?s0 = Done () s' \<and> txn_ok d pid P Map.empty s' \<and> same_txn ?s0 s'
      \<and> content P Map.empty (disk ?s0) = updated us (content Map.empty Map.empty (disk ?s0)) \<and> dom P = dom (Map.empty :: nat \<rightharpoonup> u8 list) \<union> fst ` set us"
    by (rule logged_updates_spec [OF tx0]) (use few us z L in \<open>simp_all add: in_log_def\<close>)
  then obtain P s1 where s1: "logged_updates d us ?s0 = Done () s1" "txn_ok d pid P Map.empty s1" "same_txn ?s0 s1"
      "content P Map.empty (disk s) = updated us (disk s)"
    by auto
  have k1: "l_start (klog s1) = L" "l_outstanding (klog s1) = 1" "\<not> l_committing (klog s1)" "disk s1 = disk s" "dwrites s1 = dwrites s"
    using s1(3) z L by (simp_all add: same_txn_def)
  let ?s2 = "upd_log (\<lambda>l. l\<lparr>l_committing := True\<rparr>) (upd_log (\<lambda>l. l\<lparr>l_outstanding := l_outstanding l - 1\<rparr>) s1)"
  have tx2: "txn_ok d pid P Map.empty ?s2" using s1(2) by (simp add: txn_ok_def)
  define n bl where nb: "n = nat (lh_n (klog ?s2))" "bl = lh_block (klog ?s2)"
  define W where "W = (if n = 0 then [] else commit_writes L bl P n (disk s))"
  have L2: "L = l_start (klog ?s2)" by (simp add: k1)
  note f = txn_facts [OF tx2 nb L2]
  obtain s3 where s3: "commit ?s2 = Done () s3" "cache_ok d pid Map.empty Map.empty s3" "klog s3 = (klog ?s2)\<lparr>lh_n := 0\<rparr>"
      "disk s3 = apply_writes W (disk s)" "dwrites s3 = dwrites s @ W"
    using commit_spec [OF tx2 nb L2 refl] by (auto simp: W_def k1)
  let ?s4 = "wakeup ChLog (upd_log (\<lambda>l. l\<lparr>l_committing := False\<rparr>) s3)"
  have clean: "length (disk s L) = BSIZE" "get32 (disk s L) 0 = 0" using tx L by (simp_all add: txn_ok_def)
  have i30: "int n \<le> LOGBLOCKS" using f(3) by simp
  have "length (disk s3 L) = BSIZE \<and> get32 (disk s3 L) 0 = 0"
    using clean hdr_put_get(1) [OF i30 clean(1), of bl] by (simp add: s3(4) W_def commit_writes_def)
  then have "log_idle d pid ?s4" using s3(2,3) s1(2) k1 by (simp add: log_idle_def txn_ok_def)
  moreover have "transaction d us s = Done () ?s4"
    using k1 s3(1) by (simp add: transaction_def b s1(1) end_op_def)
  ultimately show thesis using that [of ?s4 W n bl P] s3(4,5) W_def s1(4) f clean i30 by simp
qed

text \<open>C1: a transaction of at most \<open>MAXOPBLOCKS\<close> blocks, run between \<open>begin_op\<close> and \<open>end_op\<close> on an idle
  log, completes with all its updates on disk, and it is atomic under crashes: there is a commit
  point among its disk writes such that a machine that boots from the disk as it was after any
  number of them recovers, outside the log, to the old contents before that point and to all of the
  new contents after it.\<close>

theorem transaction_atomic:
  assumes "log_idle d pid s" and "L = l_start (klog s)" and "int (card (fst ` set us)) \<le> MAXOPBLOCKS"
    and "\<And>u. u \<in> set us \<Longrightarrow> fst u < 2 ^ 32 \<and> \<not> in_log L (fst u)"
  shows "\<exists>s' W c. transaction d us s = Done () s' \<and> log_idle d pid s' \<and> dwrites s' = dwrites s @ W
    \<and> (\<forall>b. \<not> in_log L b \<longrightarrow> disk s' b = updated us (disk s) b)
    \<and> (\<forall>k sblk r pid'. just_booted d pid' r \<longrightarrow> sb_logstart sblk = L \<longrightarrow> disk r = apply_writes (take k W) (disk s) \<longrightarrow>
        (\<exists>r'. initlog d sblk r = Done () r'
          \<and> (\<forall>b. \<not> in_log L b \<longrightarrow> disk r' b = (if k \<le> c then disk s b else updated us (disk s) b))))"
proof (rule transaction_runs [OF assms])
  fix P n bl W s'
  assume t: "transaction d us s = Done () s'" "dwrites s' = dwrites s @ W" "disk s' = apply_writes W (disk s)" "log_idle d pid s'"
    and W: "W = (if n = 0 then [] else commit_writes L bl P n (disk s))"
    and new: "content P Map.empty (disk s) = updated us (disk s)" and n: "int n \<le> LOGBLOCKS"
    and h: "distinct (map ((!) bl) [0..<n])" "\<And>t. t < n \<Longrightarrow> P (bl ! t) \<noteq> None" "set (map ((!) bl) [0..<n]) = dom P"
    and o: "\<And>t. t < n \<Longrightarrow> bl ! t \<notin> {L..L + nat LOGBLOCKS}" "\<And>t. t < n \<Longrightarrow> bl ! t < 2 ^ 32"
    and clean: "length (disk s L) = BSIZE" "get32 (disk s L) 0 = 0"
  have crash: "log_disk L dk \<and> (\<forall>b. \<not> in_log L b \<longrightarrow> apply_writes (install_writes L dk) dk b = (if k \<le> n then disk s b else updated us (disk s) b))"
    if dk: "dk = apply_writes (take k W) (disk s)" for k dk
  proof (cases "n = 0")
    case True
    with h(3) have "dom P = {}" by simp
    then have "P = Map.empty" by simp
    with new have "updated us (disk s) = disk s" by simp
    then show ?thesis using True dk W clean log_disk_clean [of dk L] by simp
  next
    case False
    have c: "log_disk L dk \<and> apply_writes (install_writes L dk) dk b = (if k \<le> n then disk s b else updated us (disk s) b)"
      if b: "b \<notin> {L..L + nat LOGBLOCKS}" for b
      using crash_prefix [where dk = "disk s" and L = L and bl = bl and P = P and n = n and dk' = dk and k = k, OF h o n clean _ b]
        False dk W new by simp
    show ?thesis using c [of "L + nat LOGBLOCKS + 1"] c by (simp add: in_log_def)
  qed
  have "disk s' b = updated us (disk s) b" if b: "\<not> in_log L b" for b
  proof -
    have "length (disk s' L) = BSIZE" "get32 (disk s' L) 0 = 0"
    proof -
      show "length (disk s' L) = BSIZE" "get32 (disk s' L) 0 = 0"
        using clean hdr_put_get(1) [OF n clean(1), of bl] by (simp_all add: t(3) W commit_writes_def)
    qed
    then have "install_writes L (disk s') = []" by (rule log_disk_clean(3))
    with crash [of "disk s'" "length W + n + 1"] t(3) b show ?thesis by simp
  qed
  moreover have "\<exists>r'. initlog d sblk r = Done () r'
        \<and> (\<forall>b. \<not> in_log L b \<longrightarrow> disk r' b = (if k \<le> n then disk s b else updated us (disk s) b))"
    if r: "just_booted d pid' r" "sb_logstart sblk = L" "disk r = apply_writes (take k W) (disk s)" for k sblk r pid'
  proof -
    note c = crash [OF r(3)]
    obtain r' where r': "initlog d sblk r = Done () r'" "disk r' = apply_writes (recovery_writes L (disk r)) (disk r)"
      using initlog_spec [OF r(1) _ r(2)] c by blast
    show ?thesis by (rule exI [of _ r']) (use r' c in \<open>simp add: recovery_writes_at\<close>)
  qed
  ultimately show ?thesis using t(1,2,4) by blast
qed

section \<open>Recovery can be interrupted\<close>

lemma log_disk_cong:
  assumes "\<And>b. in_log L b \<Longrightarrow> dk' b = dk b" "log_disk L dk"
  shows "log_disk L dk'" "install_writes L dk' = install_writes L dk"
proof -
  have L: "dk' L = dk L" using assms(1) by (simp add: in_log_def)
  then have lb: "log_blocks L dk' = log_blocks L dk" by (simp add: log_blocks_def)
  with L assms(2) show "log_disk L dk'" by (simp add: log_disk_def)
  have "dk' (L + i + 1) = dk (L + i + 1)" if "i < length (log_blocks L dk)" for i
    using that assms(2) by (intro assms(1)) (auto simp: in_log_def log_disk_def log_blocks_def nat_less_iff)
  then show "install_writes L dk' = install_writes L dk" by (simp add: install_writes_def lb)
qed

lemma apply_writes_again:
  assumes "distinct (map fst ws)" "set us \<subseteq> set ws"
  shows "apply_writes ws (apply_writes us dk) b = apply_writes ws dk b"
proof (cases "b \<in> fst ` set ws")
  case True
  then obtain x where "(b, x) \<in> set ws" by auto
  then show ?thesis using assms(1) by (simp add: apply_writes_at)
next
  case False
  then have "b \<notin> fst ` set us" using assms(2) by blast
  with False show ?thesis by (simp add: apply_writes_other)
qed

lemma recovery_prefix:
  assumes ld: "log_disk L dk" and dk': "dk' = apply_writes (take k (recovery_writes L dk)) dk"
  shows "log_disk L dk'" "\<And>b. \<not> in_log L b \<Longrightarrow> apply_writes (install_writes L dk') dk' b = apply_writes (install_writes L dk) dk b"
proof -
  let ?I = "install_writes L dk"
  have dist: "distinct (map fst ?I)" using ld by (simp add: install_writes_fst log_disk_def)
  have out: "b \<notin> fst ` set ?I" if "in_log L b" for b using ld that by (auto simp: install_writes_fst log_disk_def in_log_def)
  have "log_disk L dk' \<and> (\<forall>b. \<not> in_log L b \<longrightarrow> apply_writes (install_writes L dk') dk' b = apply_writes ?I dk b)"
  proof (cases "k \<le> length ?I")
    case True
    then have d: "dk' = apply_writes (take k ?I) dk" by (simp add: dk' recovery_writes_def)
    have "dk' b = dk b" if "in_log L b" for b
    proof -
      have "b \<notin> fst ` set (take k ?I)" using out [OF that] by (auto dest!: in_set_takeD)
      then show ?thesis by (simp add: d apply_writes_other)
    qed
    note c = log_disk_cong [OF this ld]
    show ?thesis using c apply_writes_again [OF dist set_take_subset] by (simp add: d)
  next
    case False
    then have d: "dk' = (apply_writes ?I dk)(L := put32 0 0 (dk L))" by (simp add: dk' recovery_writes_def)
    then have "log_disk L dk'" "install_writes L dk' = []"
      using log_disk_clean [of dk' L] ld by (simp_all add: log_disk_def)
    then show ?thesis by (auto simp: d in_log_def)
  qed
  then show "log_disk L dk'" "\<And>b. \<not> in_log L b \<Longrightarrow> apply_writes (install_writes L dk') dk' b = apply_writes (install_writes L dk) dk b"
    by blast+
qed

text \<open>C2: recovery may itself be interrupted: whatever number of its disk writes happened before the
  next crash, recovering again gives the same file system.\<close>

theorem recovery_restartable:
  assumes "just_booted d pid r" "log_disk L (disk r)" "sb_logstart sblk = L"
  shows "\<exists>r1 W. initlog d sblk r = Done () r1 \<and> dwrites r1 = dwrites r @ W
    \<and> (\<forall>k pid' q. just_booted d pid' q \<longrightarrow> disk q = apply_writes (take k W) (disk r) \<longrightarrow>
        (\<exists>q'. initlog d sblk q = Done () q' \<and> (\<forall>b. \<not> in_log L b \<longrightarrow> disk q' b = disk r1 b)))"
proof -
  let ?W = "recovery_writes L (disk r)"
  obtain r1 where r1: "initlog d sblk r = Done () r1" "dwrites r1 = dwrites r @ ?W" "disk r1 = apply_writes ?W (disk r)"
    using initlog_spec [OF assms] by blast
  have "\<exists>q'. initlog d sblk q = Done () q' \<and> (\<forall>b. \<not> in_log L b \<longrightarrow> disk q' b = disk r1 b)"
    if q: "just_booted d pid' q" "disk q = apply_writes (take k ?W) (disk r)" for k pid' q
  proof -
    note p = recovery_prefix [OF assms(2) q(2)]
    obtain q' where q': "initlog d sblk q = Done () q'" "disk q' = apply_writes (recovery_writes L (disk q)) (disk q)"
      using initlog_spec [OF q(1) p(1) assms(3)] by blast
    show ?thesis by (rule exI [of _ q']) (use q' p(2) r1(3) in \<open>simp add: recovery_writes_at\<close>)
  qed
  with r1 show ?thesis by blast
qed

section \<open>A concrete machine\<close>

lemma binit_zero:
  assumes "bufs s = replicate NBUF zero_buf"
  shows "binit s = s\<lparr>lru := rev [0..<NBUF]\<rparr>"
proof -
  let ?f = "\<lambda>b s. let s = initsleeplock (SlBuf b) s in s\<lparr>lru := b # lru s\<rparr>"
  have "m \<le> NBUF \<Longrightarrow> fold ?f [0..<m] (s\<lparr>lru := []\<rparr>) = s\<lparr>lru := rev [0..<m]\<rparr>" for m
  proof (induction m)
    case (Suc m)
    have "upd_at m (\<lambda>b. b\<lparr>b_lock := \<lparr>sl_locked = False, sl_pid = 0\<rparr>\<rparr>) (bufs s) = bufs s"
      using Suc.prems by (simp add: assms upd_at_def zero_buf_def zero_sleeplock_def list_update_same_conv)
    then show ?case using Suc by (simp add: initsleeplock_def upd_buf_def)
  qed simp
  then show ?thesis by (simp add: binit_def)
qed

lemma binit_cache_ok:
  assumes "bufs s = replicate NBUF zero_buf" "curpid s = Some pid" "d \<noteq> 0"
  shows "cache_ok d pid Map.empty Map.empty (binit s)"
  unfolding binit_zero [OF assms(1)] using assms
  by (auto simp: cache_ok_def buf_ok_def zero_buf_def zero_sleeplock_def)

definition log_machine :: "(nat \<Rightarrow> u8 list) \<Rightarrow> kernel" where
  "log_machine dk = binit ((upd_cpu (\<lambda>c. c\<lparr>c_proc := Some 0\<rparr>) (zero_kernel zero_table dk))
     \<lparr>klog := \<lparr>l_start = 2, l_outstanding = 0, l_committing = False, l_dev = 1, lh_n = 0, lh_block = replicate 30 0\<rparr>\<rparr>)"

abbreviation (input) blank_disk :: "nat \<Rightarrow> u8 list" where
  "blank_disk \<equiv> (\<lambda>_. replicate BSIZE 0)"

lemma log_machine_facts:
  "cache_ok 1 0 Map.empty Map.empty (log_machine dk)" "disk (log_machine dk) = dk"
  "klog (log_machine dk) = \<lparr>l_start = 2, l_outstanding = 0, l_committing = False, l_dev = 1, lh_n = 0, lh_block = replicate 30 0\<rparr>"
proof -
  let ?s = "(upd_cpu (\<lambda>c. c\<lparr>c_proc := Some 0\<rparr>) (zero_kernel zero_table dk))
     \<lparr>klog := \<lparr>l_start = 2, l_outstanding = 0, l_committing = False, l_dev = 1, lh_n = 0, lh_block = replicate 30 0\<rparr>\<rparr>"
  have b: "bufs ?s = replicate NBUF zero_buf" by simp
  have "curpid ?s = Some 0" by (simp add: curpid_def myproc_def mycpu_def upd_cpu_def zero_table_def zero_proc_def)
  then show "cache_ok 1 0 Map.empty Map.empty (log_machine dk)" unfolding log_machine_def by (intro binit_cache_ok [OF b]) simp_all
  show "disk (log_machine dk) = dk" "klog (log_machine dk) = \<lparr>l_start = 2, l_outstanding = 0, l_committing = False, l_dev = 1, lh_n = 0, lh_block = replicate 30 0\<rparr>"
    unfolding log_machine_def binit_zero [OF b] by simp_all
qed

lemma get32_zeros: "get32 (replicate BSIZE 0) 0 = 0"
  by (simp add: get32_def numeral_eq_Suc)

lemma log_machine_idle: "log_idle 1 0 (log_machine blank_disk)" "just_booted 1 0 (log_machine dk)" "log_disk 2 (disk (log_machine blank_disk))"
  using log_machine_facts [of dk] log_machine_facts [of blank_disk]
  by (simp_all add: log_idle_def just_booted_def txn_ok_def get32_zeros log_disk_clean)

theorem transaction_atomic_witness:
  "log_idle 1 0 (log_machine blank_disk)
   \<and> (\<exists>s'. transaction 1 [(40, \<lambda>_. replicate BSIZE 7)] (log_machine blank_disk) = Done () s' \<and> disk s' 40 = replicate BSIZE 7)"
proof -
  have m: "l_start (klog (log_machine blank_disk)) = 2" by (simp add: log_machine_facts)
  have "\<exists>s' W c. transaction 1 [(40, \<lambda>_. replicate BSIZE 7)] (log_machine blank_disk) = Done () s' \<and> log_idle 1 0 s'
      \<and> dwrites s' = dwrites (log_machine blank_disk) @ W
      \<and> (\<forall>b. \<not> in_log 2 b \<longrightarrow> disk s' b = updated [(40, \<lambda>_. replicate BSIZE 7)] (disk (log_machine blank_disk)) b)
      \<and> (\<forall>k sblk r pid'. just_booted 1 pid' r \<longrightarrow> sb_logstart sblk = 2
           \<longrightarrow> disk r = apply_writes (take k W) (disk (log_machine blank_disk)) \<longrightarrow>
          (\<exists>r'. initlog 1 sblk r = Done () r' \<and> (\<forall>b. \<not> in_log 2 b \<longrightarrow> disk r' b =
             (if k \<le> c then disk (log_machine blank_disk) b else updated [(40, \<lambda>_. replicate BSIZE 7)] (disk (log_machine blank_disk)) b))))"
    by (rule transaction_atomic [OF log_machine_idle(1) m [symmetric]]) (simp_all add: in_log_def)
  moreover have "\<not> in_log 2 40" by (simp add: in_log_def)
  moreover have "updated [(40, \<lambda>_. replicate BSIZE 7)] (disk (log_machine blank_disk)) 40 = replicate BSIZE 7"
    by (simp add: updated_def)
  ultimately show ?thesis using log_machine_idle(1) by metis
qed

theorem recovery_restartable_witness:
  "just_booted 1 0 (log_machine blank_disk) \<and> log_disk 2 (disk (log_machine blank_disk))
   \<and> (\<exists>r1 q'. initlog 1 ((sb (log_machine blank_disk))\<lparr>sb_logstart := 2\<rparr>) (log_machine blank_disk) = Done () r1
        \<and> initlog 1 ((sb (log_machine blank_disk))\<lparr>sb_logstart := 2\<rparr>) (log_machine (disk (log_machine blank_disk))) = Done () q'
        \<and> disk q' 40 = disk r1 40)"
proof -
  let ?m = "log_machine blank_disk" and ?sb = "(sb (log_machine blank_disk))\<lparr>sb_logstart := 2\<rparr>"
  obtain r1 W where r1: "initlog 1 ?sb ?m = Done () r1"
    "\<And>k pid' q. just_booted 1 pid' q \<Longrightarrow> disk q = apply_writes (take k W) (disk ?m) \<Longrightarrow>
        (\<exists>q'. initlog 1 ?sb q = Done () q' \<and> (\<forall>b. \<not> in_log 2 b \<longrightarrow> disk q' b = disk r1 b))"
    using recovery_restartable [OF log_machine_idle(2,3), of ?sb] by auto
  have "disk (log_machine (disk ?m)) = apply_writes (take 0 W) (disk ?m)" by (simp add: log_machine_facts)
  from r1(2) [OF log_machine_idle(2) this] have "\<exists>q'. initlog 1 ?sb (log_machine (disk ?m)) = Done () q' \<and> disk q' 40 = disk r1 40"
    by (auto simp: in_log_def)
  with r1(1) log_machine_idle show ?thesis by blast
qed

section \<open>The largest transaction\<close>







end
