(* ===== verification/Content.thy ===== *)
theory Content
  imports Filemap Crash Fifo
begin

text \<open>
  The contents of files.  An inode's block numbers and the blocks of the disk, as the buffer cache and
  the open transaction show them, give the bytes of the file, and \<open>readi\<close> delivers them.  Where the
  bytes go is an interface, \<open>sink\<close>, which the buffers of a process and the local variables of the
  kernel implement.
\<close>

section \<open>What the cache leaves alone\<close>

definition same_rest :: "kernel \<Rightarrow> kernel \<Rightarrow> bool" where
  "same_rest s s' \<longleftrightarrow> mem s' = mem s \<and> itable s' = itable s \<and> sb s' = sb s \<and> myproc s' = myproc s
     \<and> (\<forall>p. p_pagetable (procs s' ! p) = p_pagetable (procs s ! p))"

lemma same_rest_refl [simp]: "same_rest s s"
  by (simp add: same_rest_def)

lemma same_rest_trans: "same_rest s t \<Longrightarrow> same_rest t u \<Longrightarrow> same_rest s u"
  by (simp add: same_rest_def)

lemma pagetable_wakeup [simp]: "p_pagetable (procs (wakeup ch s) ! j) = p_pagetable (procs s ! j)"
proof -
  have "p_pagetable (upd_at i (wakes ch me i) ps ! j) = p_pagetable (ps ! j)" for me i ps
    by (cases "i = j"; cases "i < length ps") (auto simp: wakes_def upd_at_def list_update_beyond)
  then have "p_pagetable (fold (\<lambda>i. upd_at i (wakes ch me i)) is ps ! j) = p_pagetable (ps ! j)" for me "is" ps
    by (induction "is" arbitrary: ps) simp_all
  then show ?thesis by (simp add: wakeup_eq)
qed

lemma same_rest_upd [simp]:
  "same_rest s (s\<lparr>bufs := x\<rparr>)" "same_rest s (s\<lparr>lru := y\<rparr>)" "same_rest s (upd_buf i f s)" "same_rest s (wakeup ch s)"
  "same_rest s (set_data i z s)" "same_rest s (upd_log g s)" "same_rest s (bpin i s)" "same_rest s (printk fm as s)"
  by (simp_all add: same_rest_def upd_buf_def set_data_def upd_log_def bpin_def)

lemma same_rest_upds [simp]:
  "same_rest s (upd_buf i f t) \<longleftrightarrow> same_rest s t" "same_rest s (t\<lparr>lru := y\<rparr>) \<longleftrightarrow> same_rest s t" "same_rest s (wakeup ch t) \<longleftrightarrow> same_rest s t"
  "same_rest s (upd_log g t) \<longleftrightarrow> same_rest s t" "same_rest s (bpin i t) \<longleftrightarrow> same_rest s t"
  "same_rest (upd_buf i f t) s \<longleftrightarrow> same_rest t s"
  by (simp_all add: same_rest_def upd_buf_def upd_log_def bpin_def)

lemma acquiresleep_rest: "acquiresleep (SlBuf i) s = Done u s' \<Longrightarrow> same_rest s s'"
  by (auto simp: acquiresleep_def mypid_def outcome_simps split: if_splits option.splits)

lemma bread_rest: "bread d b s = Done i s' \<Longrightarrow> same_rest s s'"
  by (auto simp: bread_def bget_def Let_def outcome_simps virtio_disk_rw_def split: option.splits if_splits
      dest!: acquiresleep_rest intro: same_rest_trans)

lemma brelse_rest: "brelse i s = Done u s' \<Longrightarrow> same_rest s s'"
  by (auto simp: brelse_def Let_def outcome_simps holdingsleep_def mypid_def releasesleep_def split: if_splits option.splits)

lemma log_write_rest: "log_write i s = Done u s' \<Longrightarrow> same_rest s s'"
  by (auto simp: log_write_def Let_def outcome_simps split: if_splits option.splits)

lemma cache_ok_mem [simp]: "cache_ok d pid P H (s\<lparr>mem := m\<rparr>) = cache_ok d pid P H s" "has_buf d i b (s\<lparr>mem := m\<rparr>) = has_buf d i b s"
  by (simp_all add: cache_ok_def has_buf_def curpid_def)

text \<open>A block is read and released.\<close>

lemma bread_one:
  assumes ok: "cache_ok d pid P Map.empty s" and few: "finite (dom P)" "card (dom P) < NBUF"
    and c: "c = content P Map.empty (disk s) b"
  shows "\<exists>k s'. bread d b s = Done k s' \<and> cache_ok d pid P [b \<mapsto> c] s' \<and> has_buf d k b s' \<and> b_data (bufs s' ! k) = c
     \<and> same_log s s' \<and> same_rest s s'"
proof -
  obtain k s1 where s1: "bread d b s = Done k s1" "same_log s s1" "cache_ok d pid P [b \<mapsto> c] s1" "has_buf d k b s1"
    using bread_spec [OF ok, of b] few c by auto
  have "b_data (bufs s1 ! k) = c" using held_facts(8) [OF s1(3) _ s1(4)] by simp
  with s1 bread_rest [OF s1(1)] show ?thesis by blast
qed

lemma brelse_one:
  assumes "cache_ok d pid P [b \<mapsto> c] s" "has_buf d k b s" "c = content P Map.empty (disk s) b"
  shows "\<exists>s'. brelse k s = Done () s' \<and> cache_ok d pid P Map.empty s' \<and> same_log s s' \<and> same_rest s s'"
proof -
  obtain s1 where s1: "brelse k s = Done () s1" "cache_ok d pid P Map.empty s1" "same_log s s1"
    using brelse_spec [OF assms(1) _ assms(2), of c] assms(3) by auto
  with brelse_rest [OF s1(1)] show ?thesis by blast
qed

lemma same_log_trans: "same_log s t \<Longrightarrow> same_log t u \<Longrightarrow> same_log s u"
  by (simp add: same_log_def)

lemma bmap_spec:
  assumes ok: "cache_ok d pid P Map.empty s" and few: "finite (dom P)" "card (dom P) < NBUF"
    and ip: "i_dev (itable s ! i) = d" "i_addrs (itable s ! i) = addrs" and D: "D = content P Map.empty (disk s)"
    and hb: "has_block D addrs bn"
  shows "\<exists>s'. bmap i bn s = Done (file_addr D addrs bn) s' \<and> cache_ok d pid P Map.empty s' \<and> same_log s s' \<and> same_rest s s'"
proof (cases "bn < NDIRECT")
  case True
  then show ?thesis using hb ok ip by (simp add: bmap_def has_block_def file_addr_def same_log_def)
next
  case False
  let ?ind = "addrs ! NDIRECT" and ?k = "bn - NDIRECT"
  have k: "?k < NINDIRECT" "?ind \<noteq> 0" "unat (get32 (D ?ind) (4 * ?k)) \<noteq> 0" "file_addr D addrs bn = unat (get32 (D ?ind) (4 * ?k))"
    using hb False by (auto simp: has_block_def file_addr_def)
  obtain k s1 where s1: "bread d ?ind s = Done k s1" "cache_ok d pid P [?ind \<mapsto> D ?ind] s1" "has_buf d k ?ind s1" "b_data (bufs s1 ! k) = D ?ind"
    "same_log s s1" "same_rest s s1"
    using bread_one [OF ok few refl, of ?ind] D by auto
  have "D ?ind = content P Map.empty (disk s1) ?ind" using D s1(5) by (simp add: same_log_def)
  from brelse_one [OF s1(2,3) this] obtain s2 where
    s2: "brelse k s1 = Done () s2" "cache_ok d pid P Map.empty s2" "same_log s1 s2" "same_rest s1 s2" by blast
  have it: "itable s1 = itable s" using s1(6) by (simp add: same_rest_def)
  have "bmap i bn s = Done (file_addr D addrs bn) s2"
    using False k ip s1(1,4) s2(1) by (simp add: bmap_def Let_def it)
  then show ?thesis using s2 same_log_trans [OF s1(5) s2(3)] same_rest_trans [OF s1(6) s2(4)] by blast
qed

section \<open>Where the bytes go\<close>

locale sink =
  fixes ok :: "dest \<Rightarrow> nat \<Rightarrow> kernel \<Rightarrow> bool"
    and put :: "dest \<Rightarrow> u8 list \<Rightarrow> kernel \<Rightarrow> memory"
  assumes copy: "ok d n s \<Longrightarrow> length bs \<le> n \<Longrightarrow> either_copyout d bs s = Done 0 (s\<lparr>mem := put d bs s\<rparr>)"
    and rest: "ok d n s \<Longrightarrow> length bs \<le> n \<Longrightarrow> ok (dest_add d (length bs)) (n - length bs) (s\<lparr>mem := put d bs s\<rparr>)"
    and stable: "ok d n s \<Longrightarrow> same_rest s s' \<Longrightarrow> ok d n s'" "same_rest s s' \<Longrightarrow> put d bs s' = put d bs s"
    and append: "ok d n s \<Longrightarrow> length bs + length cs \<le> n \<Longrightarrow>
      put (dest_add d (length bs)) cs (s\<lparr>mem := put d bs s\<rparr>) = put d (bs @ cs) s"
    and empty: "put d [] s = mem s"

definition local_ok :: "dest \<Rightarrow> nat \<Rightarrow> kernel \<Rightarrow> bool" where
  "local_ok d n s \<longleftrightarrow> d = DLocal"

interpretation loc: sink local_ok "\<lambda>d bs s. mem s"
  by unfold_locales (auto simp: local_ok_def either_copyout_def same_rest_def)

definition user_ok :: "dest \<Rightarrow> nat \<Rightarrow> kernel \<Rightarrow> bool" where
  "user_ok d n s \<longleftrightarrow> (\<exists>va p. d = DUser va \<and> myproc s = Some p \<and> user_buffer (p_pagetable (procs s ! p)) va n (mem s))"

definition user_put :: "dest \<Rightarrow> u8 list \<Rightarrow> kernel \<Rightarrow> memory" where
  "user_put d bs s = (case (d, myproc s) of
       (DUser va, Some p) \<Rightarrow> put_bytes (\<lambda>i. ubyte (p_pagetable (procs s ! p)) (va + of_nat i) (mem s)) bs (mem s)
     | _ \<Rightarrow> mem s)"

interpretation user: sink user_ok user_put
proof
  fix d n s bs cs
  show "either_copyout d bs s = Done 0 (s\<lparr>mem := user_put d bs s\<rparr>)" if "user_ok d n s" "length bs \<le> n"
    using that copyout_mapped user_buffer_prefix by (fastforce simp: user_ok_def user_put_def either_copyout_def)
  show "user_ok (dest_add d (length bs)) (n - length bs) (s\<lparr>mem := user_put d bs s\<rparr>)" if "user_ok d n s" "length bs \<le> n"
    using that user_buffer_rest by (auto simp: user_ok_def user_put_def)
  show "user_put (dest_add d (length bs)) cs (s\<lparr>mem := user_put d bs s\<rparr>) = user_put d (bs @ cs) s"
    if uo: "user_ok d n s" and le: "length bs + length cs \<le> n"
  proof -
    obtain va p where d: "d = DUser va" "myproc s = Some p" and ub: "user_buffer (p_pagetable (procs s ! p)) va n (mem s)"
      using uo by (auto simp: user_ok_def)
    let ?pt = "p_pagetable (procs s ! p)"
    let ?m = "put_bytes (\<lambda>i. ubyte ?pt (va + of_nat i) (mem s)) bs (mem s)"
    have "ubyte ?pt (va + of_nat (length bs) + of_nat i) ?m = ubyte ?pt (va + of_nat (length bs + i)) (mem s)" if "i < length cs" for i
      using user_buffer_stable(1) [OF ub, of bs "length bs + i"] that le by (simp add: add.assoc)
    then have "put_bytes (\<lambda>i. ubyte ?pt (va + of_nat (length bs) + of_nat i) ?m) cs ?m
        = put_bytes (\<lambda>i. ubyte ?pt (va + of_nat (length bs + i)) (mem s)) cs ?m" by (intro put_bytes_cong) simp
    then show ?thesis by (simp add: user_put_def d put_bytes_append)
  qed
qed (auto simp: user_ok_def user_put_def same_rest_def split: dest.splits option.splits)

section \<open>readi\<close>

lemma unat_step_size:
  assumes "tot < n"
  shows "unat (step_size n tot off) = min (unat n - unat tot) (BSIZE - unat off mod BSIZE)"
proof -
  have "off mod 1024 \<le> 1024" by (simp add: word_mod_less_divisor order_less_imp_le)
  then have "unat (1024 - off mod 1024) = 1024 - unat off mod 1024" by (simp add: unat_sub unat_mod)
  moreover have "unat (n - tot) = unat n - unat tot" using assms by (simp add: unat_sub order_less_imp_le)
  ultimately show ?thesis by (simp add: step_size_def min_def word_le_nat_alt)
qed

text \<open>The positions after one step of the loops of \<open>readi\<close> and \<open>writei\<close>.\<close>

lemma step_positions:
  assumes "tot < n" and "unat off + (unat n - unat tot) < 2 ^ 32" and "m = unat (step_size n tot off)"
  shows "0 < m" "m \<le> unat n - unat tot" "unat off mod BSIZE + m \<le> BSIZE" "unat (off + step_size n tot off) = unat off + m"
    "unat (tot + step_size n tot off) = unat tot + m" "tot + step_size n tot off \<le> n"
    "unat (off + step_size n tot off) + (unat n - unat (tot + step_size n tot off)) < 2 ^ 32"
    "unat n - unat (tot + step_size n tot off) = unat n - unat tot - m"
proof -
  have "unat tot < unat n" using assms(1) by (simp add: word_less_nat_alt)
  moreover have "unat off mod BSIZE < BSIZE" by simp
  moreover have m: "m = min (unat n - unat tot) (BSIZE - unat off mod BSIZE)" using unat_step_size [OF assms(1), of off] assms(3) by simp
  ultimately show m0: "0 < m" "m \<le> unat n - unat tot" "unat off mod BSIZE + m \<le> BSIZE" by auto
  have "unat off + m < 2 ^ 32" using m0(2) assms(2) by linarith
  then show o: "unat (off + step_size n tot off) = unat off + m" using assms(3) by (simp add: unat_add_lem [THEN iffD1])
  have "unat tot + m < 2 ^ 32" using m0(2) unsigned_less [where 'a = nat, of n] \<open>unat tot < unat n\<close> by simp
  then show t: "unat (tot + step_size n tot off) = unat tot + m" using assms(3) by (simp add: unat_add_lem [THEN iffD1])
  show "tot + step_size n tot off \<le> n" using t m0(2) \<open>unat tot < unat n\<close> by (simp add: word_le_nat_alt)
  show "unat (off + step_size n tot off) + (unat n - unat (tot + step_size n tot off)) < 2 ^ 32"
    "unat n - unat (tot + step_size n tot off) = unat n - unat tot - m"
    unfolding o t using m0(2) assms(2) by simp_all
qed

lemma map_upt_split: "m \<le> n \<Longrightarrow> map f [0..<n] = map f [0..<m] @ map (\<lambda>k. f (m + k)) [0..<n - m]"
  by (intro nth_equalityI) (auto simp: nth_append)

context sink
begin

lemma readi_loop_spec:
  assumes "tot \<le> n" and "unat off + (unat n - unat tot) < 2 ^ 32" and "ok dst (unat n - unat tot) s"
    and "cache_ok d pid P Map.empty s" and "finite (dom P)" and "card (dom P) < NBUF"
    and "i_dev (itable s ! i) = d" and "i_addrs (itable s ! i) = addrs" and "D = content P Map.empty (disk s)"
    and "\<And>k. k < unat n - unat tot \<Longrightarrow> has_block D addrs ((unat off + k) div BSIZE)"
    and "bs = map (\<lambda>k. file_byte D addrs (unat off + k)) [0..<unat n - unat tot]"
  shows "\<exists>s'. readi_loop i dst off tot n acc s = Done (uint n, acc @ bs) s' \<and> cache_ok d pid P Map.empty s'
     \<and> same_log s s' \<and> same_rest (s\<lparr>mem := put dst bs s\<rparr>) s'"
  using assms(1-4,7-11)
proof (induction "unat n - unat tot" arbitrary: tot off dst acc s bs rule: less_induct)
  case less
  show ?case
  proof (cases "tot < n")
    case False
    then have e: "tot = n" "bs = []" using less.prems(1,9) by simp_all
    then show ?thesis using less.prems(4) by (subst readi_loop.simps) (simp add: same_log_def empty)
  next
    case True
    define m where "m = unat (step_size n tot off)"
    define a where "a = file_addr D addrs (unat off div BSIZE)"
    define cs where "cs = map (\<lambda>k. file_byte D addrs (unat off + k)) [0..<m]"
    define bs' where "bs' = map (\<lambda>k. file_byte D addrs (unat off + m + k)) [0..<unat n - unat tot - m]"
    note p = step_positions [OF True less.prems(2) m_def]
    have hb: "has_block D addrs (unat off div BSIZE)" using less.prems(8) [of 0] p(1,2) by simp
    then have a: "a \<noteq> 0" "length (D a) = BSIZE" by (simp_all add: has_block_def a_def)
    have bs: "bs = cs @ bs'" unfolding less.prems(9) cs_def bs'_def using map_upt_split [OF p(2)] by (simp add: add.assoc)
    have lcs: "length cs = m" "length bs' = unat n - unat tot - m" by (simp_all add: cs_def bs'_def)
    obtain s1 where s1: "bmap i (unat off div BSIZE) s = Done a s1" "cache_ok d pid P Map.empty s1" "same_log s s1" "same_rest s s1"
      using bmap_spec [OF less.prems(4) assms(5,6) less.prems(5-7) hb] a_def by auto
    have D1: "D a = content P Map.empty (disk s1) a" using less.prems(7) s1(3) by (simp add: same_log_def)
    obtain k s2 where s2: "bread d a s1 = Done k s2" "cache_ok d pid P [a \<mapsto> D a] s2" "has_buf d k a s2" "b_data (bufs s2 ! k) = D a"
      "same_log s1 s2" "same_rest s1 s2" using bread_one [OF s1(2) assms(5,6) D1] by blast
    have r2: "same_rest s s2" using same_rest_trans [OF s1(4) s2(6)] .
    have ok2: "ok dst (unat n - unat tot) s2" using stable(1) [OF less.prems(3) r2] .
    have cp: "either_copyout dst cs s2 = Done 0 (s2\<lparr>mem := put dst cs s2\<rparr>)" using copy [OF ok2, of cs] lcs p(2) by simp
    let ?s2 = "s2\<lparr>mem := put dst cs s2\<rparr>"
    have "D a = content P Map.empty (disk ?s2) a" using D1 s2(5) by (simp add: same_log_def)
    moreover have "cache_ok d pid P [a \<mapsto> D a] ?s2" "has_buf d k a ?s2" using s2(2,3) by simp_all
    ultimately obtain s3 where s3: "brelse k ?s2 = Done () s3" "cache_ok d pid P Map.empty s3" "same_log ?s2 s3" "same_rest ?s2 s3"
      using brelse_one by blast
    have sl: "same_log s s3" using s1(3) s2(5) s3(3) by (simp add: same_log_def)
    have it: "itable s1 = itable s" "itable s2 = itable s" "itable s3 = itable s" using s1(4) r2 s3(4) by (simp_all add: same_rest_def)
    have ok3: "ok (dest_add dst m) (unat n - unat tot - m) s3" using stable(1) [OF rest [OF ok2, of cs] s3(4)] lcs p(2) by simp
    have "\<exists>s'. readi_loop i (dest_add dst m) (off + step_size n tot off) (tot + step_size n tot off) n (acc @ cs) s3 = Done (uint n, (acc @ cs) @ bs') s'
        \<and> cache_ok d pid P Map.empty s' \<and> same_log s3 s' \<and> same_rest (s3\<lparr>mem := put (dest_add dst m) bs' s3\<rparr>) s'"
    proof (rule less.hyps)
      show "unat n - unat (tot + step_size n tot off) < unat n - unat tot" using p by linarith
      show "tot + step_size n tot off \<le> n" by (rule p(6))
      show "unat (off + step_size n tot off) + (unat n - unat (tot + step_size n tot off)) < 2 ^ 32" by (rule p(7))
      show "ok (dest_add dst m) (unat n - unat (tot + step_size n tot off)) s3" using ok3 p(8) by simp
      show "cache_ok d pid P Map.empty s3" by (rule s3(2))
      show "i_dev (itable s3 ! i) = d" "i_addrs (itable s3 ! i) = addrs" using less.prems(5,6) it by simp_all
      show "D = content P Map.empty (disk s3)" using less.prems(7) sl by (simp add: same_log_def)
      show "has_block D addrs ((unat (off + step_size n tot off) + k) div BSIZE)" if "k < unat n - unat (tot + step_size n tot off)" for k
        using less.prems(8) [of "m + k"] that p by (simp add: add.assoc)
      show "bs' = map (\<lambda>k. file_byte D addrs (unat (off + step_size n tot off) + k)) [0..<unat n - unat (tot + step_size n tot off)]"
        unfolding p(4,8) bs'_def ..
    qed
    then obtain s' where s': "readi_loop i (dest_add dst m) (off + step_size n tot off) (tot + step_size n tot off) n (acc @ cs) s3 = Done (uint n, acc @ bs) s'"
      "cache_ok d pid P Map.empty s'" "same_log s3 s'" "same_rest (s3\<lparr>mem := put (dest_add dst m) bs' s3\<rparr>) s'" by (auto simp: bs)
    have pt: "put (dest_add dst m) bs' s3 = put dst bs s"
      using append [OF ok2, of cs bs'] stable(2) [OF s3(4)] stable(2) [OF r2] lcs p(2) bs by simp
    have "same_rest (s\<lparr>mem := put dst bs s\<rparr>) s'" using s'(4) s3(4) r2 unfolding pt by (simp add: same_rest_def)
    moreover have "take m (drop (unat off mod BSIZE) (D a)) = cs" unfolding cs_def a_def
      by (rule file_byte_block [OF p(3)]) (use a in \<open>simp add: a_def\<close>)
    then have "readi_loop i dst off tot n acc s = Done (uint n, acc @ bs) s'"
      using True s1(1) a(1) s2(1,4) cp s3(1) s'(1) less.prems(5) it
      by (subst readi_loop.simps) (simp add: Let_def flip: m_def)
    ultimately show ?thesis using s'(2) same_log_trans [OF sl s'(3)] by blast
  qed
qed

text \<open>The part of the request that lies within the file.\<close>

lemma readi_spec:
  assumes "unat off \<le> unat (i_size (itable s ! i))" and "unat off + unat n < 2 ^ 32"
    and "k = min (unat n) (unat (i_size (itable s ! i)) - unat off)" and "ok dst k s"
    and "cache_ok d pid P Map.empty s" and "finite (dom P)" and "card (dom P) < NBUF"
    and "i_dev (itable s ! i) = d" and "D = content P Map.empty (disk s)" and "file_ok D (itable s ! i)"
    and "bs = take (unat n) (drop (unat off) (file_bytes D (i_addrs (itable s ! i)) (unat (i_size (itable s ! i)))))"
  shows "\<exists>s'. readi i dst off n s = Done (int k, bs) s' \<and> cache_ok d pid P Map.empty s'
     \<and> same_log s s' \<and> same_rest (s\<lparr>mem := put dst bs s\<rparr>) s'"
proof -
  let ?sz = "i_size (itable s ! i)" and ?addrs = "i_addrs (itable s ! i)"
  define n' where "n' = (if off + n > ?sz then ?sz - off else n)"
  have o: "unat (off + n) = unat off + unat n" using assms(2) by (simp add: unat_add_lem [THEN iffD1])
  have n': "unat n' = k" using assms(1,3) o unfolding n'_def by (auto simp: word_less_nat_alt unat_sub word_le_nat_alt)
  have sz: "unat ?sz \<le> MAXFILE * BSIZE" using assms(10) by (simp add: file_ok_def)
  have k: "unat off + k \<le> unat ?sz" "k \<le> unat n" using assms(1,3) by auto
  have bs: "bs = map (\<lambda>j. file_byte D ?addrs (unat off + j)) [0..<k]"
  proof -
    have "bs = take k (drop (unat off) (file_bytes D ?addrs (unat ?sz)))" unfolding assms(11) using assms(3) by (cases "unat n \<le> unat ?sz - unat off") simp_all
    then show ?thesis using file_bytes_segment [OF k(1)] by simp
  qed
  have hb: "has_block D ?addrs ((unat off + j) div BSIZE)" if "j < k" for j
  proof -
    have "(unat off + j) div BSIZE * BSIZE \<le> unat off + j" by simp
    then have "(unat off + j) div BSIZE * BSIZE < unat ?sz" using that k(1) by linarith
    then show ?thesis using assms(10) by (simp add: file_ok_def)
  qed
  have "\<exists>s'. readi_loop i dst off 0 n' [] s = Done (uint n', [] @ bs) s' \<and> cache_ok d pid P Map.empty s'
     \<and> same_log s s' \<and> same_rest (s\<lparr>mem := put dst bs s\<rparr>) s'"
    by (rule readi_loop_spec [OF _ _ _ assms(5-8) refl assms(9)]) (use n' k sz assms(4) hb bs in simp_all)
  then obtain s' where s': "readi_loop i dst off 0 n' [] s = Done (uint n', bs) s'" "cache_ok d pid P Map.empty s'"
     "same_log s s'" "same_rest (s\<lparr>mem := put dst bs s\<rparr>) s'" by auto
  have "uint n' = int k" using n' by (simp flip: uint_nat add: n' uint_nat)
  moreover have "int32 (int k) = int k" using k sz by (intro int32_small) simp_all
  moreover have "\<not> (off > ?sz \<or> off + n < off)" using assms(1) o by (simp add: word_less_nat_alt)
  ultimately have "readi i dst off n s = Done (int k, bs) s'" using s'(1) by (simp add: readi_def Let_def flip: n'_def)
  then show ?thesis using s' by blast
qed

end

section \<open>Reading the superblock and locking an inode\<close>

lemma cache_ok_other [simp]:
  "cache_ok d pid P H (s\<lparr>itable := x\<rparr>) = cache_ok d pid P H s" "has_buf d i b (s\<lparr>itable := x\<rparr>) = has_buf d i b s"
  "cache_ok d pid P H (s\<lparr>sb := y\<rparr>) = cache_ok d pid P H s" "has_buf d i b (s\<lparr>sb := y\<rparr>) = has_buf d i b s"
  by (simp_all add: cache_ok_def has_buf_def curpid_def)

lemma readsb_spec:
  assumes ok: "cache_ok d pid P Map.empty s" and few: "finite (dom P)" "card (dom P) < NBUF"
  shows "\<exists>s'. readsb d s = Done () s' \<and> cache_ok d pid P Map.empty s' \<and> same_log s s'
     \<and> same_rest (s\<lparr>sb := sb_decode (content P Map.empty (disk s) 1)\<rparr>) s'"
proof -
  let ?c = "content P Map.empty (disk s) 1"
  obtain k s1 where s1: "bread d 1 s = Done k s1" "cache_ok d pid P [1 \<mapsto> ?c] s1" "has_buf d k 1 s1" "b_data (bufs s1 ! k) = ?c"
    "same_log s s1" "same_rest s s1" using bread_one [OF ok few refl, of 1] by auto
  let ?s = "s1\<lparr>sb := sb_decode ?c\<rparr>"
  have "?c = content P Map.empty (disk ?s) 1" using s1(5) by (simp add: same_log_def)
  from brelse_one [of d pid P 1 ?c ?s k, OF _ _ this] s1(2,3) obtain s2 where
    s2: "brelse k ?s = Done () s2" "cache_ok d pid P Map.empty s2" "same_log ?s s2" "same_rest ?s s2" by auto
  have "readsb d s = Done () s2" using s1(1,4) s2(1) by (simp add: readsb_def Let_def)
  moreover have "same_log s s2" using s1(5) s2(3) by (simp add: same_log_def)
  moreover have "same_rest (s\<lparr>sb := sb_decode ?c\<rparr>) s2" using s1(6) s2(4) by (simp add: same_rest_def)
  ultimately show ?thesis using s2(2) by blast
qed

definition locked_inode :: "int \<Rightarrow> dinode \<Rightarrow> inode \<Rightarrow> inode" where
  "locked_inode pid di ip = ip\<lparr>i_lock := \<lparr>sl_locked = True, sl_pid = pid\<rparr>, i_type := di_type di, i_major := di_major di,
     i_minor := di_minor di, i_nlink := di_nlink di, i_size := di_size di, i_addrs := di_addrs di, i_valid := True\<rparr>"

lemma ilock_spec:
  assumes ok: "cache_ok d pid P Map.empty s" and few: "finite (dom P)" "card (dom P) < NBUF"
    and i: "i < length (itable s)" and ip: "ip = itable s ! i" "1 \<le> i_ref ip" "\<not> i_valid ip" "i_dev ip = d" "\<not> sl_locked (i_lock ip)"
    and di: "di = dinode_get (content P Map.empty (disk s) (IBLOCK (i_inum ip) s)) (i_inum ip)" "di_type di \<noteq> 0"
  shows "\<exists>s'. ilock i s = Done () s' \<and> cache_ok d pid P Map.empty s' \<and> same_log s s'
     \<and> same_rest (s\<lparr>itable := (itable s)[i := locked_inode pid di ip]\<rparr>) s'"
proof -
  let ?lk = "\<lparr>sl_locked = True, sl_pid = pid\<rparr>" and ?b = "IBLOCK (i_inum ip) s"
  let ?s0 = "s\<lparr>itable := (itable s)[i := ip\<lparr>i_lock := ?lk\<rparr>]\<rparr>" and ?c = "content P Map.empty (disk s) ?b"
  have "curpid s = Some pid" using ok by (simp add: cache_ok_def)
  from mypid_curpid [OF this] have acq: "acquiresleep (SlInode i) s = Done () ?s0"
    using ip i by (simp add: acquiresleep_def upd_at_def sl_get_def sl_put_def)
  have ok0: "cache_ok d pid P Map.empty ?s0" using ok by simp
  obtain k s1 where s1: "bread d ?b ?s0 = Done k s1" "cache_ok d pid P [?b \<mapsto> ?c] s1" "has_buf d k ?b s1" "b_data (bufs s1 ! k) = ?c"
    "same_log ?s0 s1" "same_rest ?s0 s1" using bread_one [OF ok0 few refl, of ?b] by auto
  have it1: "itable s1 = (itable s)[i := ip\<lparr>i_lock := ?lk\<rparr>]" using s1(6) by (simp add: same_rest_def)
  let ?s1 = "upd_inode i (\<lambda>ip. ip\<lparr>i_type := di_type di, i_major := di_major di, i_minor := di_minor di, i_nlink := di_nlink di,
    i_size := di_size di, i_addrs := di_addrs di\<rparr>) s1"
  have "?c = content P Map.empty (disk ?s1) ?b" using s1(5) by (simp add: same_log_def upd_inode_def)
  from brelse_one [of d pid P ?b ?c ?s1 k, OF _ _ this] s1(2,3) obtain s2 where
    s2: "brelse k ?s1 = Done () s2" "cache_ok d pid P Map.empty s2" "same_log ?s1 s2" "same_rest ?s1 s2" by (auto simp: upd_inode_def)
  let ?s2 = "upd_inode i (\<lambda>ip. ip\<lparr>i_valid := True\<rparr>) s2"
  have it2: "itable ?s2 = (itable s)[i := locked_inode pid di ip]"
    using s2(4) it1 i by (simp add: same_rest_def upd_inode_def upd_at_def locked_inode_def)
  have ib: "IBLOCK (i_inum ip) ?s0 = ?b" by (simp add: IBLOCK_def)
  have "ilock i s = Done () ?s2"
    unfolding ilock_def using ip i acq s1(1,4) s2(1) it1 it2 di ib by (simp add: Let_def locked_inode_def)
  moreover have "same_log s ?s2" using s1(5) s2(3) by (simp add: same_log_def upd_inode_def)
  moreover have "same_rest (s\<lparr>itable := (itable s)[i := locked_inode pid di ip]\<rparr>) ?s2"
    using s1(6) s2(4) it2 by (simp add: same_rest_def upd_inode_def)
  moreover have "cache_ok d pid P Map.empty ?s2" using s2(2) by (simp add: upd_inode_def)
  ultimately show ?thesis by blast
qed

section \<open>Reading a file\<close>

text \<open>C14: \<open>readi\<close> into a buffer of the process returns the number of bytes of the file in the range
  asked for, stores exactly these bytes, as the disk and the open transaction give them through the direct
  and the indirect blocks, at the places of the buffer, and changes no other memory, no block and no
  inode.\<close>

theorem readi_delivers:
  assumes "unat off \<le> unat (i_size (itable s ! i))" and "unat off + unat n < 2 ^ 32"
    and "k = min (unat n) (unat (i_size (itable s ! i)) - unat off)"
    and "myproc s = Some p" and "pt = p_pagetable (procs s ! p)" and "user_buffer pt va k (mem s)"
    and "cache_ok d pid P Map.empty s" and "finite (dom P)" and "card (dom P) < NBUF"
    and "i_dev (itable s ! i) = d" and "D = content P Map.empty (disk s)" and "file_ok D (itable s ! i)"
    and "bs = take (unat n) (drop (unat off) (file_bytes D (i_addrs (itable s ! i)) (unat (i_size (itable s ! i)))))"
  shows "\<exists>s'. readi i (DUser va) off n s = Done (int k, bs) s' \<and> cache_ok d pid P Map.empty s' \<and> disk s' = disk s
     \<and> itable s' = itable s
     \<and> (\<forall>j<k. mem s' (ubyte pt (va + of_nat j) (mem s)) = bs ! j)
     \<and> (\<forall>a. a \<notin> (\<lambda>j. ubyte pt (va + of_nat j) (mem s)) ` {..<k} \<longrightarrow> mem s' a = mem s a)"
proof -
  let ?f = "\<lambda>j. ubyte pt (va + of_nat j) (mem s)"
  have len: "length bs = k" unfolding assms(13) using assms(3) by simp
  have "user_ok (DUser va) k s" using assms(4-6) by (simp add: user_ok_def)
  from user.readi_spec [OF assms(1-3) this assms(7-13)] obtain s' where
    s': "readi i (DUser va) off n s = Done (int k, bs) s'" "cache_ok d pid P Map.empty s'" "same_log s s'"
      "same_rest (s\<lparr>mem := user_put (DUser va) bs s\<rparr>) s'" by auto
  have m: "mem s' = put_bytes ?f bs (mem s)" "itable s' = itable s" using s'(4) assms(4,5) by (simp_all add: same_rest_def user_put_def)
  have inj: "inj_on ?f {..<length bs}" using assms(6) len by (simp add: user_buffer_def)
  have "mem s' (?f j) = bs ! j" if "j < k" for j unfolding m using put_bytes_at [OF inj] that len by simp
  moreover have "mem s' a = mem s a" if "a \<notin> ?f ` {..<k}" for a unfolding m by (rule put_bytes_other) (use that len in auto)
  ultimately show ?thesis using s'(1-3) m(2) by (auto simp: same_log_def)
qed

text \<open>A file of two bytes in block 50 of a small disk, read to address 16 of a small address space.\<close>

definition buffer_machine :: "(nat \<Rightarrow> u8 list) \<Rightarrow> kernel" where
  "buffer_machine dk = (upd_proc 0 (\<lambda>p. p\<lparr>p_pagetable := 0x80001000\<rparr>) (log_machine dk))\<lparr>mem := small_mem\<rparr>"

lemma buffer_machine_facts:
  "myproc (buffer_machine dk) = Some 0" "p_pagetable (procs (buffer_machine dk) ! 0) = 0x80001000" "mem (buffer_machine dk) = small_mem"
  "cache_ok 1 0 Map.empty Map.empty (buffer_machine dk)" "disk (buffer_machine dk) = dk" "itable (buffer_machine dk) = replicate NINODE zero_inode"
proof -
  note m = log_machine_facts [of dk]
  let ?s = "(upd_cpu (\<lambda>c. c\<lparr>c_proc := Some 0\<rparr>) (zero_kernel zero_table dk))
     \<lparr>klog := \<lparr>l_start = 2, l_outstanding = 0, l_committing = False, l_dev = 1, lh_n = 0, lh_block = replicate 30 0\<rparr>\<rparr>"
  have b: "bufs ?s = replicate NBUF zero_buf" by simp
  note z = log_machine_def binit_zero [OF b]
  show "myproc (buffer_machine dk) = Some 0" "p_pagetable (procs (buffer_machine dk) ! 0) = 0x80001000" "itable (buffer_machine dk) = replicate NINODE zero_inode"
    unfolding buffer_machine_def z by (simp_all add: myproc_def mycpu_def zero_table_def upd_cpu_def)
  have c: "curpid (buffer_machine dk) = curpid (log_machine dk)"
    unfolding buffer_machine_def z by (simp add: curpid_def myproc_def mycpu_def zero_table_def upd_cpu_def)
  show "cache_ok 1 0 Map.empty Map.empty (buffer_machine dk)" using m(1) c unfolding cache_ok_def by (simp add: buffer_machine_def)
  show "mem (buffer_machine dk) = small_mem" "disk (buffer_machine dk) = dk" using m by (simp_all add: buffer_machine_def)
qed

definition read_machine :: kernel where
  "read_machine = (buffer_machine (\<lambda>b. replicate BSIZE (of_nat b)))
     \<lparr>itable := (replicate NINODE zero_inode)[0 := zero_inode\<lparr>i_dev := 1, i_size := 2, i_addrs := 50 # replicate 12 0\<rparr>]\<rparr>"

lemma read_machine_facts:
  "myproc read_machine = Some 0" "p_pagetable (procs read_machine ! 0) = 0x80001000" "mem read_machine = small_mem"
  "cache_ok 1 0 Map.empty Map.empty read_machine" "disk read_machine = (\<lambda>b. replicate BSIZE (of_nat b))"
  "itable read_machine ! 0 = zero_inode\<lparr>i_dev := 1, i_size := 2, i_addrs := 50 # replicate 12 0\<rparr>"
  by (simp_all add: read_machine_def buffer_machine_facts del: One_nat_def)

theorem readi_delivers_witness:
  "file_ok (content Map.empty Map.empty (disk read_machine)) (itable read_machine ! 0)
   \<and> (\<exists>s'. readi 0 (DUser 16) 0 2 read_machine = Done (2, [50, 50]) s' \<and> disk s' = disk read_machine)"
proof -
  have D: "content Map.empty Map.empty (disk read_machine) = (\<lambda>b. replicate BSIZE (of_nat b))"
    by (simp add: read_machine_facts content_empty)
  have ok: "file_ok (content Map.empty Map.empty (disk read_machine)) (itable read_machine ! 0)"
    unfolding D by (auto simp: read_machine_facts file_ok_def has_block_def file_addr_def)
  have bs: "[50, 50] = take (unat (2 :: u32)) (drop (unat (0 :: u32)) (file_bytes (content Map.empty Map.empty (disk read_machine))
      (i_addrs (itable read_machine ! 0)) (unat (i_size (itable read_machine ! 0)))))"
    unfolding D by (simp add: read_machine_facts file_bytes_def file_byte_def file_addr_def upt_rec)
  have ub: "user_buffer (p_pagetable (procs read_machine ! 0)) 16 2 (mem read_machine)" using small_buffer by (simp add: read_machine_facts)
  have "\<exists>s'. readi 0 (DUser 16) 0 2 read_machine = Done (int 2, [50, 50]) s' \<and> cache_ok 1 0 Map.empty Map.empty s' \<and> disk s' = disk read_machine
     \<and> itable s' = itable read_machine
     \<and> (\<forall>j<2. mem s' (ubyte (p_pagetable (procs read_machine ! 0)) (16 + of_nat j) (mem read_machine)) = [50, 50] ! j)
     \<and> (\<forall>a. a \<notin> (\<lambda>j. ubyte (p_pagetable (procs read_machine ! 0)) (16 + of_nat j) (mem read_machine)) ` {..<2} \<longrightarrow> mem s' a = mem read_machine a)"
    by (rule readi_delivers [OF _ _ _ read_machine_facts(1) refl ub read_machine_facts(4) _ _ _ refl ok bs]) (simp_all add: read_machine_facts)
  then show ?thesis using ok by auto
qed

end
