(* ===== verification/Image.thy ===== *)
theory Image
  imports Mkfs Content
begin

text \<open>
  The image that \<^verbatim>\<open>mkfs\<close> builds is a file system that the kernel reads: every file named on the command
  line has an inode, an entry in the root directory and, through its direct and indirect blocks, its
  bytes; no two files share a block; the superblock and the free map say so.
\<close>

section \<open>The two byte orders\<close>

lemma xshort_id [simp]: "xshort x = x"
proof -
  have "bytes_of 2 x = [ucast x, ucast (drop_bit 8 x)]" by (simp add: bytes_of_def numeral_2_eq_2)
  then show ?thesis unfolding xshort_def using word_of_bytes_of [of 2 x] by simp
qed

lemma xint_id [simp]: "xint x = x"
proof -
  have "[0..<4] = [0, 1, 2, 3 :: nat]" by (simp add: upt_rec)
  then have "bytes_of 4 x = [ucast x, ucast (drop_bit 8 x), ucast (drop_bit 16 x), ucast (drop_bit 24 x)]" by (simp add: bytes_of_def)
  then show ?thesis unfolding xint_def using word_of_bytes_of [of 4 x] by simp
qed

lemma layout [simp]: "nbitmap = 1" "ninodeblocks = 13" "nlog = 31"
  by (simp_all add: nbitmap_def ninodeblocks_def nlog_def)

lemma nmeta_47 [simp]: "nmeta = 47"
  by (simp add: nmeta_def)

lemma mk_sb_fields [simp]: "sb_bmapstart mk_sb = 46" "sb_inodestart mk_sb = 33" "mk_IBLOCK inum = inum div IPB + 33"
  by (simp_all add: mk_sb_def mk_IBLOCK_def)

section \<open>Appending to a file\<close>

text \<open>The image while it grows: whole sectors, and zeros behind the last block taken.\<close>

definition mk_wf :: "mkfs \<Rightarrow> bool" where
  "mk_wf st \<longleftrightarrow> nsect st = FSSIZE \<and> (\<forall>b. length (img st b) = BSIZE) \<and> nmeta \<le> freeblock st \<and> freeblock st \<le> FSSIZE
     \<and> (\<forall>b\<ge>freeblock st. img st b = replicate BSIZE 0)"

definition nblk :: "nat \<Rightarrow> nat" where
  "nblk sz = (sz + BSIZE - 1) div BSIZE"

text \<open>The blocks a file of \<open>sz\<close> bytes takes, with its indirect block.\<close>

definition mk_need :: "nat \<Rightarrow> nat" where
  "mk_need sz = nblk sz + (if NDIRECT < nblk sz then 1 else 0)"

lemma rsect_wf: "mk_wf st \<Longrightarrow> b < FSSIZE \<Longrightarrow> rsect b st = Some (img st b)"
  by (simp add: rsect_def mk_wf_def)

lemma fmap_direct0: "fmap_ok D addrs N \<Longrightarrow> bn < NDIRECT \<Longrightarrow> (addrs ! bn = 0) = (N \<le> bn)"
  by (fastforce simp: fmap_ok_def file_addr_def not_le)

lemma fmap_entry0:
  assumes "fmap_ok D addrs N" "NDIRECT \<le> bn" "bn < MAXFILE" "addrs ! NDIRECT \<noteq> 0"
  shows "(get32 (D (addrs ! NDIRECT)) (4 * (bn - NDIRECT)) = 0) = (N \<le> bn)"
proof -
  have "(get32 (D (addrs ! NDIRECT)) (4 * (bn - NDIRECT)) = 0) = (file_addr D addrs bn = 0)"
    using assms(2) by (simp add: file_addr_def unat_eq_zero)
  also have "\<dots> = (N \<le> bn)" using assms by (cases "N \<le> bn") (simp_all add: fmap_ok_def)
  finally show ?thesis .
qed

definition bneed :: "nat \<Rightarrow> nat" where
  "bneed N = N + (if NDIRECT < N then 1 else 0)"

text \<open>A file of \<open>N\<close> blocks in an image, and the image after the file has grown.\<close>

definition placed :: "mkfs \<Rightarrow> nat list \<Rightarrow> nat \<Rightarrow> bool" where
  "placed st addrs N \<longleftrightarrow> mk_wf st \<and> fmap_ok (img st) addrs N \<and> (addrs ! NDIRECT = 0) = (N \<le> NDIRECT)
     \<and> fblocks (img st) addrs N \<subseteq> {nmeta..<freeblock st}"

definition grew :: "mkfs \<Rightarrow> nat list \<Rightarrow> nat \<Rightarrow> mkfs \<Rightarrow> nat list \<Rightarrow> nat \<Rightarrow> bool" where
  "grew st addrs N st' addrs' N' \<longleftrightarrow> placed st' addrs' N' \<and> freeinode st' = freeinode st
     \<and> N \<le> N' \<and> freeblock st' + bneed N = freeblock st + bneed N'
     \<and> fblocks (img st') addrs' N' \<subseteq> fblocks (img st) addrs N \<union> {freeblock st..<freeblock st'}
     \<and> (\<forall>b<freeblock st. b \<notin> fblocks (img st) addrs N \<longrightarrow> img st' b = img st b)"

lemma bneed_mono: "N \<le> N' \<Longrightarrow> bneed N \<le> bneed N'"
  by (simp add: bneed_def)

lemma grew_refl: "placed st addrs N \<Longrightarrow> grew st addrs N st addrs N"
  by (simp add: grew_def)

lemma grew_trans:
  assumes "grew st addrs N st' addrs' N'" "grew st' addrs' N' st'' addrs'' N''"
  shows "grew st addrs N st'' addrs'' N''"
proof -
  have f: "freeblock st' + bneed N = freeblock st + bneed N'" "freeblock st'' + bneed N' = freeblock st' + bneed N''" "N \<le> N'" "N' \<le> N''"
    "fblocks (img st') addrs' N' \<subseteq> fblocks (img st) addrs N \<union> {freeblock st..<freeblock st'}"
    "fblocks (img st'') addrs'' N'' \<subseteq> fblocks (img st') addrs' N' \<union> {freeblock st'..<freeblock st''}"
    using assms by (simp_all add: grew_def)
  have m: "freeblock st \<le> freeblock st'" "freeblock st' \<le> freeblock st''" using f bneed_mono by (metis nat_add_left_cancel_le add.commute add_le_cancel_right)+
  have "fblocks (img st'') addrs'' N'' \<subseteq> fblocks (img st) addrs N \<union> {freeblock st..<freeblock st''}" using f(5,6) m by force
  moreover have "img st'' b = img st b" if "b < freeblock st" "b \<notin> fblocks (img st) addrs N" for b
  proof -
    have "b \<notin> fblocks (img st') addrs' N'" using f(5) that by auto
    then show ?thesis using that m assms by (simp add: grew_def)
  qed
  ultimately show ?thesis using assms f(1-4) by (simp add: grew_def)
qed

lemma placedD:
  assumes "placed st addrs N"
  shows "mk_wf st" "fmap_ok (img st) addrs N" "(addrs ! NDIRECT = 0) = (N \<le> NDIRECT)" "fblocks (img st) addrs N \<subseteq> {nmeta..<freeblock st}"
    "freeblock st \<noteq> 0" "freeblock st \<notin> fblocks (img st) addrs N" "img st (freeblock st) = replicate BSIZE 0"
    "length addrs = NDIRECT + 1" "N \<le> MAXFILE" "b \<in> fblocks (img st) addrs N \<Longrightarrow> rsect b st = Some (img st b)"
  using assms by (auto simp: placed_def mk_wf_def fmap_ok_def rsect_def)

text \<open>The block is there.\<close>

lemma iappend_block_old:
  assumes p: "placed st (di_addrs din) (Suc fbn)"
  shows "iappend_block din fbn st = Some (file_addr (img st) (di_addrs din) fbn, din, st)"
proof -
  note f = placedD [OF p]
  show ?thesis
  proof (cases "fbn < NDIRECT")
    case True
    then show ?thesis using fmap_direct0 [OF f(2) True] by (simp add: iappend_block_def Let_def file_addr_def)
  next
    case False
    then have z: "di_addrs din ! NDIRECT \<noteq> 0" using f(3) by simp
    then have "rsect (di_addrs din ! NDIRECT) st = Some (img st (di_addrs din ! NDIRECT))" by (intro f(10)) (simp add: fblocks_def)
    moreover have "get32 (img st (di_addrs din ! NDIRECT)) (4 * (fbn - NDIRECT)) \<noteq> 0" using fmap_entry0 [OF f(2) _ _ z, of fbn] f(9) False by simp
    ultimately show ?thesis using False z by (simp add: iappend_block_def Let_def file_addr_def)
  qed
qed

text \<open>A direct block is added.\<close>

lemma iappend_block_direct:
  assumes p: "placed st (di_addrs din) N" and N: "N < NDIRECT" and room: "freeblock st < FSSIZE"
  shows "\<exists>addrs' st'. iappend_block din N st = Some (file_addr (img st') addrs' N, din\<lparr>di_addrs := addrs'\<rparr>, st')
     \<and> grew st (di_addrs din) N st' addrs' (Suc N) \<and> img st' = img st
     \<and> (\<forall>bn<N. file_addr (img st') addrs' bn = file_addr (img st) (di_addrs din) bn)"
proof -
  let ?b = "freeblock st" and ?a = "di_addrs din"
  note f = placedD [OF p]
  have "?a ! N = 0" using fmap_direct0 [OF f(2) N] by simp
  note a = add_direct [OF f(2) N f(5,6)]
  let ?st = "st\<lparr>freeblock := Suc ?b\<rparr>"
  have r: "iappend_block din N st = Some (file_addr (img ?st) (?a[N := ?b]) N, din\<lparr>di_addrs := ?a[N := ?b]\<rparr>, ?st)"
    using N f(8) \<open>?a ! N = 0\<close> by (simp add: iappend_block_def Let_def file_addr_def)
  have w: "mk_wf ?st" using f(1) room by (simp add: mk_wf_def)
  have "placed ?st (?a[N := ?b]) (Suc N)" using w a f(3,4) N f(1) by (auto simp: placed_def mk_wf_def)
  then have "grew st ?a N ?st (?a[N := ?b]) (Suc N)" using a N by (auto simp: grew_def bneed_def)
  then show ?thesis using r a(3) by (intro exI [of _ "?a[N := ?b]"] exI [of _ ?st]) simp
qed

text \<open>An entry of the indirect block is filled, which may have been taken just before.\<close>

lemma fill_entry:
  assumes w: "mk_wf st" and ok: "fmap_ok (img st) addrs N" and z: "addrs ! NDIRECT \<noteq> 0"
    and fb: "fblocks (img st) addrs N \<subseteq> {nmeta..<freeblock st}" and N: "NDIRECT \<le> N" "N < MAXFILE" and room: "freeblock st < FSSIZE"
    and st': "st' = wsect (addrs ! NDIRECT) (put32 (4 * (N - NDIRECT)) (of_nat (freeblock st)) (img st (addrs ! NDIRECT))) (st\<lparr>freeblock := Suc (freeblock st)\<rparr>)"
  shows "rsect (addrs ! NDIRECT) st = Some (img st (addrs ! NDIRECT))" "get32 (img st (addrs ! NDIRECT)) (4 * (N - NDIRECT)) = 0"
    "placed st' addrs (Suc N)" "fblocks (img st') addrs (Suc N) = insert (freeblock st) (fblocks (img st) addrs N)"
    "\<And>bn. bn < N \<Longrightarrow> file_addr (img st') addrs bn = file_addr (img st) addrs bn" "file_addr (img st') addrs N = freeblock st"
    "\<And>b. b \<noteq> addrs ! NDIRECT \<Longrightarrow> img st' b = img st b"
    "unat (get32 (put32 (4 * (N - NDIRECT)) (of_nat (freeblock st)) (img st (addrs ! NDIRECT))) (4 * (N - NDIRECT))) = freeblock st"
proof -
  let ?x = "addrs ! NDIRECT"
  have xin: "?x \<in> fblocks (img st) addrs N" using z by (simp add: fblocks_def)
  then have x: "?x < freeblock st" "freeblock st \<le> FSSIZE" using fb w by (auto simp: mk_wf_def)
  show "rsect ?x st = Some (img st ?x)" using rsect_wf [OF w, of ?x] x by simp
  show "get32 (img st ?x) (4 * (N - NDIRECT)) = 0" using fmap_entry0 [OF ok N z] by simp
  have b: "freeblock st \<noteq> 0" "freeblock st \<notin> fblocks (img st) addrs N" "freeblock st < 2 ^ 32" using fb w room by (auto simp: mk_wf_def)
  have D': "img st' ?x = put32 (4 * (N - NDIRECT)) (of_nat (freeblock st)) (img st ?x)" by (simp add: st' wsect_def)
  note a = add_entry [where D' = "img st'", OF ok N z b D']
  show "fblocks (img st') addrs (Suc N) = insert (freeblock st) (fblocks (img st) addrs N)"
    "\<And>bn. bn < N \<Longrightarrow> file_addr (img st') addrs bn = file_addr (img st) addrs bn" "file_addr (img st') addrs N = freeblock st"
    by (rule a; assumption)+
  show "\<And>b. b \<noteq> ?x \<Longrightarrow> img st' b = img st b" by (simp add: st' wsect_def)
  have l: "4 * (N - NDIRECT) + 4 \<le> length (img st ?x)" using N(2) w by (simp add: mk_wf_def)
  then show "unat (get32 (put32 (4 * (N - NDIRECT)) (of_nat (freeblock st)) (img st ?x)) (4 * (N - NDIRECT))) = freeblock st"
    using b(3) by (simp add: unat_of_nat)
  have "mk_wf st'" using w x room l unfolding mk_wf_def st' wsect_def by (auto simp: max_def)
  moreover have "freeblock st' = Suc (freeblock st)" by (simp add: st' wsect_def)
  ultimately show "placed st' addrs (Suc N)" using a N(1) z fb w by (auto simp: placed_def mk_wf_def)
qed

lemma iappend_block_entry:
  assumes p: "placed st (di_addrs din) N" and N: "NDIRECT < N" "N < MAXFILE" and room: "freeblock st < FSSIZE"
  shows "\<exists>addrs' st'. iappend_block din N st = Some (file_addr (img st') addrs' N, din\<lparr>di_addrs := addrs'\<rparr>, st')
     \<and> grew st (di_addrs din) N st' addrs' (Suc N) \<and> (\<forall>bn<N. img st' (file_addr (img st) (di_addrs din) bn) = img st (file_addr (img st) (di_addrs din) bn))
     \<and> (\<forall>bn<N. file_addr (img st') addrs' bn = file_addr (img st) (di_addrs din) bn)"
proof -
  let ?b = "freeblock st" and ?a = "di_addrs din"
  note f = placedD [OF p]
  have z: "?a ! NDIRECT \<noteq> 0" using f(3) N by simp
  define st' where "st' = wsect (?a ! NDIRECT) (put32 (4 * (N - NDIRECT)) (of_nat ?b) (img st (?a ! NDIRECT))) (st\<lparr>freeblock := Suc ?b\<rparr>)"
  note a = fill_entry [OF f(1,2) z f(4) less_imp_le [OF N(1)] N(2) room st'_def]
  have r: "iappend_block din N st = Some (file_addr (img st') ?a N, din\<lparr>di_addrs := ?a\<rparr>, st')"
    using N z a(1,2,6,8) by (simp add: iappend_block_def Let_def st'_def)
  have xin: "?a ! NDIRECT \<in> fblocks (img st) ?a N" using z by (simp add: fblocks_def)
  then have o: "\<forall>b. b \<notin> fblocks (img st) ?a N \<longrightarrow> img st' b = img st b" using a(7) by metis
  have "freeblock st' = Suc ?b" "freeinode st' = freeinode st" by (simp_all add: st'_def wsect_def)
  then have g: "grew st ?a N st' ?a (Suc N)" using a(3,4) o N unfolding grew_def bneed_def by auto
  have "?a ! NDIRECT \<notin> file_addr (img st) ?a ` {..<N}" using f(2) z by (simp add: fmap_ok_def)
  then have "img st' (file_addr (img st) ?a bn) = img st (file_addr (img st) ?a bn)" if "bn < N" for bn using that by (intro a(7)) (metis imageI lessThan_iff)
  then show ?thesis using r g a(5) by (intro exI [of _ ?a] exI [of _ st']) simp
qed

lemma iappend_block_indirect:
  assumes p: "placed st (di_addrs din) NDIRECT" and room: "freeblock st + 1 < FSSIZE"
  shows "\<exists>addrs' st'. iappend_block din NDIRECT st = Some (file_addr (img st') addrs' NDIRECT, din\<lparr>di_addrs := addrs'\<rparr>, st')
     \<and> grew st (di_addrs din) NDIRECT st' addrs' (Suc NDIRECT)
     \<and> (\<forall>bn<NDIRECT. img st' (file_addr (img st) (di_addrs din) bn) = img st (file_addr (img st) (di_addrs din) bn))
     \<and> (\<forall>bn<NDIRECT. file_addr (img st') addrs' bn = file_addr (img st) (di_addrs din) bn)"
proof -
  let ?b = "freeblock st" and ?a = "di_addrs din"
  note f = placedD [OF p]
  have z: "?a ! NDIRECT = 0" using f(3) by simp
  note a = add_indirect [OF f(2) z f(5,6,7)]
  define st1 a1 where "st1 = st\<lparr>freeblock := Suc ?b\<rparr>" and "a1 = ?a[NDIRECT := ?b]"
  have i: "img st1 = img st" "freeblock st1 = Suc ?b" "a1 ! NDIRECT = ?b" using f(8) by (simp_all add: st1_def a1_def)
  have w1: "mk_wf st1" using f(1) room by (simp add: mk_wf_def st1_def)
  have c1: "fmap_ok (img st1) a1 NDIRECT" "a1 ! NDIRECT \<noteq> 0" "fblocks (img st1) a1 NDIRECT \<subseteq> {nmeta..<freeblock st1}"
    using a f(1,4,5) i by (auto simp: a1_def mk_wf_def)
  define st' where "st' = wsect (a1 ! NDIRECT) (put32 (4 * (NDIRECT - NDIRECT)) (of_nat (freeblock st1)) (img st1 (a1 ! NDIRECT))) (st1\<lparr>freeblock := Suc (freeblock st1)\<rparr>)"
  have room1: "freeblock st1 < FSSIZE" using room i by simp
  note e = fill_entry [OF w1 c1 le_refl _ room1 st'_def]
  have e': "rsect ?b st1 = Some (img st1 ?b)" "get32 (img st1 ?b) 0 = 0" "unat (get32 (put32 0 (of_nat (Suc ?b)) (img st1 ?b)) 0) = Suc ?b"
    using e(1,2,8) i by simp_all
  have st2: "st' = wsect ?b (put32 0 (of_nat (Suc ?b)) (img st1 ?b)) (st1\<lparr>freeblock := Suc (Suc ?b)\<rparr>)" by (simp add: st'_def i)
  have n: "file_addr (img st') a1 NDIRECT = Suc ?b" using e(6) i by simp
  have "iappend_block din NDIRECT st = Some (Suc ?b, din\<lparr>di_addrs := a1\<rparr>, st')"
    unfolding st2 using z f(8) e' i by (simp add: iappend_block_def Let_def flip: st1_def a1_def)
  then have r: "iappend_block din NDIRECT st = Some (file_addr (img st') a1 NDIRECT, din\<lparr>di_addrs := a1\<rparr>, st')" unfolding n .
  have o: "img st' b = img st b" if "b \<noteq> ?b" for b using e(7) that i by simp
  have fbs: "fblocks (img st') a1 (Suc NDIRECT) = insert (Suc ?b) (insert ?b (fblocks (img st) ?a NDIRECT))" using e(4) a(2) i by (simp flip: a1_def)
  have "freeblock st' = Suc (Suc ?b)" "freeinode st' = freeinode st" by (simp_all add: st2 wsect_def st1_def)
  then have g: "grew st ?a NDIRECT st' a1 (Suc NDIRECT)" using e(3) fbs o unfolding grew_def bneed_def by auto
  have "?b \<notin> file_addr (img st) ?a ` {..<NDIRECT}" using f(6) by (simp add: fblocks_def)
  then have "img st' (file_addr (img st) ?a bn) = img st (file_addr (img st) ?a bn)" if "bn < NDIRECT" for bn using that by (intro o) (metis imageI lessThan_iff)
  moreover have "file_addr (img st') a1 bn = file_addr (img st) ?a bn" if "bn < NDIRECT" for bn using e(5) a(3) i that by (simp flip: a1_def)
  ultimately show ?thesis using r g by (intro exI [of _ a1] exI [of _ st']) simp
qed

lemma nblk_eq: "nblk off = (if off mod BSIZE = 0 then off div BSIZE else Suc (off div BSIZE))"
proof -
  define q r where "q = off div BSIZE" and "r = off mod BSIZE"
  then have q: "off = q * BSIZE + r" "r < BSIZE" "q = off div BSIZE" "r = off mod BSIZE" by simp_all
  have "nblk off = (r + q * BSIZE + (BSIZE - 1)) div BSIZE" by (simp add: nblk_def q(1))
  also have "\<dots> = (r + (BSIZE - 1) + q * BSIZE) div BSIZE" by (simp add: ac_simps)
  also have "\<dots> = q + (r + (BSIZE - 1)) div BSIZE" by (subst div_mult_self1) simp_all
  also have "(r + (BSIZE - 1)) div BSIZE = (if r = 0 then 0 else 1)" using q(2) by (auto intro!: div_nat_eqI)
  finally show ?thesis by (simp add: q(3,4))
qed

lemma nblk_grow:
  assumes "0 < n" "off mod BSIZE + n \<le> BSIZE"
  shows "nblk (off + n) = Suc (off div BSIZE)"
  unfolding nblk_def
proof (rule div_nat_eqI)
  have d: "BSIZE * (off div BSIZE) + off mod BSIZE = off" by simp
  show "BSIZE * Suc (off div BSIZE) \<le> off + n + BSIZE - 1" unfolding mult_Suc_right using d assms(1) by linarith
  show "off + n + BSIZE - 1 < BSIZE * Suc (Suc (off div BSIZE))" unfolding mult_Suc_right using d assms by linarith
qed

lemma nblk_mono: "a \<le> b \<Longrightarrow> nblk a \<le> nblk b"
  unfolding nblk_def by (intro div_le_mono) simp

lemma nblk_max: "n \<le> MAXFILE * BSIZE \<Longrightarrow> nblk n \<le> MAXFILE"
  using nblk_mono [of n "MAXFILE * BSIZE"] by (simp add: nblk_def)

lemma size_blocks: "sz \<le> nblk sz * BSIZE"
proof -
  have "(sz + BSIZE - 1) div BSIZE * BSIZE + (sz + BSIZE - 1) mod BSIZE = sz + BSIZE - 1" "(sz + BSIZE - 1) mod BSIZE < BSIZE" by simp_all
  then show ?thesis unfolding nblk_def by linarith
qed

lemma file_bytes_same:
  assumes "\<And>bn. bn < N \<Longrightarrow> file_addr D' addrs' bn = file_addr D addrs bn" "\<And>bn. bn < N \<Longrightarrow> D' (file_addr D addrs bn) = D (file_addr D addrs bn)"
    "sz \<le> N * BSIZE"
  shows "file_bytes D' addrs' sz = file_bytes D addrs sz"
proof -
  have "k div BSIZE < N" if "k < sz" for k using that assms(3) by (simp add: div_less_iff_less_mult)
  then show ?thesis by (simp add: file_bytes_def file_byte_def assms(1,2))
qed

lemma iappend_block_ok:
  assumes p: "placed st (di_addrs din) (nblk off)" and fbn: "off div BSIZE < MAXFILE"
    and room: "freeblock st + bneed (Suc (off div BSIZE)) \<le> FSSIZE + bneed (nblk off)"
  shows "\<exists>addrs' st'. iappend_block din (off div BSIZE) st = Some (file_addr (img st') addrs' (off div BSIZE), din\<lparr>di_addrs := addrs'\<rparr>, st')
     \<and> grew st (di_addrs din) (nblk off) st' addrs' (Suc (off div BSIZE))
     \<and> file_bytes (img st') addrs' off = file_bytes (img st) (di_addrs din) off"
proof (cases "off mod BSIZE = 0")
  case False
  then have "nblk off = Suc (off div BSIZE)" by (simp add: nblk_eq)
  with iappend_block_old p grew_refl [OF p] show ?thesis by (intro exI [of _ "di_addrs din"] exI [of _ st]) simp
next
  case True
  define N where "N = nblk off"
  have N: "off div BSIZE = N" using True by (simp add: nblk_eq N_def)
  have sz: "off \<le> N * BSIZE" unfolding N_def by (rule size_blocks)
  have pN: "placed st (di_addrs din) N" using p by (simp add: N_def)
  have "\<exists>addrs' st'. iappend_block din N st = Some (file_addr (img st') addrs' N, din\<lparr>di_addrs := addrs'\<rparr>, st')
     \<and> grew st (di_addrs din) N st' addrs' (Suc N)
     \<and> (\<forall>bn<N. img st' (file_addr (img st) (di_addrs din) bn) = img st (file_addr (img st) (di_addrs din) bn))
     \<and> (\<forall>bn<N. file_addr (img st') addrs' bn = file_addr (img st) (di_addrs din) bn)"
  proof (cases N NDIRECT rule: linorder_cases)
    case less
    have "freeblock st < FSSIZE" using room less unfolding N by (simp add: bneed_def flip: N_def)
    from iappend_block_direct [OF pN less this] show ?thesis by metis
  next
    case equal
    have "freeblock st + 1 < FSSIZE" using room equal unfolding N by (simp add: bneed_def flip: N_def)
    from iappend_block_indirect [OF _ this, of din] pN show ?thesis unfolding equal by blast
  next
    case greater
    have "freeblock st < FSSIZE" using room greater unfolding N by (simp add: bneed_def flip: N_def)
    from iappend_block_entry [OF pN greater _ this] fbn show ?thesis unfolding N by blast
  qed
  then obtain addrs' st' where "iappend_block din N st = Some (file_addr (img st') addrs' N, din\<lparr>di_addrs := addrs'\<rparr>, st')"
    "grew st (di_addrs din) N st' addrs' (Suc N)" "file_bytes (img st') addrs' off = file_bytes (img st) (di_addrs din) off"
    using file_bytes_same [OF _ _ sz] by metis
  then show ?thesis unfolding N N_def [symmetric] by blast
qed

text \<open>Bytes are stored in a block of the file.\<close>

lemma store_placed:
  assumes p: "placed st addrs N" and off: "off div BSIZE < N" "off mod BSIZE + length cs \<le> BSIZE" and sz: "off \<le> N * BSIZE"
    and st': "st' = wsect (file_addr (img st) addrs (off div BSIZE)) (store_at (off mod BSIZE) cs (img st (file_addr (img st) addrs (off div BSIZE)))) st"
  shows "rsect (file_addr (img st) addrs (off div BSIZE)) st = Some (img st (file_addr (img st) addrs (off div BSIZE)))"
    and "grew st addrs N st' addrs N" and "file_bytes (img st') addrs (off + length cs) = file_bytes (img st) addrs off @ cs"
proof -
  let ?x = "file_addr (img st) addrs (off div BSIZE)"
  note f = placedD [OF p]
  have xin: "?x \<in> fblocks (img st) addrs N" using off(1) by (simp add: fblocks_def)
  show "rsect ?x st = Some (img st ?x)" by (rule f(10) [OF xin])
  have D': "img st' = (img st)(?x := store_at (off mod BSIZE) cs (img st ?x))" by (simp add: st' wsect_def)
  have l: "length (img st b) = BSIZE" for b using f(1) by (simp add: mk_wf_def)
  note s = store_block [OF f(2) off l refl D']
  have x: "nmeta \<le> ?x" "?x < freeblock st" "freeblock st \<le> FSSIZE" using xin f(1,4) by (auto simp: mk_wf_def)
  have o: "off mod BSIZE \<le> BSIZE" by (simp add: less_imp_le)
  have "mk_wf st'" using f(1) x o off(2) l unfolding mk_wf_def st' wsect_def by (auto simp: max_def)
  moreover have fr: "freeblock st' = freeblock st" "freeinode st' = freeinode st" by (simp_all add: st' wsect_def)
  ultimately have "placed st' addrs N" using s(1,2) f(3,4) by (simp add: placed_def)
  then show "grew st addrs N st' addrs N" using s(2) fr xin by (auto simp: grew_def D')
  have "file_bytes (img st') addrs (max off (off + length cs)) = store_at off cs (file_bytes (img st) addrs off)" by (rule s(5)) (simp_all add: sz)
  then show "file_bytes (img st') addrs (off + length cs) = file_bytes (img st) addrs off @ cs" by (simp add: store_at_def)
qed

lemma iappend_loop_ok:
  assumes "placed st (di_addrs din) (nblk off)" and "off + length p \<le> MAXFILE * BSIZE"
    and "freeblock st + bneed (nblk (off + length p)) \<le> FSSIZE + bneed (nblk off)"
  shows "\<exists>addrs' st'. iappend_loop din off p st = Some (din\<lparr>di_addrs := addrs'\<rparr>, off + length p, st')
     \<and> grew st (di_addrs din) (nblk off) st' addrs' (nblk (off + length p))
     \<and> file_bytes (img st') addrs' (off + length p) = file_bytes (img st) (di_addrs din) off @ p"
  using assms
proof (induction "length p" arbitrary: din off p st rule: less_induct)
  case less
  show ?case
  proof (cases "p = []")
    case True
    then show ?thesis using grew_refl [OF less.prems(1)] by (intro exI [of _ "di_addrs din"] exI [of _ st]) (simp add: iappend_loop.simps)
  next
    case False
    define n1 where "n1 = min (length p) ((off div BSIZE + 1) * BSIZE - off)"
    have d: "off div BSIZE * BSIZE + off mod BSIZE = off" "off mod BSIZE < BSIZE" by simp_all
    then have "(off div BSIZE + 1) * BSIZE - off = BSIZE - off mod BSIZE" unfolding add_mult_distrib by linarith
    then have n1': "n1 = min (length p) (BSIZE - off mod BSIZE)" unfolding n1_def by (rule arg_cong)
    then have n1: "0 < n1" "n1 \<le> length p" "off mod BSIZE + n1 \<le> BSIZE" using False d(2) by auto
    have nb: "nblk (off + n1) = Suc (off div BSIZE)" by (rule nblk_grow [OF n1(1,3)])
    have nle: "Suc (off div BSIZE) \<le> nblk (off + length p)" unfolding nb [symmetric] using n1(2) by (intro nblk_mono) simp
    have fbn: "off div BSIZE < MAXFILE" using nle nblk_max [OF less.prems(2)] by simp
    have "freeblock st + bneed (Suc (off div BSIZE)) \<le> FSSIZE + bneed (nblk off)" using less.prems(3) bneed_mono [OF nle] by linarith
    from iappend_block_ok [OF less.prems(1) fbn this] obtain a1 st1 where
      s1: "iappend_block din (off div BSIZE) st = Some (file_addr (img st1) a1 (off div BSIZE), din\<lparr>di_addrs := a1\<rparr>, st1)"
        "grew st (di_addrs din) (nblk off) st1 a1 (Suc (off div BSIZE))" "file_bytes (img st1) a1 off = file_bytes (img st) (di_addrs din) off" by blast
    define st2 where "st2 = wsect (file_addr (img st1) a1 (off div BSIZE)) (store_at (off mod BSIZE) (take n1 p) (img st1 (file_addr (img st1) a1 (off div BSIZE)))) st1"
    have p1: "placed st1 a1 (Suc (off div BSIZE))" using s1(2) by (simp add: grew_def)
    have lt: "length (take n1 p) = n1" using n1(2) by simp
    have szo: "off \<le> Suc (off div BSIZE) * BSIZE" unfolding mult_Suc using d by linarith
    note s2 = store_placed [OF p1 lessI _ szo st2_def, unfolded lt, OF n1(3)]
    have g2: "grew st (di_addrs din) (nblk off) st2 a1 (nblk (off + n1))" unfolding nb by (rule grew_trans [OF s1(2) s2(2)])
    have lb: "length (drop n1 p) < length p" "off + n1 + length (drop n1 p) = off + length p" using n1 False by auto
    have f2: "freeblock st2 + bneed (nblk off) = freeblock st + bneed (nblk (off + n1))" "placed st2 a1 (nblk (off + n1))" using g2 by (simp_all add: grew_def)
    have "\<exists>addrs' st'. iappend_loop (din\<lparr>di_addrs := a1\<rparr>) (off + n1) (drop n1 p) st2 = Some (din\<lparr>di_addrs := a1\<rparr>\<lparr>di_addrs := addrs'\<rparr>, off + n1 + length (drop n1 p), st')
       \<and> grew st2 (di_addrs (din\<lparr>di_addrs := a1\<rparr>)) (nblk (off + n1)) st' addrs' (nblk (off + n1 + length (drop n1 p)))
       \<and> file_bytes (img st') addrs' (off + n1 + length (drop n1 p)) = file_bytes (img st2) (di_addrs (din\<lparr>di_addrs := a1\<rparr>)) (off + n1) @ drop n1 p"
    proof (rule less.hyps [OF lb(1)], unfold lb(2))
      show "freeblock st2 + bneed (nblk (off + length p)) \<le> FSSIZE + bneed (nblk (off + n1))" using f2(1) less.prems(3) by linarith
    qed (use f2(2) less.prems(2) in simp_all)
    then obtain addrs' st' where s3: "iappend_loop (din\<lparr>di_addrs := a1\<rparr>) (off + n1) (drop n1 p) st2 = Some (din\<lparr>di_addrs := addrs'\<rparr>, off + length p, st')"
      "grew st2 a1 (nblk (off + n1)) st' addrs' (nblk (off + length p))"
      "file_bytes (img st') addrs' (off + length p) = file_bytes (img st2) a1 (off + n1) @ drop n1 p"
      unfolding lb(2) by auto
    have m: "off - off div BSIZE * BSIZE = off mod BSIZE" by (simp add: minus_div_mult_eq_mod)
    have "iappend_loop din off p st = iappend_loop (din\<lparr>di_addrs := a1\<rparr>) (off + n1) (drop n1 p) st2"
      unfolding iappend_loop.simps [of din off p st] Let_def n1_def [symmetric] using False fbn s1(1) s2(1) by (simp add: m st2_def)
    moreover have "file_bytes (img st') addrs' (off + length p) = file_bytes (img st) (di_addrs din) off @ p"
      using s3(3) s2(3) s1(3) by simp
    ultimately show ?thesis using s3(1) grew_trans [OF g2 s3(2)] by (intro exI [of _ addrs'] exI [of _ st'] conjI) simp_all
  qed
qed

section \<open>The files of an image\<close>

definition mk_din :: "mkfs \<Rightarrow> nat \<Rightarrow> dinode" where
  "mk_din st ino = dinode_get (img st (ino div IPB + 33)) ino"

definition file_at :: "mkfs \<Rightarrow> nat \<Rightarrow> u8 list \<Rightarrow> bool" where
  "file_at st ino bs \<longleftrightarrow> dinode_ok (mk_din st ino) \<and> di_type (mk_din st ino) = (if ino = ROOTINO then T_DIR else T_FILE)
     \<and> di_nlink (mk_din st ino) = 1 \<and> unat (di_size (mk_din st ino)) = length bs \<and> length bs \<le> MAXFILE * BSIZE
     \<and> placed st (di_addrs (mk_din st ino)) (nblk (length bs)) \<and> file_bytes (img st) (di_addrs (mk_din st ino)) (length bs) = bs"

definition iblocks :: "mkfs \<Rightarrow> nat \<Rightarrow> u8 list \<Rightarrow> nat set" where
  "iblocks st ino bs = fblocks (img st) (di_addrs (mk_din st ino)) (nblk (length bs))"

definition mk_low :: "nat \<Rightarrow> u8 list" where
  "mk_low b = (if b = 1 then store_at 0 (sb_bytes mk_sb) (replicate BSIZE 0) else replicate BSIZE 0)"

text \<open>The files of the image are \<open>C\<close>.\<close>

definition mk_inv :: "mkfs \<Rightarrow> (nat \<Rightarrow> u8 list) \<Rightarrow> bool" where
  "mk_inv st C \<longleftrightarrow> mk_wf st \<and> 1 \<le> freeinode st \<and> freeinode st \<le> ninodeblocks * IPB
     \<and> (\<forall>ino\<in>{1..<freeinode st}. file_at st ino (C ino))
     \<and> (\<forall>i\<in>{1..<freeinode st}. \<forall>j\<in>{1..<freeinode st}. i \<noteq> j \<longrightarrow> iblocks st i (C i) \<inter> iblocks st j (C j) = {})
     \<and> (\<forall>b<33. img st b = mk_low b)
     \<and> freeblock st = nmeta + (\<Sum>ino\<in>{1..<freeinode st}. bneed (nblk (length (C ino))))"

lemma file_unaffected:
  assumes p: "placed st a N" and w: "mk_wf st'" "freeblock st \<le> freeblock st'"
    and s: "\<And>b. b \<in> fblocks (img st) a N \<Longrightarrow> img st' b = img st b" and sz: "sz \<le> N * BSIZE"
  shows "placed st' a N" "fblocks (img st') a N = fblocks (img st) a N" "file_bytes (img st') a sz = file_bytes (img st) a sz"
proof -
  note f = placedD [OF p]
  have i: "a ! NDIRECT = 0 \<or> img st' (a ! NDIRECT) = img st (a ! NDIRECT)" using s [of "a ! NDIRECT"] by (cases "a ! NDIRECT = 0") (simp_all add: fblocks_def)
  show e: "fblocks (img st') a N = fblocks (img st) a N" using fmap_ok_cong(2) [OF f(2), of "img st'"] i by blast
  show "placed st' a N" unfolding placed_def e using fmap_ok_cong(1) [OF f(2), of "img st'"] i w f(3,4) by auto
  show "file_bytes (img st') a sz = file_bytes (img st) a sz" by (rule file_bytes_cong [OF f(2) s sz])
qed

lemma placed_addrs:
  assumes "placed st a N" "x \<in> set a"
  shows "x < 2 ^ 32"
proof -
  note f = placedD [OF assms(1)]
  obtain i where i: "i < NDIRECT + 1" "x = a ! i" using assms(2) f(8) by (metis in_set_conv_nth)
  have "x = 0 \<or> x \<in> fblocks (img st) a N"
  proof (cases "i < NDIRECT")
    case True
    then show ?thesis using fmap_direct0 [OF f(2) True] i(2) by (cases "N \<le> i") (auto simp: fblocks_def file_addr_def image_iff intro!: bexI [of _ i])
  next
    case False
    then have "i = NDIRECT" using i(1) by simp
    then show ?thesis using i(2) by (simp add: fblocks_def)
  qed
  then show ?thesis using f(1,4) by (auto simp: mk_wf_def)
qed

lemma rinode_wf:
  assumes "mk_wf st" "ino < ninodeblocks * IPB"
  shows "rinode ino st = Some (mk_din st ino)" "rsect (mk_IBLOCK ino) st = Some (img st (ino div IPB + 33))" "ino div IPB + 33 < 46"
proof -
  show b: "ino div IPB + 33 < 46" using assms(2) by (simp add: div_less_iff_less_mult)
  then show r: "rsect (mk_IBLOCK ino) st = Some (img st (ino div IPB + 33))" using rsect_wf [OF assms(1), of "ino div IPB + 33"] by simp
  show "rinode ino st = Some (mk_din st ino)" unfolding rinode_def r by (simp add: mk_din_def)
qed

text \<open>Writing an inode changes that inode, and no file block.\<close>

lemma winode_wf:
  assumes w: "mk_wf st" and ino: "ino < ninodeblocks * IPB" and ok: "dinode_ok di"
  shows "\<exists>st'. winode ino di st = Some st' \<and> mk_wf st' \<and> freeblock st' = freeblock st \<and> freeinode st' = freeinode st
     \<and> mk_din st' ino = di \<and> (\<forall>j. j \<noteq> ino \<longrightarrow> mk_din st' j = mk_din st j) \<and> (\<forall>b. b < 33 \<or> 46 \<le> b \<longrightarrow> img st' b = img st b)"
proof -
  let ?b = "ino div IPB + 33"
  define st' where "st' = wsect ?b (dinode_put ino di (img st ?b)) st"
  note r = rinode_wf [OF w ino]
  have l: "length (img st b) = BSIZE" for b using w by (simp add: mk_wf_def)
  have lp: "length (dinode_put ino di (img st ?b)) = BSIZE" using dinode_put_elsewhere(2) [OF l, of 0 0 ino] by simp
  have fr: "nsect st = FSSIZE" "nmeta \<le> freeblock st" using w by (simp_all add: mk_wf_def)
  have "winode ino di st = Some st'" unfolding winode_def r(2) by (simp add: st'_def)
  moreover have "mk_wf st'" using w r(3) lp unfolding mk_wf_def st'_def wsect_def by (auto simp: max_def)
  moreover have "freeblock st' = freeblock st" "freeinode st' = freeinode st" by (simp_all add: st'_def wsect_def)
  moreover have "mk_din st' ino = di" unfolding mk_din_def using dinode_get_put [OF l ok] by (simp add: st'_def wsect_def)
  moreover have "mk_din st' j = mk_din st j" if "j \<noteq> ino" for j
  proof (cases "j div IPB = ino div IPB")
    case True
    have "j div IPB * IPB + j mod IPB = j" "ino div IPB * IPB + ino mod IPB = ino" by simp_all
    then have "ino mod IPB \<noteq> j mod IPB" using that True by metis
    from dinode_get_put_other [OF l this] show ?thesis unfolding mk_din_def using True by (simp add: st'_def wsect_def)
  next
    case False
    then show ?thesis by (simp add: mk_din_def st'_def wsect_def)
  qed
  moreover have "\<forall>b. b < 33 \<or> 46 \<le> b \<longrightarrow> img st' b = img st b" using r(3) by (auto simp: st'_def wsect_def)
  ultimately show ?thesis by blast
qed

lemma sum_fun_upd:
  assumes "finite A" "i \<in> A"
  shows "(\<Sum>j\<in>A. g ((f(i := x)) j)) + (g (f i) :: nat) = (\<Sum>j\<in>A. g (f j)) + g x"
proof -
  have "(\<Sum>j\<in>A. g ((f(i := x)) j)) = g x + (\<Sum>j\<in>A - {i}. g (f j))" using assms by (subst sum.remove [OF assms]) (auto intro!: sum.cong)
  moreover have "(\<Sum>j\<in>A. g (f j)) = g (f i) + (\<Sum>j\<in>A - {i}. g (f j))" by (rule sum.remove [OF assms])
  ultimately show ?thesis by simp
qed

text \<open>A file that another file's growth leaves alone.\<close>

lemma file_at_other:
  assumes f: "file_at st j bs" and w: "mk_wf st'" "freeblock st \<le> freeblock st'" and d: "mk_din st' j = mk_din st j"
    and s: "\<And>b. b \<in> iblocks st j bs \<Longrightarrow> img st' b = img st b"
  shows "file_at st' j bs" "iblocks st' j bs = iblocks st j bs"
proof -
  let ?a = "di_addrs (mk_din st j)" and ?N = "nblk (length bs)"
  have p: "placed st ?a ?N" using f by (simp add: file_at_def)
  note u = file_unaffected [OF p w _ size_blocks]
  have s': "\<And>b. b \<in> fblocks (img st) ?a ?N \<Longrightarrow> img st' b = img st b" using s by (simp add: iblocks_def)
  show "iblocks st' j bs = iblocks st j bs" unfolding iblocks_def d using u(2) [OF s'] by simp
  show "file_at st' j bs" using f u(1,3) [OF s'] unfolding file_at_def d by simp
qed

text \<open>One file is replaced by a version of it in its own and in new blocks.\<close>

lemma replace_file:
  assumes inv: "mk_inv st C" and ino: "ino \<in> {1..<freeinode st}" and w: "mk_wf st'" "freeblock st \<le> freeblock st'" "freeinode st' = freeinode st"
    and din: "\<And>j. j \<noteq> ino \<Longrightarrow> j < freeinode st \<Longrightarrow> mk_din st' j = mk_din st j"
    and img: "\<And>b. b < freeblock st \<Longrightarrow> b < 33 \<or> 46 \<le> b \<Longrightarrow> b \<notin> iblocks st ino (C ino) \<Longrightarrow> img st' b = img st b"
    and me: "file_at st' ino bs" and ime: "iblocks st' ino bs \<subseteq> iblocks st ino (C ino) \<union> {freeblock st..<freeblock st'}"
    and fr: "freeblock st' + bneed (nblk (length (C ino))) = freeblock st + bneed (nblk (length bs))"
  shows "mk_inv st' (C(ino := bs))"
proof -
  have ib: "iblocks st j (C j) \<subseteq> {nmeta..<freeblock st}" if "j \<in> {1..<freeinode st}" for j
    using inv that placedD(4) unfolding mk_inv_def file_at_def iblocks_def by blast
  have oth: "file_at st' j (C j)" "iblocks st' j (C j) = iblocks st j (C j)" if j: "j \<in> {1..<freeinode st}" "j \<noteq> ino" for j
  proof -
    have dis: "iblocks st j (C j) \<inter> iblocks st ino (C ino) = {}" using inv ino j by (simp add: mk_inv_def)
    have same: "img st' b = img st b" if b: "b \<in> iblocks st j (C j)" for b
    proof -
      have "b \<in> {nmeta..<freeblock st}" "b \<notin> iblocks st ino (C ino)" using ib [OF j(1)] b dis by auto
      then show ?thesis using img [of b] by simp
    qed
    have at: "file_at st j (C j)" and d: "mk_din st' j = mk_din st j" using inv j din by (simp_all add: mk_inv_def)
    show "file_at st' j (C j)" "iblocks st' j (C j) = iblocks st j (C j)" using file_at_other [OF at w(1,2) d same] by blast+
  qed
  have dis: "iblocks st' ino bs \<inter> iblocks st' j (C j) = {}" if j: "j \<in> {1..<freeinode st}" "j \<noteq> ino" for j
  proof -
    have "iblocks st ino (C ino) \<inter> iblocks st j (C j) = {}" using inv ino j by (simp add: mk_inv_def)
    then show ?thesis unfolding oth(2) [OF j] using ime ib [OF j(1)] by fastforce
  qed
  have nm: "nmeta \<le> freeblock st" using inv by (simp add: mk_inv_def mk_wf_def)
  have "img st' b = mk_low b" if "b < 33" for b
  proof -
    have "b \<notin> iblocks st ino (C ino)" using ib [OF ino] that by auto
    then show ?thesis using img [of b] inv that nm by (simp add: mk_inv_def)
  qed
  moreover have "freeblock st = nmeta + (\<Sum>j\<in>{1..<freeinode st}. bneed (nblk (length (C j))))" using inv by (simp add: mk_inv_def)
  then have "freeblock st' = nmeta + (\<Sum>j\<in>{1..<freeinode st}. bneed (nblk (length ((C(ino := bs)) j))))"
    using fr sum_fun_upd [OF _ ino, where f = C and g = "\<lambda>c. bneed (nblk (length c))" and x = bs] by simp
  moreover have "\<forall>j\<in>{1..<freeinode st}. file_at st' j ((C(ino := bs)) j)" using me oth(1) by simp
  moreover have "iblocks st' i ((C(ino := bs)) i) \<inter> iblocks st' j ((C(ino := bs)) j) = {}"
    if "i \<in> {1..<freeinode st}" "j \<in> {1..<freeinode st}" "i \<noteq> j" for i j
    using that dis [of i] dis [of j] oth(2) [of i] oth(2) [of j] inv
    by (cases "i = ino"; cases "j = ino") (auto simp: mk_inv_def Int_commute)
  ultimately show ?thesis
    unfolding mk_inv_def w(3) using w(1) inv by (auto simp: mk_inv_def simp del: fun_upd_apply)
qed

lemma iappend_inv:
  assumes inv: "mk_inv st C" and ino: "ino \<in> {1..<freeinode st}" and max: "length (C ino) + length p \<le> MAXFILE * BSIZE"
    and room: "freeblock st + bneed (nblk (length (C ino) + length p)) \<le> FSSIZE + bneed (nblk (length (C ino)))"
  shows "\<exists>st'. iappend ino p st = Some st' \<and> mk_inv st' (C(ino := C ino @ p)) \<and> freeinode st' = freeinode st
     \<and> freeblock st' + bneed (nblk (length (C ino))) = freeblock st + bneed (nblk (length (C ino) + length p))"
proof -
  let ?d = "mk_din st ino" and ?n = "length (C ino)"
  let ?a = "di_addrs ?d" and ?N' = "nblk (?n + length p)"
  have w: "mk_wf st" and i208: "\<And>j. j < freeinode st \<Longrightarrow> j < ninodeblocks * IPB" and at: "file_at st ino (C ino)" using inv ino by (auto simp: mk_inv_def)
  have f: "dinode_ok ?d" "di_type ?d = (if ino = ROOTINO then T_DIR else T_FILE)" "di_nlink ?d = 1" "unat (di_size ?d) = ?n"
    "placed st ?a (nblk ?n)" "file_bytes (img st) ?a ?n = C ino" using at by (simp_all add: file_at_def)
  from iappend_loop_ok [OF f(5) max room] obtain a1 st1 where
    s1: "iappend_loop ?d ?n p st = Some (?d\<lparr>di_addrs := a1\<rparr>, ?n + length p, st1)" "grew st ?a (nblk ?n) st1 a1 ?N'"
      "file_bytes (img st1) a1 (?n + length p) = C ino @ p" unfolding f(6) by blast
  have g: "placed st1 a1 ?N'" "mk_wf st1" "freeinode st1 = freeinode st" "freeblock st1 + bneed (nblk ?n) = freeblock st + bneed ?N'" "nblk ?n \<le> ?N'"
    "fblocks (img st1) a1 ?N' \<subseteq> iblocks st ino (C ino) \<union> {freeblock st..<freeblock st1}"
    "\<And>b. b < freeblock st \<Longrightarrow> b \<notin> iblocks st ino (C ino) \<Longrightarrow> img st1 b = img st b"
    using s1(2) by (auto simp: grew_def iblocks_def placed_def)
  let ?di = "?d\<lparr>di_addrs := a1\<rparr>\<lparr>di_size := of_nat (?n + length p)\<rparr>"
  have di: "dinode_ok ?di" using f(1) placed_addrs [OF g(1)] placedD(8) [OF g(1)] by (simp add: dinode_ok_def)
  have i: "ino < ninodeblocks * IPB" using i208 ino by simp
  from winode_wf [OF g(2) i di] obtain st2 where
    s2: "winode ino ?di st1 = Some st2" "mk_wf st2" "freeblock st2 = freeblock st1" "freeinode st2 = freeinode st1" "mk_din st2 ino = ?di"
      "\<And>j. j \<noteq> ino \<Longrightarrow> mk_din st2 j = mk_din st1 j" "\<And>b. b < 33 \<or> 46 \<le> b \<Longrightarrow> img st2 b = img st1 b" by blast
  have r: "iappend ino p st = Some st2"
    unfolding iappend_def rinode_wf(1) [OF w i] using s1(1) s2(1) by (simp add: f(4))
  have low: "img st1 b = img st b" if "b < nmeta" for b
    using g(7) [of b] that w placedD(4) [OF f(5)] unfolding iblocks_def mk_wf_def by fastforce
  have same1: "img st2 b = img st1 b" if "b \<in> fblocks (img st1) a1 ?N'" for b using that placedD(4) [OF g(1)] by (intro s2(7)) auto
  note u = file_unaffected [OF g(1) s2(2) _ same1 size_blocks, unfolded s2(3), OF le_refl]
  have sz: "unat (of_nat (?n + length p) :: u32) = ?n + length p" using max by (simp add: unat_of_nat del: of_nat_add)
  have "mk_inv st2 (C(ino := C ino @ p))"
  proof (rule replace_file [OF inv ino s2(2)])
    show "file_at st2 ino (C ino @ p)" unfolding file_at_def s2(5) using di f u(1,3) s1(3) max sz by (simp del: of_nat_add)
    show "iblocks st2 ino (C ino @ p) \<subseteq> iblocks st ino (C ino) \<union> {freeblock st..<freeblock st2}"
      using u(2) g(6) s2(3) unfolding iblocks_def [of st2] s2(5) by simp
    show "freeblock st \<le> freeblock st2" using g(4) bneed_mono [OF g(5)] s2(3) by linarith
    show "mk_din st2 j = mk_din st j" if "j \<noteq> ino" "j < freeinode st" for j
      using s2(6) [OF that(1)] low [of "j div IPB + 33"] rinode_wf(3) [OF w i208 [OF that(2)]] by (simp add: mk_din_def)
  qed (use s2 g in simp_all)
  then show ?thesis using r s2(3,4) g(3,4) by simp
qed

lemma iappends_inv:
  assumes "mk_inv st C" and "ino \<in> {1..<freeinode st}" and "length (C ino @ concat ps) \<le> MAXFILE * BSIZE"
    and "freeblock st + bneed (nblk (length (C ino @ concat ps))) \<le> FSSIZE + bneed (nblk (length (C ino)))"
  shows "\<exists>st'. iappends ino ps st = Some st' \<and> mk_inv st' (C(ino := C ino @ concat ps)) \<and> freeinode st' = freeinode st
     \<and> freeblock st' + bneed (nblk (length (C ino))) = freeblock st + bneed (nblk (length (C ino @ concat ps)))"
  using assms
proof (induction ps arbitrary: st C)
  case (Cons p ps)
  have m: "bneed (nblk (length (C ino) + length p)) \<le> bneed (nblk (length (C ino @ concat (p # ps))))" by (intro bneed_mono nblk_mono) simp
  have "\<exists>st'. iappend ino p st = Some st' \<and> mk_inv st' (C(ino := C ino @ p)) \<and> freeinode st' = freeinode st
     \<and> freeblock st' + bneed (nblk (length (C ino))) = freeblock st + bneed (nblk (length (C ino) + length p))"
    by (rule iappend_inv [OF Cons.prems(1,2)]) (use Cons.prems(3,4) m in auto)
  then obtain st1 where s1: "iappend ino p st = Some st1" "mk_inv st1 (C(ino := C ino @ p))" "freeinode st1 = freeinode st"
    "freeblock st1 + bneed (nblk (length (C ino))) = freeblock st + bneed (nblk (length (C ino) + length p))" by blast
  let ?C = "C(ino := C ino @ p)"
  have e: "?C ino @ concat ps = C ino @ concat (p # ps)" by simp
  have "\<exists>st'. iappends ino ps st1 = Some st' \<and> mk_inv st' (?C(ino := ?C ino @ concat ps)) \<and> freeinode st' = freeinode st1
     \<and> freeblock st' + bneed (nblk (length (?C ino))) = freeblock st1 + bneed (nblk (length (?C ino @ concat ps)))"
    by (rule Cons.IH [OF s1(2)], unfold e) (use Cons.prems s1(3,4) in simp_all)
  moreover have "?C(ino := C ino @ concat (p # ps)) = C(ino := C ino @ concat (p # ps))" by simp
  ultimately obtain st' where s2: "iappends ino ps st1 = Some st'" "mk_inv st' (C(ino := C ino @ concat (p # ps)))" "freeinode st' = freeinode st1"
    "freeblock st' + bneed (nblk (length (?C ino))) = freeblock st1 + bneed (nblk (length (C ino @ concat (p # ps))))" unfolding e by auto
  show ?case
  proof (intro exI conjI)
    show "iappends ino (p # ps) st = Some st'" using s1(1) s2(1) by simp
    show "mk_inv st' (C(ino := C ino @ concat (p # ps)))" by (fact s2(2))
  qed (use s1 s2 in simp_all)
qed simp

text \<open>A new inode, for an empty file.\<close>

lemma ialloc_inv:
  assumes inv: "mk_inv st C" and room: "freeinode st < ninodeblocks * IPB" and type: "type = (if freeinode st = ROOTINO then T_DIR else T_FILE)"
  shows "\<exists>st'. mk_ialloc type st = Some (freeinode st, st') \<and> mk_inv st' (C(freeinode st := [])) \<and> freeinode st' = Suc (freeinode st)
     \<and> freeblock st' = freeblock st"
proof -
  let ?i = "freeinode st" and ?st = "st\<lparr>freeinode := Suc (freeinode st)\<rparr>"
  let ?di = "\<lparr>di_type = type, di_major = 0, di_minor = 0, di_nlink = 1, di_size = 0, di_addrs = replicate 13 0\<rparr>"
  have w: "mk_wf st" "mk_wf ?st" using inv by (simp_all add: mk_inv_def mk_wf_def)
  have di: "dinode_ok ?di" by (simp add: dinode_ok_def type)
  from winode_wf [OF w(2) room di] obtain st' where
    s: "winode ?i ?di ?st = Some st'" "mk_wf st'" "freeblock st' = freeblock st" "freeinode st' = Suc ?i" "mk_din st' ?i = ?di"
      "\<And>j. j \<noteq> ?i \<Longrightarrow> mk_din st' j = mk_din ?st j" "\<And>b. b < 33 \<or> 46 \<le> b \<Longrightarrow> img st' b = img ?st b" by auto
  have sint: "sint (of_int type :: u16) = type" by (simp add: type sint_of_int16)
  have r: "mk_ialloc type st = Some (?i, st')" using s(1) sint by (simp add: mk_ialloc_def Let_def numeral_eq_Suc)
  have d: "mk_din st' j = mk_din st j" if "j \<noteq> ?i" for j using s(6) [OF that] by (simp add: mk_din_def)
  have n0: "nblk 0 = 0" by (simp add: nblk_def)
  have z: "fmap_ok D (replicate 13 0) 0" "fblocks D (replicate 13 0) 0 = {}" for D by (simp_all add: fmap_ok_def fblocks_def)
  have me: "file_at st' ?i []" "iblocks st' ?i [] = {}"
    unfolding file_at_def iblocks_def s(5) using di s(2) by (simp_all add: type n0 placed_def z file_bytes_def)
  have oth: "file_at st' j (C j) \<and> iblocks st' j (C j) = iblocks st j (C j)" if j: "j \<in> {1..<?i}" for j
  proof -
    have at: "file_at st j (C j)" using inv j by (simp add: mk_inv_def)
    then have "iblocks st j (C j) \<subseteq> {nmeta..<freeblock st}" using placedD(4) unfolding file_at_def iblocks_def by blast
    then have "img st' b = img st b" if "b \<in> iblocks st j (C j)" for b using s(7) [of b] that by fastforce
    with file_at_other [OF at s(2) _ d] s(3) j show ?thesis by simp
  qed
  have sp: "{1..<Suc ?i} = insert ?i {1..<?i}" using inv by (auto simp: mk_inv_def)
  have "(\<Sum>j\<in>{1..<Suc ?i}. bneed (nblk (length ((C(?i := [])) j)))) = (\<Sum>j\<in>{1..<?i}. bneed (nblk (length (C j))))"
    unfolding sp by (simp add: n0 bneed_def)
  then have "mk_inv st' (C(?i := []))" unfolding mk_inv_def s(4) using s(2,3,7) inv me oth room sp by (auto simp: mk_inv_def)
  then show ?thesis using r s(3,4) by blast
qed

section \<open>The whole image\<close>

lemma wsects:
  "fold (\<lambda>i. wsect i z) [0..<n] st = st\<lparr>img := \<lambda>b. if b < n then z else img st b, nsect := max (nsect st) n\<rparr>"
proof (induction n)
  case (Suc n)
  have "(\<lambda>b. if b < n then z else img st b)(n := z) = (\<lambda>b. if b < Suc n then z else img st b)" by (auto simp: fun_eq_iff)
  then have "wsect n z (st\<lparr>img := \<lambda>b. if b < n then z else img st b, nsect := max (nsect st) n\<rparr>)
      = st\<lparr>img := \<lambda>b. if b < Suc n then z else img st b, nsect := max (nsect st) (Suc n)\<rparr>"
    unfolding wsect_def by (simp add: max_def)
  then show ?case by (simp add: Suc.IH)
qed simp

lemma length_sb_bytes [simp]: "length (sb_bytes S) = 32"
  by (simp add: sb_bytes_def)

lemma mk_start_simps: "img mk_start = (\<lambda>b. mk_low b)" "nsect mk_start = FSSIZE" "freeinode mk_start = 1" "freeblock mk_start = nmeta"
  unfolding mk_start_def Let_def wsects by (auto simp: wsect_def mk_low_def)

lemma mk_start_inv: "mk_inv mk_start C"
proof -
  have "length (mk_low b) = BSIZE" for b by (simp add: mk_low_def)
  then show ?thesis by (auto simp: mk_inv_def mk_wf_def mk_start_simps mk_low_def)
qed

definition file_of :: "(u8 list \<Rightarrow> u8 list list option) \<Rightarrow> u8 list \<Rightarrow> u8 list" where
  "file_of host arg = concat (the (host arg))"

definition name_of :: "u8 list \<Rightarrow> u8 list" where
  "name_of arg = the (shortname arg)"

definition arg_ok :: "(u8 list \<Rightarrow> u8 list list option) \<Rightarrow> u8 list \<Rightarrow> bool" where
  "arg_ok host arg \<longleftrightarrow> shortname arg \<noteq> None \<and> host arg \<noteq> None \<and> length (file_of host arg) \<le> MAXFILE * BSIZE"

definition sneed :: "nat \<Rightarrow> nat" where
  "sneed sz = bneed (nblk sz)"

text \<open>The entries of the root directory for files with the inodes from \<open>n\<close> on.\<close>

definition entries :: "nat \<Rightarrow> u8 list list \<Rightarrow> u8 list" where
  "entries n args = concat (map (\<lambda>k. mk_dirent (n + k) (name_of (args ! k))) [0..<length args])"

definition installed :: "(u8 list \<Rightarrow> u8 list list option) \<Rightarrow> nat \<Rightarrow> u8 list list \<Rightarrow> (nat \<Rightarrow> u8 list) \<Rightarrow> nat \<Rightarrow> u8 list" where
  "installed host n args C ino =
     (if ino = ROOTINO then C ino @ entries n args
      else if n \<le> ino \<and> ino < n + length args then file_of host (args ! (ino - n)) else C ino)"

lemma length_dirent [simp]: "length (mk_dirent n name) = 16"
  by (simp add: mk_dirent_def)

lemma entries_simps [simp]:
  "entries n [] = []" "entries n (arg # args) = mk_dirent n (name_of arg) @ entries (Suc n) args"
  by (simp_all add: entries_def upt_conv_Cons map_Suc_upt [symmetric] o_def del: upt_Suc)

lemma length_entries [simp]: "length (entries n args) = 16 * length args"
  by (induction args arbitrary: n) auto

lemma installed_Cons:
  "ROOTINO < n \<Longrightarrow> installed host (Suc n) args (C(ROOTINO := C ROOTINO @ mk_dirent n (name_of arg), n := file_of host arg))
     = installed host n (arg # args) C"
  by (rule ext) (auto simp: installed_def nth_Cons' Suc_le_eq)

lemma sneed_mono: "a \<le> b \<Longrightarrow> sneed a \<le> sneed b"
  by (simp add: sneed_def bneed_mono nblk_mono)

lemma mk_files_inv:
  assumes "mk_inv st C" and "ROOTINO < freeinode st" and "freeinode st + length args \<le> ninodeblocks * IPB" and "\<forall>arg\<in>set args. arg_ok host arg"
    and "length (C ROOTINO) + 16 * length args \<le> MAXFILE * BSIZE"
    and "freeblock st + (\<Sum>arg\<leftarrow>args. sneed (length (file_of host arg))) + sneed (length (C ROOTINO) + 16 * length args)
      \<le> FSSIZE + sneed (length (C ROOTINO))"
  shows "\<exists>st'. mk_files host ROOTINO args st = Some st' \<and> mk_inv st' (installed host (freeinode st) args C) \<and> freeinode st' = freeinode st + length args"
  using assms
proof (induction args arbitrary: st C)
  case Nil
  have "installed host (freeinode st) [] C = C" by (rule ext) (simp add: installed_def)
  then show ?case using Nil by simp
next
  case (Cons arg args)
  let ?i = "freeinode st" and ?f = "file_of host arg"
  obtain name chunks where a: "shortname arg = Some name" "host arg = Some chunks" "?f = concat chunks" "name = name_of arg"
    "length ?f \<le> MAXFILE * BSIZE" using Cons.prems(4) by (auto simp: arg_ok_def file_of_def name_of_def)
  have "?i < ninodeblocks * IPB" "?i \<noteq> ROOTINO" using Cons.prems(2,3) by simp_all
  with ialloc_inv [OF Cons.prems(1), of T_FILE] obtain st1 where
    s1: "mk_ialloc T_FILE st = Some (?i, st1)" "mk_inv st1 (C(?i := []))" "freeinode st1 = Suc ?i" "freeblock st1 = freeblock st" by auto
  let ?C1 = "C(?i := [])" and ?r = "length (C ROOTINO)"
  have c1: "?C1 ROOTINO = C ROOTINO" using Cons.prems(2) by simp
  have m: "sneed (?r + 16) \<le> sneed (?r + 16 * length (arg # args))" by (rule sneed_mono) simp
  have "\<exists>st'. iappend ROOTINO (mk_dirent ?i name) st1 = Some st' \<and> mk_inv st' (?C1(ROOTINO := ?C1 ROOTINO @ mk_dirent ?i name)) \<and> freeinode st' = freeinode st1
     \<and> freeblock st' + bneed (nblk (length (?C1 ROOTINO))) = freeblock st1 + bneed (nblk (length (?C1 ROOTINO) + length (mk_dirent ?i name)))"
    by (rule iappend_inv [OF s1(2)], unfold c1 length_dirent) (use Cons.prems m s1(3,4) in \<open>simp_all add: sneed_def\<close>)
  then obtain st2 where s2: "iappend ROOTINO (mk_dirent ?i name) st1 = Some st2" "mk_inv st2 (?C1(ROOTINO := C ROOTINO @ mk_dirent ?i name))"
    "freeinode st2 = Suc ?i" "freeblock st2 + sneed ?r = freeblock st + sneed (?r + 16)"
    using s1(3,4) unfolding c1 sneed_def by auto
  let ?C2 = "?C1(ROOTINO := C ROOTINO @ mk_dirent ?i name)"
  have c2: "?C2 ?i = []" using Cons.prems(2) by simp
  have z: "sneed 0 = 0" by (simp add: sneed_def nblk_def bneed_def)
  have "\<exists>st'. iappends ?i chunks st2 = Some st' \<and> mk_inv st' (?C2(?i := ?C2 ?i @ concat chunks)) \<and> freeinode st' = freeinode st2
     \<and> freeblock st' + bneed (nblk (length (?C2 ?i))) = freeblock st2 + bneed (nblk (length (?C2 ?i @ concat chunks)))"
    by (rule iappends_inv [OF s2(2)], unfold c2) (use Cons.prems(2,6) a s2(3,4) m z in \<open>simp_all flip: sneed_def\<close>)
  then obtain st3 where s3: "iappends ?i chunks st2 = Some st3" "mk_inv st3 (?C2(?i := ?f))" "freeinode st3 = Suc ?i"
    "freeblock st3 = freeblock st2 + sneed (length ?f)"
    using s2(3) z unfolding c2 a(3) sneed_def by auto
  have c3: "?C2(?i := ?f) = C(ROOTINO := C ROOTINO @ mk_dirent ?i (name_of arg), ?i := ?f)" using Cons.prems(2) a(4) by (auto simp: fun_eq_iff)
  let ?C3 = "C(ROOTINO := C ROOTINO @ mk_dirent ?i (name_of arg), ?i := ?f)"
  have l3: "length (?C3 ROOTINO) = ?r + 16" "?r + 16 + 16 * length args = ?r + 16 * length (arg # args)" using Cons.prems(2) by simp_all
  have "\<exists>st'. mk_files host ROOTINO args st3 = Some st' \<and> mk_inv st' (installed host (freeinode st3) args ?C3) \<and> freeinode st' = freeinode st3 + length args"
    by (rule Cons.IH [OF s3(2) [unfolded c3]], unfold l3) (use Cons.prems s3(3,4) s2(4) in simp_all)
  moreover have "mk_files host ROOTINO (arg # args) st = mk_files host ROOTINO args st3" using a(1,2) s1(1) s2(1) s3(1) by simp
  ultimately show ?case unfolding s3(3) installed_Cons [OF Cons.prems(2)] by simp
qed

text \<open>What the image says of an inode, with the places taken from its superblock.\<close>

definition image_inode :: "(nat \<Rightarrow> u8 list) \<Rightarrow> nat \<Rightarrow> dinode" where
  "image_inode D ino = dinode_get (D (ino div IPB + sb_inodestart (sb_decode (D 1)))) ino"

definition image_file :: "(nat \<Rightarrow> u8 list) \<Rightarrow> nat \<Rightarrow> u8 list" where
  "image_file D ino = file_bytes D (di_addrs (image_inode D ino)) (unat (di_size (image_inode D ino)))"

text \<open>The block numbers an inode reaches.\<close>

definition image_blocks :: "(nat \<Rightarrow> u8 list) \<Rightarrow> nat \<Rightarrow> nat set" where
  "image_blocks D ino =
     (let a = di_addrs (image_inode D ino)
      in (set a \<union> (if a ! NDIRECT = 0 then {} else file_addr D a ` {NDIRECT..<MAXFILE})) - {0})"

lemma get32_words: "k < length vs \<Longrightarrow> get32 (concat (map (bytes_of 4) vs) @ z) (4 * k) = vs ! k" for vs :: "u32 list"
proof (induction vs arbitrary: k)
  case (Cons v vs)
  then show ?case by (cases k) (simp_all add: get32_def word_of_bytes_of)
qed simp

lemma sb_decode_low: "sb_decode (mk_low 1) = mk_sb"
proof -
  let ?vs = "[FSMAGIC, 2000, 1953, 200, 31, 2, 33, 46] :: u32 list"
  have sbb: "sb_bytes mk_sb = concat (map (bytes_of 4) ?vs)" by (simp add: sb_bytes_def mk_sb_def)
  have "get32 (mk_low 1) (4 * k) = ?vs ! k" if "k < 8" for k
    unfolding mk_low_def store_at_def sbb using get32_words [of k ?vs] that by simp
  from this [of 0] this [of 1] this [of 2] this [of 3] this [of 4] this [of 5] this [of 6] this [of 7] show ?thesis
    by (simp add: sb_decode_def mk_sb_def)
qed

text \<open>The free map.\<close>

lemma bm_sets:
  assumes "n \<le> 8 * BSIZE"
  shows "length (fold bm_set [0..<n] (replicate BSIZE 0)) = BSIZE \<and> (\<forall>b<8 * BSIZE. bm_bit (fold bm_set [0..<n] (replicate BSIZE 0)) b = (b < n))"
  using assms
proof (induction n)
  case 0
  have "b div 8 < BSIZE" if "b < 8 * BSIZE" for b using that by (simp add: div_less_iff_less_mult)
  then show ?case by (simp add: bm_bit_def)
next
  case (Suc n)
  let ?d = "fold bm_set [0..<n] (replicate BSIZE 0)"
  have IH: "length ?d = BSIZE" "\<And>b. b < 8 * BSIZE \<Longrightarrow> bm_bit ?d b = (b < n)" using Suc by simp_all
  have n: "n div 8 < BSIZE" using Suc.prems by (simp add: div_less_iff_less_mult)
  have "bm_bit (bm_set n ?d) b = (b < Suc n)" if b: "b < 8 * BSIZE" for b
  proof (cases "b div 8 = n div 8")
    case True
    have "b div 8 * 8 + b mod 8 = b" "n div 8 * 8 + n mod 8 = n" by simp_all
    then have "(b mod 8 = n mod 8) = (b = n)" using True by metis
    then show ?thesis using IH(1) IH(2) [OF b] n True by (auto simp: bm_bit_def bm_set_def bit_simps)
  next
    case False
    then have "b \<noteq> n" by auto
    then show ?thesis using IH(2) [OF b] False by (auto simp: bm_bit_def bm_set_def)
  qed
  moreover have "length (bm_set n ?d) = BSIZE" using IH(1) by (simp add: bm_set_def)
  ultimately show ?case by simp
qed

lemma card_fblocks:
  assumes "placed st a N"
  shows "card (fblocks (img st) a N) = bneed N"
proof -
  note f = placedD [OF assms]
  have "card (file_addr (img st) a ` {..<N}) = N" using f(2) by (simp add: fmap_ok_def card_image)
  moreover have "a ! NDIRECT \<noteq> 0 \<Longrightarrow> a ! NDIRECT \<notin> file_addr (img st) a ` {..<N}" using f(2) by (simp add: fmap_ok_def)
  ultimately show ?thesis using f(3) by (simp add: fblocks_def bneed_def)
qed

lemma reached_blocks:
  assumes "placed st a N"
  shows "(set a \<union> (if a ! NDIRECT = 0 then {} else file_addr (img st) a ` {NDIRECT..<MAXFILE})) - {0} = fblocks (img st) a N" (is "?L = ?R")
proof
  note f = placedD [OF assms]
  have nz: "x \<noteq> 0" if "x \<in> ?R" for x using that f(4) by auto
  show "?L \<subseteq> ?R"
  proof
    fix x assume x: "x \<in> ?L"
    show "x \<in> ?R"
    proof (cases "x \<in> set a")
      case True
      then obtain i where i: "i < NDIRECT + 1" "x = a ! i" using f(8) by (metis in_set_conv_nth)
      show ?thesis
      proof (cases "i < NDIRECT")
        case True
        then have "i < N" using fmap_direct0 [OF f(2) True] x i by auto
        moreover have "x = file_addr (img st) a i" using True i by (simp add: file_addr_def)
        ultimately show ?thesis by (auto simp: fblocks_def)
      next
        case False
        then have "i = NDIRECT" using i(1) by simp
        then show ?thesis using i(2) x by (simp add: fblocks_def)
      qed
    next
      case False
      then obtain bn where bn: "NDIRECT \<le> bn" "bn < MAXFILE" "x = file_addr (img st) a bn" "a ! NDIRECT \<noteq> 0" using x by (auto split: if_splits)
      then have "bn < N" using f(2) x by (auto simp: fmap_ok_def not_le)
      then show ?thesis using bn(3) by (auto simp: fblocks_def)
    qed
  qed
  show "?R \<subseteq> ?L"
  proof
    fix x assume x: "x \<in> ?R"
    have "x \<in> set a \<or> a ! NDIRECT \<noteq> 0 \<and> x \<in> file_addr (img st) a ` {NDIRECT..<MAXFILE}"
    proof (cases "x \<in> file_addr (img st) a ` {..<N}")
      case True
      then obtain bn where bn: "bn < N" "x = file_addr (img st) a bn" by auto
      show ?thesis
      proof (cases "bn < NDIRECT")
        case True
        then show ?thesis using bn f(8) by (simp add: file_addr_def)
      next
        case False
        then show ?thesis using bn f(3,9) by auto
      qed
    next
      case False
      then show ?thesis using x f(8) by (auto simp: fblocks_def split: if_splits)
    qed
    then show "x \<in> ?L" using nz [OF x] by auto
  qed
qed

text \<open>The command line fits the image: good names, files that can be opened and are small enough, inodes and blocks for all.\<close>

definition mk_fits :: "(u8 list \<Rightarrow> u8 list list option) \<Rightarrow> u8 list list \<Rightarrow> bool" where
  "mk_fits host args \<longleftrightarrow> (\<forall>arg\<in>set args. arg_ok host arg) \<and> length args + 2 \<le> NINODES
     \<and> nmeta + (\<Sum>arg\<leftarrow>args. sneed (length (file_of host arg))) + sneed (32 + 16 * length args) \<le> FSSIZE"

definition dots :: "u8 list" where
  "dots = mk_dirent ROOTINO [46] @ mk_dirent ROOTINO [46, 46]"

definition mk_contents :: "(u8 list \<Rightarrow> u8 list list option) \<Rightarrow> u8 list list \<Rightarrow> nat \<Rightarrow> u8 list" where
  "mk_contents host args = installed host 2 args ((\<lambda>_. [])(ROOTINO := dots))"

text \<open>The image before the size of the root directory is fixed and the free map is written.\<close>

lemma mk_main_files:
  assumes fits: "mk_fits host args"
  shows "\<exists>st0 st1 st2 st. mk_ialloc T_DIR mk_start = Some (ROOTINO, st0) \<and> iappend ROOTINO (mk_dirent ROOTINO [46]) st0 = Some st1
     \<and> iappend ROOTINO (mk_dirent ROOTINO [46, 46]) st1 = Some st2 \<and> mk_files host ROOTINO args st2 = Some st
     \<and> mk_inv st (mk_contents host args) \<and> freeinode st = 2 + length args"
proof -
  let ?C = "\<lambda>_ :: nat. [] :: u8 list"
  have room: "nmeta + (\<Sum>arg\<leftarrow>args. sneed (length (file_of host arg))) + sneed (32 + 16 * length args) \<le> FSSIZE" "length args + 2 \<le> NINODES"
    using fits by (simp_all add: mk_fits_def)
  have m: "sneed 16 \<le> sneed (32 + 16 * length args)" "sneed 32 \<le> sneed (32 + 16 * length args)" by (rule sneed_mono, simp)+
  have z: "sneed 0 = 0" by (simp add: sneed_def nblk_def bneed_def)
  from ialloc_inv [OF mk_start_inv, of T_DIR ?C] obtain st0 where
    s0: "mk_ialloc T_DIR mk_start = Some (ROOTINO, st0)" "mk_inv st0 (?C(ROOTINO := []))" "freeinode st0 = 2" "freeblock st0 = nmeta" by (auto simp: mk_start_simps)
  let ?C0 = "?C(ROOTINO := [])" and ?p = "mk_dirent ROOTINO [46]" and ?q = "mk_dirent ROOTINO [46, 46]"
  have "\<exists>st'. iappend ROOTINO ?p st0 = Some st' \<and> mk_inv st' (?C0(ROOTINO := ?C0 ROOTINO @ ?p)) \<and> freeinode st' = freeinode st0
     \<and> freeblock st' + bneed (nblk (length (?C0 ROOTINO))) = freeblock st0 + bneed (nblk (length (?C0 ROOTINO) + length ?p))"
    by (rule iappend_inv [OF s0(2)]) (use s0(3,4) room m z in \<open>simp_all flip: sneed_def\<close>)
  then obtain st1 where s1: "iappend ROOTINO ?p st0 = Some st1" "mk_inv st1 (?C(ROOTINO := ?p))" "freeinode st1 = 2" "freeblock st1 = nmeta + sneed 16"
    using s0(3,4) z by (auto simp flip: sneed_def)
  let ?C1 = "?C(ROOTINO := ?p)"
  have "\<exists>st'. iappend ROOTINO ?q st1 = Some st' \<and> mk_inv st' (?C1(ROOTINO := ?C1 ROOTINO @ ?q)) \<and> freeinode st' = freeinode st1
     \<and> freeblock st' + bneed (nblk (length (?C1 ROOTINO))) = freeblock st1 + bneed (nblk (length (?C1 ROOTINO) + length ?q))"
    by (rule iappend_inv [OF s1(2)]) (use s1(3,4) room m z in \<open>simp_all flip: sneed_def\<close>)
  then obtain st2 where s2: "iappend ROOTINO ?q st1 = Some st2" "mk_inv st2 (?C(ROOTINO := dots))" "freeinode st2 = 2" "freeblock st2 = nmeta + sneed 32"
    using s1(3,4) by (auto simp: dots_def simp flip: sneed_def)
  let ?C2 = "?C(ROOTINO := dots)"
  have l2: "length (?C2 ROOTINO) = 32" by (simp add: dots_def)
  have "\<exists>st'. mk_files host ROOTINO args st2 = Some st' \<and> mk_inv st' (installed host (freeinode st2) args ?C2) \<and> freeinode st' = freeinode st2 + length args"
    by (rule mk_files_inv [OF s2(2)], unfold l2) (use s2(3,4) fits in \<open>simp_all add: mk_fits_def\<close>)
  then show ?thesis using s0(1) s1(1) s2(1) unfolding s2(3) mk_contents_def fun_upd_upd by blast
qed

lemma mk_main_image:
  assumes fits: "mk_fits host args" and argv: "2 \<le> length argv" "args = drop 2 argv"
  shows "\<exists>st1 st. mk_main host argv = Some st \<and> mk_inv st1 (mk_contents host args) \<and> freeinode st1 = 2 + length args
     \<and> freeblock st = freeblock st1 \<and> (\<forall>b. b < 33 \<or> nmeta \<le> b \<longrightarrow> img st b = img st1 b)
     \<and> (\<forall>j. j \<noteq> ROOTINO \<longrightarrow> j < ninodeblocks * IPB \<longrightarrow> mk_din st j = mk_din st1 j)
     \<and> mk_din st ROOTINO = (mk_din st1 ROOTINO)\<lparr>di_size := of_nat (((32 + 16 * length args) div BSIZE + 1) * BSIZE)\<rparr>
     \<and> img st 46 = fold bm_set [0..<freeblock st] (replicate BSIZE 0) \<and> mk_wf st"
proof -
  from mk_main_files [OF fits] obtain st0 s1 s2 st1 where
    m: "mk_ialloc T_DIR mk_start = Some (ROOTINO, st0)" "iappend ROOTINO (mk_dirent ROOTINO [46]) st0 = Some s1"
      "iappend ROOTINO (mk_dirent ROOTINO [46, 46]) s1 = Some s2" "mk_files host ROOTINO args s2 = Some st1"
    and inv: "mk_inv st1 (mk_contents host args)" and fi: "freeinode st1 = 2 + length args" by blast
  let ?d = "mk_din st1 ROOTINO"
  let ?d' = "?d\<lparr>di_size := of_nat (((32 + 16 * length args) div BSIZE + 1) * BSIZE)\<rparr>"
  have w: "mk_wf st1" and at: "file_at st1 ROOTINO (mk_contents host args ROOTINO)" using inv fi by (simp_all add: mk_inv_def)
  have root: "length (mk_contents host args ROOTINO) = 32 + 16 * length args" by (simp add: mk_contents_def installed_def dots_def)
  have sz: "unat (di_size ?d) = 32 + 16 * length args" and ok: "dinode_ok ?d'" using at unfolding file_at_def root by (simp_all add: dinode_ok_def)
  have r1: "ROOTINO < ninodeblocks * IPB" by simp
  from winode_wf [OF w r1 ok] obtain st2 where
    s2: "winode ROOTINO ?d' st1 = Some st2" "mk_wf st2" "freeblock st2 = freeblock st1" "mk_din st2 ROOTINO = ?d'"
      "\<And>j. j \<noteq> ROOTINO \<Longrightarrow> mk_din st2 j = mk_din st1 j" "\<And>b. b < 33 \<or> 46 \<le> b \<Longrightarrow> img st2 b = img st1 b" by blast
  define st where "st = wsect 46 (fold bm_set [0..<freeblock st2] (replicate BSIZE 0)) st2"
  have b: "mk_balloc (freeblock st2) st2 = Some st" using s2(2) by (simp add: mk_balloc_def mk_wf_def st_def)
  have main: "mk_main host argv = Some st"
    unfolding mk_main_def using argv m rinode_wf(1) [OF w r1] s2(1) b sz by (simp del: One_nat_def)
  have d: "mk_din st j = mk_din st2 j" if "j < ninodeblocks * IPB" for j
    using rinode_wf(3) [OF s2(2) that] by (simp add: mk_din_def st_def wsect_def)
  have st: "freeblock st = freeblock st1" "img st 46 = fold bm_set [0..<freeblock st] (replicate BSIZE 0)" "\<And>b. b \<noteq> 46 \<Longrightarrow> img st b = img st2 b"
    using s2(3) by (simp_all add: st_def wsect_def)
  have "length (fold bm_set [0..<freeblock st2] (replicate BSIZE 0)) = BSIZE"
    using bm_sets [of "freeblock st2"] s2(2) by (simp add: mk_wf_def)
  then have "mk_wf st" using s2(2) unfolding st_def wsect_def mk_wf_def by auto
  then show ?thesis
    by (intro exI [of _ st1] exI [of _ st]) (use main inv fi st s2(4,5,6) d in auto)
qed

lemma mk_contents_simps:
  "mk_contents host args ROOTINO = dots @ entries 2 args" "k < length args \<Longrightarrow> mk_contents host args (k + 2) = file_of host (args ! k)"
  by (simp_all add: mk_contents_def installed_def)

text \<open>What the image holds: the files \<open>C\<close> at the inodes below \<open>n\<close>.\<close>

definition image_holds :: "mkfs \<Rightarrow> (nat \<Rightarrow> u8 list) \<Rightarrow> nat \<Rightarrow> bool" where
  "image_holds st C n \<longleftrightarrow> mk_wf st \<and> sb_decode (img st 1) = mk_sb
     \<and> (\<forall>ino\<in>{1..<n}. placed st (di_addrs (image_inode (img st) ino)) (nblk (length (C ino)))
         \<and> file_bytes (img st) (di_addrs (image_inode (img st) ino)) (length (C ino)) = C ino
         \<and> length (C ino) \<le> MAXFILE * BSIZE
         \<and> di_type (image_inode (img st) ino) = (if ino = ROOTINO then T_DIR else T_FILE)
         \<and> unat (di_size (image_inode (img st) ino)) = (if ino = ROOTINO then (length (C ino) div BSIZE + 1) * BSIZE else length (C ino)))
     \<and> (\<forall>i\<in>{1..<n}. \<forall>j\<in>{1..<n}. i \<noteq> j \<longrightarrow> image_blocks (img st) i \<inter> image_blocks (img st) j = {})
     \<and> (\<Union>ino\<in>{1..<n}. image_blocks (img st) ino) = {nmeta..<freeblock st}
     \<and> img st 46 = fold bm_set [0..<freeblock st] (replicate BSIZE 0)"

lemma mkfs_image:
  assumes fits: "mk_fits host args" and argv: "2 \<le> length argv" "args = drop 2 argv"
  shows "\<exists>st. mk_main host argv = Some st \<and> image_holds st (mk_contents host args) (2 + length args)"
proof -
  let ?C = "mk_contents host args" and ?I = "{1..<2 + length args}"
  from mk_main_image [OF assms] obtain st1 st where m: "mk_main host argv = Some st" "mk_inv st1 ?C" "freeinode st1 = 2 + length args"
    "freeblock st = freeblock st1" "\<And>b. b < 33 \<or> nmeta \<le> b \<Longrightarrow> img st b = img st1 b"
    "\<And>j. j \<noteq> ROOTINO \<Longrightarrow> j < ninodeblocks * IPB \<Longrightarrow> mk_din st j = mk_din st1 j"
    "mk_din st ROOTINO = (mk_din st1 ROOTINO)\<lparr>di_size := of_nat (((32 + 16 * length args) div BSIZE + 1) * BSIZE)\<rparr>"
    "img st 46 = fold bm_set [0..<freeblock st] (replicate BSIZE 0)" "mk_wf st" by blast
  have sb: "sb_decode (img st 1) = mk_sb" using m(2) m(5) [of 1] sb_decode_low by (simp add: mk_inv_def)
  have n: "length args \<le> 198" using fits by (simp add: mk_fits_def)
  have ii: "image_inode (img st) ino = mk_din st ino" for ino unfolding image_inode_def sb by (simp add: mk_din_def)
  have ad: "di_addrs (mk_din st ino) = di_addrs (mk_din st1 ino)" "di_type (mk_din st ino) = di_type (mk_din st1 ino)" if "ino \<in> ?I" for ino
    using m(6) [of ino] m(7) that n by (cases "ino = ROOTINO"; simp del: One_nat_def)+
  have at: "file_at st1 ino (?C ino)" if "ino \<in> ?I" for ino using m(2,3) that by (simp add: mk_inv_def)
  have pl: "placed st (di_addrs (image_inode (img st) ino)) (nblk (length (?C ino)))"
    "fblocks (img st) (di_addrs (image_inode (img st) ino)) (nblk (length (?C ino))) = iblocks st1 ino (?C ino)"
    "file_bytes (img st) (di_addrs (image_inode (img st) ino)) (length (?C ino)) = ?C ino" if ino: "ino \<in> ?I" for ino
  proof -
    have p: "placed st1 (di_addrs (mk_din st1 ino)) (nblk (length (?C ino)))" using at [OF ino] by (simp add: file_at_def)
    have "\<And>b. b \<in> fblocks (img st1) (di_addrs (mk_din st1 ino)) (nblk (length (?C ino))) \<Longrightarrow> img st b = img st1 b"
      using placedD(4) [OF p] by (intro m(5)) auto
    note u = file_unaffected [OF p m(9) _ this size_blocks, unfolded m(4), OF le_refl]
    show "placed st (di_addrs (image_inode (img st) ino)) (nblk (length (?C ino)))"
      "fblocks (img st) (di_addrs (image_inode (img st) ino)) (nblk (length (?C ino))) = iblocks st1 ino (?C ino)"
      "file_bytes (img st) (di_addrs (image_inode (img st) ino)) (length (?C ino)) = ?C ino"
      unfolding ii ad(1) [OF ino] using u at [OF ino] by (simp_all add: file_at_def iblocks_def)
  qed
  have ib: "image_blocks (img st) ino = iblocks st1 ino (?C ino)" if ino: "ino \<in> ?I" for ino
    unfolding image_blocks_def Let_def using reached_blocks [OF pl(1) [OF ino]] pl(2) [OF ino] by simp
  have disj: "image_blocks (img st) i \<inter> image_blocks (img st) j = {}" if "i \<in> ?I" "j \<in> ?I" "i \<noteq> j" for i j
    using m(2,3) that ib by (simp add: mk_inv_def)
  have sub: "image_blocks (img st) ino \<subseteq> {nmeta..<freeblock st}" "card (image_blocks (img st) ino) = bneed (nblk (length (?C ino)))" if "ino \<in> ?I" for ino
    using placedD(4) [OF pl(1) [OF that]] card_fblocks [OF pl(1) [OF that]] pl(2) [OF that] ib [OF that] by auto
  have "card (\<Union>ino\<in>?I. image_blocks (img st) ino) = (\<Sum>ino\<in>?I. card (image_blocks (img st) ino))"
    using finite_subset [OF sub(1)] disj by (intro card_UN_disjoint) auto
  also have "\<dots> = (\<Sum>ino\<in>?I. bneed (nblk (length (?C ino))))" using sub(2) by (intro sum.cong) auto
  also have "\<dots> = card {nmeta..<freeblock st}" using m(2,3,4) by (simp add: mk_inv_def)
  finally have un: "(\<Union>ino\<in>?I. image_blocks (img st) ino) = {nmeta..<freeblock st}" 
    by (intro card_subset_eq [OF finite_atLeastLessThan] UN_least sub(1))
  have root: "length (?C ROOTINO) = 32 + 16 * length args" by (simp add: mk_contents_simps dots_def del: One_nat_def)
  have sz: "unat (di_size (mk_din st ino)) = (if ino = ROOTINO then (length (?C ino) div BSIZE + 1) * BSIZE else length (?C ino))" if ino: "ino \<in> ?I" for ino
  proof (cases "ino = ROOTINO")
    case True
    have "(32 + 16 * length args) div BSIZE \<le> 3200 div BSIZE" using n by (intro div_le_mono) simp
    then have "((32 + 16 * length args) div BSIZE + 1) * BSIZE < 2 ^ 32" by simp
    then show ?thesis using True m(7) root by (simp add: unat_of_nat del: One_nat_def of_nat_add of_nat_mult add_mult_distrib)
  next
    case False
    then show ?thesis using m(6) [of ino] ino n at [OF ino] by (simp add: file_at_def)
  qed
  have ty: "length (?C ino) \<le> MAXFILE * BSIZE" "di_type (image_inode (img st) ino) = (if ino = ROOTINO then T_DIR else T_FILE)" if ino: "ino \<in> ?I" for ino
    using at [OF ino] ad(2) [OF ino] unfolding ii file_at_def by simp_all
  show ?thesis
    unfolding image_holds_def by (intro exI [of _ st] conjI ballI impI) ((rule m(1) m(8) m(9) sb un | rule pl(1) pl(3) ty sz [folded ii] disj; assumption)+)
qed

text \<open>C12: on a command line that fits, \<^verbatim>\<open>mkfs\<close> succeeds; the superblock of the image is the one the kernel
  expects, every file on the command line is an ordinary file with exactly its bytes, and the root
  directory begins with the entries of itself, of its parent and of every file in order.\<close>

theorem mkfs_installs:
  assumes "mk_fits host args" and "2 \<le> length argv" and "args = drop 2 argv"
  shows "\<exists>st. mk_main host argv = Some st \<and> sb_decode (img st 1) = mk_sb
     \<and> (\<forall>k<length args. image_file (img st) (k + 2) = file_of host (args ! k) \<and> di_type (image_inode (img st) (k + 2)) = T_FILE)
     \<and> di_type (image_inode (img st) ROOTINO) = T_DIR
     \<and> take (16 * (2 + length args)) (image_file (img st) ROOTINO) = dots @ entries 2 args"
proof -
  let ?C = "mk_contents host args" and ?I = "{1..<2 + length args}"
  from mkfs_image [OF assms] obtain st where m: "mk_main host argv = Some st" and im: "image_holds st ?C (2 + length args)" by blast
  have m2: "sb_decode (img st 1) = mk_sb"
    "\<And>ino. ino \<in> ?I \<Longrightarrow> file_bytes (img st) (di_addrs (image_inode (img st) ino)) (length (?C ino)) = ?C ino"
    "\<And>ino. ino \<in> ?I \<Longrightarrow> di_type (image_inode (img st) ino) = (if ino = ROOTINO then T_DIR else T_FILE)"
    "\<And>ino. ino \<in> ?I \<Longrightarrow> unat (di_size (image_inode (img st) ino)) = (if ino = ROOTINO then (length (?C ino) div BSIZE + 1) * BSIZE else length (?C ino))"
    using im by (simp_all add: image_holds_def)
  have f: "image_file (img st) (k + 2) = file_of host (args ! k) \<and> di_type (image_inode (img st) (k + 2)) = T_FILE" if "k < length args" for k
    using m2(2) [of "k + 2"] m2(3) [of "k + 2"] m2(4) [of "k + 2"] mk_contents_simps(2) [OF that, of host] that by (simp add: image_file_def)
  let ?R = "(length (?C ROOTINO) div BSIZE + 1) * BSIZE"
  have r: "ROOTINO \<in> ?I" "length (?C ROOTINO) = 16 * (2 + length args)" by (simp_all add: mk_contents_simps dots_def del: One_nat_def)
  have "length (?C ROOTINO) div BSIZE * BSIZE + length (?C ROOTINO) mod BSIZE = length (?C ROOTINO)" "length (?C ROOTINO) mod BSIZE < BSIZE" by simp_all
  then have le: "0 + 16 * (2 + length args) \<le> ?R" unfolding add_mult_distrib r(2) by linarith
  have "take (16 * (2 + length args)) (image_file (img st) ROOTINO) = file_bytes (img st) (di_addrs (image_inode (img st) ROOTINO)) (16 * (2 + length args))"
    using file_bytes_segment [OF le, of "img st" "di_addrs (image_inode (img st) ROOTINO)"] m2(4) [OF r(1)] unfolding image_file_def file_bytes_def by simp
  also have "\<dots> = dots @ entries 2 args" using m2(2) [OF r(1), unfolded r(2)] unfolding mk_contents_simps(1) .
  finally show ?thesis using m m2(1) m2(3) [OF r(1)] f by auto
qed

text \<open>C13: the free map of the image is exact: a block of the disk is marked as used exactly when it is one
  of the blocks before the data blocks or an inode reaches it, and no two inodes reach the same block.\<close>

theorem mkfs_free_map_exact:
  assumes "mk_fits host args" and "2 \<le> length argv" and "args = drop 2 argv"
  shows "\<exists>st. mk_main host argv = Some st
     \<and> (\<forall>b<FSSIZE. bm_bit (img st (sb_bmapstart (sb_decode (img st 1)))) b
          = (b < nmeta \<or> (\<exists>ino\<in>{1..<2 + length args}. b \<in> image_blocks (img st) ino)))
     \<and> (\<forall>i\<in>{1..<2 + length args}. \<forall>j\<in>{1..<2 + length args}. i \<noteq> j \<longrightarrow> image_blocks (img st) i \<inter> image_blocks (img st) j = {})"
proof -
  let ?I = "{1..<2 + length args}"
  from mkfs_image [OF assms] obtain st where st: "mk_main host argv = Some st" and im: "image_holds st (mk_contents host args) (2 + length args)" by blast
  have m: "mk_main host argv = Some st" "mk_wf st" "sb_decode (img st 1) = mk_sb"
    "\<forall>i\<in>?I. \<forall>j\<in>?I. i \<noteq> j \<longrightarrow> image_blocks (img st) i \<inter> image_blocks (img st) j = {}"
    "(\<Union>ino\<in>?I. image_blocks (img st) ino) = {nmeta..<freeblock st}" "img st 46 = fold bm_set [0..<freeblock st] (replicate BSIZE 0)"
    using im st by (simp_all add: image_holds_def del: One_nat_def)
  have fb: "nmeta \<le> freeblock st" "freeblock st \<le> FSSIZE" using m(2) by (simp_all add: mk_wf_def)
  have "bm_bit (img st 46) b = (b < freeblock st)" if "b < FSSIZE" for b using bm_sets [of "freeblock st"] fb that unfolding m(6) by simp
  moreover have "(\<exists>ino\<in>?I. b \<in> image_blocks (img st) ino) = (nmeta \<le> b \<and> b < freeblock st)" for b using m(5) by (metis UN_iff atLeastLessThan_iff)
  ultimately have "\<forall>b<FSSIZE. bm_bit (img st (sb_bmapstart (sb_decode (img st 1)))) b = (b < nmeta \<or> (\<exists>ino\<in>?I. b \<in> image_blocks (img st) ino))"
    unfolding m(3) using fb by auto
  then show ?thesis using m(1,4) by blast
qed

section \<open>The kernel reads the image\<close>

lemma placed_file_ok:
  assumes p: "placed st a (nblk (unat (i_size ip)))" and a: "a = i_addrs ip" and sz: "unat (i_size ip) \<le> MAXFILE * BSIZE"
  shows "file_ok (img st) ip"
  unfolding file_ok_def
proof (intro conjI allI impI)
  note f = placedD [OF p]
  fix bn assume "bn * BSIZE < unat (i_size ip)"
  then have "bn * BSIZE < nblk (unat (i_size ip)) * BSIZE" using size_blocks less_le_trans by blast
  then have bn: "bn < nblk (unat (i_size ip))" by simp
  then show "has_block (img st) (i_addrs ip) bn" using f(1,2,3,9) unfolding a by (auto simp: has_block_def mk_wf_def fmap_ok_def)
qed (rule sz)

lemma iget_scan_empty: "iget_scan is (Some e) dev inum t = Inr (Some e)" if "\<forall>i\<in>set is. i_ref (t ! i) = 0"
  using that by (induction "is") auto

lemma iget_first:
  assumes "itable s = replicate NINODE zero_inode"
  shows "iget d inum s = Done 0 (s\<lparr>itable := (itable s)[0 := zero_inode\<lparr>i_dev := d, i_inum := inum, i_ref := 1\<rparr>]\<rparr>)"
proof -
  have "iget_scan [0..<NINODE] None d inum (itable s) = Inr (Some 0)"
    unfolding assms by (subst upt_conv_Cons) (simp_all add: iget_scan_empty zero_inode_def)
  then show ?thesis using assms by (simp add: iget_def upd_inode_def upd_at_def zero_inode_def)
qed

lemma boot_inode:
  fixes m :: "nat \<Rightarrow> kernel \<Rightarrow> 'a kres"
  assumes ok: "cache_ok d pid Map.empty Map.empty s" and it: "itable s = replicate NINODE zero_inode" and di: "di = image_inode (disk s) ino" "di_type di \<noteq> 0"
  shows "\<exists>s'. obind (readsb d s) (\<lambda>_ s. obind (iget d ino s) (\<lambda>i s. obind (ilock i s) (\<lambda>_ s. m i s))) = m 0 s'
     \<and> cache_ok d pid Map.empty Map.empty s' \<and> same_log s s' \<and> itable s' ! 0 = locked_inode pid di (zero_inode\<lparr>i_dev := d, i_inum := ino, i_ref := 1\<rparr>)
     \<and> mem s' = mem s \<and> myproc s' = myproc s \<and> (\<forall>p. p_pagetable (procs s' ! p) = p_pagetable (procs s ! p))"
proof -
  let ?sb = "sb_decode (disk s 1)" and ?ip = "zero_inode\<lparr>i_dev := d, i_inum := ino, i_ref := 1\<rparr>"
  have c: "content Map.empty Map.empty D = D" for D by (simp add: content_empty)
  have few: "finite (dom (Map.empty :: nat \<rightharpoonup> u8 list))" "card (dom (Map.empty :: nat \<rightharpoonup> u8 list)) < NBUF" by simp_all
  from readsb_spec [OF ok few] obtain s1 where s1: "readsb d s = Done () s1" "cache_ok d pid Map.empty Map.empty s1" "same_log s s1"
    "same_rest (s\<lparr>sb := ?sb\<rparr>) s1" unfolding c by blast
  have it1: "itable s1 = replicate NINODE zero_inode" using s1(4) it by (simp add: same_rest_def)
  define s2 where "s2 = s1\<lparr>itable := (itable s1)[0 := ?ip]\<rparr>"
  note s2 = iget_first [OF it1, of d ino, folded s2_def]
  have ok2: "cache_ok d pid Map.empty Map.empty s2" using s1(2) by (simp add: s2_def)
  have ip2: "0 < length (itable s2)" "?ip = itable s2 ! 0" using it1 by (simp_all add: s2_def)
  have d2: "disk s2 = disk s" "sb s2 = ?sb" using s1(3,4) by (simp_all add: s2_def same_log_def same_rest_def)
  have di2: "di = dinode_get (content Map.empty Map.empty (disk s2) (IBLOCK (i_inum ?ip) s2)) (i_inum ?ip)"
    unfolding c d2(1) by (simp add: di(1) image_inode_def IBLOCK_def d2(2))
  have "\<exists>s'. ilock 0 s2 = Done () s' \<and> cache_ok d pid Map.empty Map.empty s' \<and> same_log s2 s'
     \<and> same_rest (s2\<lparr>itable := (itable s2)[0 := locked_inode pid di ?ip]\<rparr>) s'"
    by (rule ilock_spec [OF ok2 few ip2 _ _ _ _ di2 di(2)]) (simp_all add: zero_inode_def zero_sleeplock_def)
  then obtain s3 where s3: "ilock 0 s2 = Done () s3" "cache_ok d pid Map.empty Map.empty s3" "same_log s2 s3"
    "same_rest (s2\<lparr>itable := (itable s2)[0 := locked_inode pid di ?ip]\<rparr>) s3" by blast
  have "obind (readsb d s) (\<lambda>_ s. obind (iget d ino s) (\<lambda>i s. obind (ilock i s) (\<lambda>_ s. m i s))) = m 0 s3" using s1(1) s2 s3(1) by simp
  moreover have "itable s3 ! 0 = locked_inode pid di ?ip" using s3(4) ip2(1) by (simp add: same_rest_def)
  moreover have "same_log s s3" "mem s3 = mem s" "myproc s3 = myproc s" "\<forall>p. p_pagetable (procs s3 ! p) = p_pagetable (procs s ! p)"
    using s3(3,4) s1(3,4) by (simp_all add: same_log_def same_rest_def s2_def)
  ultimately show ?thesis using s3(2) by blast
qed

lemma image_holds_file:
  assumes "image_holds st C n" "ino \<in> {1..<n}"
  shows "placed st (di_addrs (image_inode (img st) ino)) (nblk (length (C ino)))"
    "file_bytes (img st) (di_addrs (image_inode (img st) ino)) (length (C ino)) = C ino" "length (C ino) \<le> MAXFILE * BSIZE"
    "di_type (image_inode (img st) ino) = (if ino = ROOTINO then T_DIR else T_FILE)"
    "unat (di_size (image_inode (img st) ino)) = (if ino = ROOTINO then (length (C ino) div BSIZE + 1) * BSIZE else length (C ino))"
  using assms by (simp_all add: image_holds_def)

text \<open>C11: a kernel that boots on the image reads every file back: reading the superblock, getting and locking
  the inode of the file and reading into a buffer of the process delivers the first bytes of the file.\<close>

theorem kernel_reads_image:
  assumes "mk_fits host args" and "2 \<le> length argv" and "args = drop 2 argv" and "mk_main host argv = Some st" and "k < length args"
    and "cache_ok d pid Map.empty Map.empty s" and "disk s = img st" and "itable s = replicate NINODE zero_inode"
    and "myproc s = Some p" and "pt = p_pagetable (procs s ! p)" and "bs = take (unat n) (file_of host (args ! k))"
    and "user_buffer pt va (length bs) (mem s)"
  shows "\<exists>s'. obind (readsb d s) (\<lambda>_ s. obind (iget d (k + 2) s) (\<lambda>i s. obind (ilock i s) (\<lambda>_ s. readi i (DUser va) 0 n s)))
       = Done (int (length bs), bs) s' \<and> disk s' = disk s
     \<and> (\<forall>j<length bs. mem s' (ubyte pt (va + of_nat j) (mem s)) = bs ! j)"
proof -
  let ?f = "file_of host (args ! k)" and ?D = "img st"
  have im: "image_holds st (mk_contents host args) (2 + length args)" using mkfs_image [OF assms(1-3)] assms(4) by auto
  have i: "k + 2 \<in> {1..<2 + length args}" and n1: "k + 2 \<noteq> ROOTINO" using assms(5) by simp_all
  define di where "di = image_inode ?D (k + 2)"
  note f = image_holds_file [OF im i, unfolded mk_contents_simps(2) [OF assms(5)] if_not_P [OF n1], folded di_def]
  have c: "content Map.empty Map.empty D = D" for D by (simp add: content_empty)
  have di: "di = image_inode (disk s) (k + 2)" "di_type di \<noteq> 0" using f(4) by (simp_all add: di_def assms(7))
  from boot_inode [OF assms(6,8) di, of "\<lambda>i. readi i (DUser va) 0 n"] obtain s3 where
    s3: "obind (readsb d s) (\<lambda>_ s. obind (iget d (k + 2) s) (\<lambda>i s. obind (ilock i s) (\<lambda>_ s. readi i (DUser va) 0 n s))) = readi 0 (DUser va) 0 n s3"
      "cache_ok d pid Map.empty Map.empty s3" "same_log s s3" "itable s3 ! 0 = locked_inode pid di (zero_inode\<lparr>i_dev := d, i_inum := k + 2, i_ref := 1\<rparr>)"
      "mem s3 = mem s" "myproc s3 = myproc s" "\<forall>p. p_pagetable (procs s3 ! p) = p_pagetable (procs s ! p)" by blast
  have r3: "i_size (itable s3 ! 0) = di_size di" "i_addrs (itable s3 ! 0) = di_addrs di" "i_dev (itable s3 ! 0) = d"
    unfolding s3(4) by (simp_all add: locked_inode_def)
  have d3: "disk s3 = ?D" "myproc s3 = Some p" "p_pagetable (procs s3 ! p) = pt" using s3 assms(7,9,10) by (simp_all add: same_log_def)
  have "file_ok ?D (itable s3 ! 0)" by (rule placed_file_ok [of st "di_addrs di"]) (simp_all only: r3 f(1,3,5))
  then have fok: "file_ok (content Map.empty Map.empty (disk s3)) (itable s3 ! 0)" unfolding c d3(1) .
  have len: "length bs = min (unat n) (unat (i_size (itable s3 ! 0)) - unat (0 :: u32))" using f(5) assms(11) by (simp add: r3 min.commute)
  have uok: "user_ok (DUser va) (length bs) s3" using assms(12) d3 s3(5) by (auto simp: user_ok_def)
  have bs: "bs = take (unat n) (drop (unat (0 :: u32)) (file_bytes (content Map.empty Map.empty (disk s3)) (i_addrs (itable s3 ! 0)) (unat (i_size (itable s3 ! 0)))))"
    unfolding c d3(1) r3 f(5) f(2) using assms(11) by simp
  have few: "finite (dom (Map.empty :: nat \<rightharpoonup> u8 list))" "card (dom (Map.empty :: nat \<rightharpoonup> u8 list)) < NBUF" by simp_all
  have "unat (0 :: u32) \<le> unat (i_size (itable s3 ! 0))" "unat (0 :: u32) + unat n < 2 ^ 32" using unsigned_less [where 'a = nat, of n] by simp_all
  from user.readi_spec [OF this len uok s3(2) few r3(3) refl fok bs] obtain s4 where
    s4: "readi 0 (DUser va) 0 n s3 = Done (int (length bs), bs) s4" "same_log s3 s4" "same_rest (s3\<lparr>mem := user_put (DUser va) bs s3\<rparr>) s4" by blast
  have m4: "mem s4 = put_bytes (\<lambda>j. ubyte pt (va + of_nat j) (mem s)) bs (mem s)" using s4(3) d3 s3(5) by (simp add: same_rest_def user_put_def)
  have inj: "inj_on (\<lambda>j. ubyte pt (va + of_nat j) (mem s)) {..<length bs}" using assms(12) by (simp add: user_buffer_def)
  have "mem s4 (ubyte pt (va + of_nat j) (mem s)) = bs ! j" if "j < length bs" for j unfolding m4 using put_bytes_at [OF inj that] by simp
  moreover have "disk s4 = disk s" using s4(2) d3(1) assms(7) by (simp add: same_log_def)
  ultimately show ?thesis unfolding s3(1) s4(1) by blast
qed

text \<open>The command line \<^verbatim>\<open>mkfs fs user/_a\<close> with a file of three bytes that is read in two pieces.\<close>

definition small_host :: "u8 list \<Rightarrow> u8 list list option" where
  "small_host name = (if name = [117, 115, 101, 114, 47, 95, 97] then Some [[1, 2], [3]] else None)"

abbreviation (input) small_argv :: "u8 list list" where
  "small_argv \<equiv> [[109, 107, 102, 115], [102, 115], [117, 115, 101, 114, 47, 95, 97]]"

lemma small_fits: "mk_fits small_host (drop 2 small_argv)" "file_of small_host (drop 2 small_argv ! 0) = [1, 2, 3]"
  by (simp_all add: mk_fits_def arg_ok_def small_host_def file_of_def shortname_def sneed_def nblk_def bneed_def)

theorem mkfs_installs_witness:
  "mk_fits small_host (drop 2 small_argv)
   \<and> (\<exists>st. mk_main small_host small_argv = Some st \<and> image_file (img st) 2 = [1, 2, 3]
        \<and> take 48 (image_file (img st) ROOTINO) = dots @ entries 2 (drop 2 small_argv))"
proof -
  have "2 \<le> length small_argv" by simp
  from mkfs_installs [OF small_fits(1) this refl] obtain st where st: "mk_main small_host small_argv = Some st"
    "\<forall>k<length (drop 2 small_argv). image_file (img st) (k + 2) = file_of small_host (drop 2 small_argv ! k) \<and> di_type (image_inode (img st) (k + 2)) = T_FILE"
    "take (16 * (2 + length (drop 2 small_argv))) (image_file (img st) ROOTINO) = dots @ entries 2 (drop 2 small_argv)" by blast
  have "image_file (img st) 2 = [1, 2, 3]" using st(2) small_fits(2) by (auto simp: numeral_2_eq_2)
  then show ?thesis using small_fits(1) st(1,3) by auto
qed

theorem mkfs_free_map_exact_witness:
  "mk_fits small_host (drop 2 small_argv)
   \<and> (\<exists>st. mk_main small_host small_argv = Some st \<and> bm_bit (img st (sb_bmapstart (sb_decode (img st 1)))) 46
        \<and> image_blocks (img st) 1 \<inter> image_blocks (img st) 2 = {})"
proof -
  have "2 \<le> length small_argv" by simp
  from mkfs_free_map_exact [OF small_fits(1) this refl] obtain st where st: "mk_main small_host small_argv = Some st"
    "\<forall>b<FSSIZE. bm_bit (img st (sb_bmapstart (sb_decode (img st 1)))) b
       = (b < nmeta \<or> (\<exists>ino\<in>{1..<2 + length (drop 2 small_argv)}. b \<in> image_blocks (img st) ino))"
    "\<forall>i\<in>{1..<2 + length (drop 2 small_argv)}. \<forall>j\<in>{1..<2 + length (drop 2 small_argv)}. i \<noteq> j \<longrightarrow> image_blocks (img st) i \<inter> image_blocks (img st) j = {}" by blast
  have "bm_bit (img st (sb_bmapstart (sb_decode (img st 1)))) 46" using st(2) [rule_format, of 46] by simp
  moreover have "image_blocks (img st) 1 \<inter> image_blocks (img st) 2 = {}" using st(3) [rule_format, of 1 2] by simp
  ultimately show ?thesis using small_fits(1) st(1) by blast
qed

theorem kernel_reads_image_witness:
  "mk_fits small_host (drop 2 small_argv)
   \<and> (\<exists>st s'. mk_main small_host small_argv = Some st
        \<and> obind (readsb 1 (buffer_machine (img st))) (\<lambda>_ s. obind (iget 1 2 s) (\<lambda>i s. obind (ilock i s) (\<lambda>_ s. readi i (DUser 16) 0 2 s)))
          = Done (2, [1, 2]) s')"
proof -
  have l: "2 \<le> length small_argv" by simp
  obtain st where st: "mk_main small_host small_argv = Some st" using mkfs_image [OF small_fits(1) l refl] by blast
  note b = buffer_machine_facts [of "img st"]
  have k: "0 < length (drop 2 small_argv)" and bs: "[1, 2] = take (unat (2 :: u32)) (file_of small_host (drop 2 small_argv ! 0))"
    using small_fits(2) by simp_all
  have ub: "user_buffer (p_pagetable (procs (buffer_machine (img st)) ! 0)) 16 (length [1, 2 :: u8]) (mem (buffer_machine (img st)))"
    using small_buffer by (simp add: b numeral_2_eq_2)
  from kernel_reads_image [OF small_fits(1) l refl st k b(4,5,6,1) refl bs ub, unfolded add_0] show ?thesis using small_fits(1) st by auto
qed

end
