(* ===== verification/Asm.thy ===== *)
theory Asm
  imports Kalloc
begin

text \<open>
  The assembly of the kernel: \<^verbatim>\<open>trampoline.S\<close> (\<open>uservec\<close>, \<open>userret\<close>), \<^verbatim>\<open>swtch.S\<close>,
  \<^verbatim>\<open>kernelvec.S\<close> and \<^verbatim>\<open>entry.S\<close>, as instruction lists over the register file of a hart.
  \<open>h_mem\<close> is memory as the page table in force shows it; \<open>uservec\<close> and \<open>userret\<close> reach memory only
  through the user page table, which maps the trap frame of the process at \<open>TRAPFRAME\<close>.  The jumps
  that end a sequence (\<^verbatim>\<open>jalr\<close>, \<^verbatim>\<open>ret\<close>, \<^verbatim>\<open>sret\<close>, \<^verbatim>\<open>call\<close>) are left to the reader of the result:
  the register that holds the target is part of it.
\<close>

section \<open>Harts\<close>

datatype reg = ZERO | RA | SP | GP | TP | T0 | T1 | T2 | S0 | S1 | A0 | A1 | A2 | A3 | A4 | A5 | A6 | A7
  | S2 | S3 | S4 | S5 | S6 | S7 | S8 | S9 | S10 | S11 | T3 | T4 | T5 | T6

datatype csr = Sscratch | Satp | Mhartid

record hart =
  h_regs :: "reg \<Rightarrow> u64"
  h_csrs :: "csr \<Rightarrow> u64"
  h_mem :: memory

datatype instr =
    SD reg int reg
  | LD reg int reg
  | LI reg u64
  | ADDI reg reg int
  | ADD reg reg reg
  | MUL reg reg reg
  | CSRW csr reg
  | CSRR reg csr
  | SFENCE_VMA

text \<open>Writes to the zero register have no effect.\<close>

definition set_reg :: "reg \<Rightarrow> u64 \<Rightarrow> hart \<Rightarrow> hart" where
  "set_reg r v h = (if r = ZERO then h else h\<lparr>h_regs := (h_regs h)(r := v)\<rparr>)"

primrec exec_instr :: "instr \<Rightarrow> hart \<Rightarrow> hart" where
  "exec_instr (SD r off b) h = h\<lparr>h_mem := store64 (h_regs h b + of_int off) (h_regs h r) (h_mem h)\<rparr>"
| "exec_instr (LD r off b) h = set_reg r (load64 (h_mem h) (h_regs h b + of_int off)) h"
| "exec_instr (LI r v) h = set_reg r v h"
| "exec_instr (ADDI r a i) h = set_reg r (h_regs h a + of_int i) h"
| "exec_instr (ADD r a b) h = set_reg r (h_regs h a + h_regs h b) h"
| "exec_instr (MUL r a b) h = set_reg r (h_regs h a * h_regs h b) h"
| "exec_instr (CSRW c r) h = h\<lparr>h_csrs := (h_csrs h)(c := h_regs h r)\<rparr>"
| "exec_instr (CSRR r c) h = set_reg r (h_csrs h c) h"
| "exec_instr SFENCE_VMA h = h"

definition run_code :: "instr list \<Rightarrow> hart \<Rightarrow> hart" where
  "run_code is h = fold exec_instr is h"

section \<open>trampoline.S\<close>

definition uservec_saves :: "(reg \<times> int) list" where
  "uservec_saves =
     [(RA, 40), (SP, 48), (GP, 56), (TP, 64), (T0, 72), (T1, 80), (T2, 88), (S0, 96), (S1, 104),
      (A1, 120), (A2, 128), (A3, 136), (A4, 144), (A5, 152), (A6, 160), (A7, 168),
      (S2, 176), (S3, 184), (S4, 192), (S5, 200), (S6, 208), (S7, 216), (S8, 224), (S9, 232),
      (S10, 240), (S11, 248), (T3, 256), (T4, 264), (T5, 272), (T6, 280)]"

definition uservec :: "instr list" where
  "uservec =
     [CSRW Sscratch A0, LI A0 TRAPFRAME]
     @ map (\<lambda>(r, off). SD r off A0) uservec_saves
     @ [CSRR T0 Sscratch, SD T0 112 A0,
        LD SP 8 A0, LD TP 32 A0, LD T0 16 A0, LD T1 0 A0,
        SFENCE_VMA, CSRW Satp T1, SFENCE_VMA]"

definition userret_loads :: "(reg \<times> int) list" where
  "userret_loads =
     [(RA, 40), (SP, 48), (GP, 56), (TP, 64), (T0, 72), (T1, 80), (T2, 88), (S0, 96), (S1, 104),
      (A1, 120), (A2, 128), (A3, 136), (A4, 144), (A5, 152), (A6, 160), (A7, 168),
      (S2, 176), (S3, 184), (S4, 192), (S5, 200), (S6, 208), (S7, 216), (S8, 224), (S9, 232),
      (S10, 240), (S11, 248), (T3, 256), (T4, 264), (T5, 272), (T6, 280)]"

definition userret :: "instr list" where
  "userret =
     [SFENCE_VMA, CSRW Satp A0, SFENCE_VMA, LI A0 TRAPFRAME]
     @ map (\<lambda>(r, off). LD r off A0) userret_loads
     @ [LD A0 112 A0]"

section \<open>swtch.S\<close>

definition swtch_saves :: "(reg \<times> int) list" where
  "swtch_saves =
     [(RA, 0), (SP, 8), (S0, 16), (S1, 24), (S2, 32), (S3, 40), (S4, 48), (S5, 56), (S6, 64),
      (S7, 72), (S8, 80), (S9, 88), (S10, 96), (S11, 104)]"

definition swtch_loads :: "(reg \<times> int) list" where
  "swtch_loads =
     [(RA, 0), (SP, 8), (S0, 16), (S1, 24), (S2, 32), (S3, 40), (S4, 48), (S5, 56), (S6, 64),
      (S7, 72), (S8, 80), (S9, 88), (S10, 96), (S11, 104)]"

definition swtch :: "instr list" where
  "swtch = map (\<lambda>(r, off). SD r off A0) swtch_saves @ map (\<lambda>(r, off). LD r off A1) swtch_loads"

section \<open>kernelvec.S\<close>

text \<open>The code before and after the call of \<open>kerneltrap\<close>.\<close>

definition kernelvec_saves :: "(reg \<times> int) list" where
  "kernelvec_saves =
     [(RA, 0), (GP, 16), (TP, 24), (T0, 32), (T1, 40), (T2, 48), (A0, 72), (A1, 80), (A2, 88),
      (A3, 96), (A4, 104), (A5, 112), (A6, 120), (A7, 128), (T3, 216), (T4, 224), (T5, 232),
      (T6, 240)]"

definition kernelvec_enter :: "instr list" where
  "kernelvec_enter = ADDI SP SP (-256) # map (\<lambda>(r, off). SD r off SP) kernelvec_saves"

definition kernelvec_loads :: "(reg \<times> int) list" where
  "kernelvec_loads =
     [(RA, 0), (GP, 16), (T0, 32), (T1, 40), (T2, 48), (A0, 72), (A1, 80), (A2, 88),
      (A3, 96), (A4, 104), (A5, 112), (A6, 120), (A7, 128), (T3, 216), (T4, 224), (T5, 232),
      (T6, 240)]"

definition kernelvec_leave :: "instr list" where
  "kernelvec_leave = map (\<lambda>(r, off). LD r off SP) kernelvec_loads @ [ADDI SP SP 256]"

section \<open>entry.S\<close>

definition entry_code :: "u64 \<Rightarrow> instr list" where
  "entry_code stack0 =
     [LI SP stack0, LI A0 (1024 * 4), CSRR A1 Mhartid, ADDI A1 A1 1, MUL A0 A0 A1, ADD SP SP A0]"

section \<open>Saving and loading registers\<close>

lemma run_code_simps [simp]:
  "run_code [] h = h" "run_code (i # is) h = run_code is (exec_instr i h)"
  "run_code (is @ js) h = run_code js (run_code is h)"
  by (simp_all add: run_code_def)

lemma set_reg_simps [simp]:
  "h_mem (set_reg r v h) = h_mem h" "h_csrs (set_reg r v h) = h_csrs h"
  "r \<noteq> ZERO \<Longrightarrow> h_regs (set_reg r v h) = (h_regs h)(r := v)"
  by (simp_all add: set_reg_def)

text \<open>Eight bytes that do not overlap.\<close>

lemma load64_store64_apart:
  assumes "8 \<le> unat (b - a)" "unat (b - a) \<le> 2 ^ 64 - 8"
  shows "load64 (store64 a v m) b = load64 m b"
proof (rule load64_cong)
  fix i :: nat assume "i < 8"
  have "unat (b - a) + i < 2 ^ 64" using assms(2) \<open>i < 8\<close> by simp
  then have "unat (b - a + of_nat i) = unat (b - a) + i"
    by (simp add: unat_word_ariths unat_of_nat)
  then have "\<not> unat (b - a + of_nat i) < 8" using assms(1) by simp
  moreover have "b + of_nat i - a = b - a + of_nat i" by (simp add: algebra_simps)
  ultimately have "\<not> unat (b + of_nat i - a) < 8" by metis
  then show "store64 a v m (b + of_nat i) = m (b + of_nat i)" by (simp add: store64_def write_bytes_def)
qed

definition frame_slots :: "int list \<Rightarrow> bool" where
  "frame_slots os \<longleftrightarrow> distinct os \<and> (\<forall>k\<in>set os. 0 \<le> k \<and> k < 4096 \<and> k mod 8 = 0)"

lemma load64_store64_slot:
  assumes "0 \<le> k" "k < 4096" "k mod 8 = 0" "0 \<le> l" "l < 4096" "l mod 8 = 0" "k \<noteq> l"
  shows "load64 (store64 (b + of_int k) v m) (b + of_int l) = load64 m (b + of_int l)"
proof (rule load64_store64_apart)
  from assms obtain i j where ij: "k = 8 * i" "l = 8 * j" by (auto simp: mod_eq_0_iff_dvd elim!: dvdE)
  have d: "b + of_int l - (b + of_int k) = (of_int (l - k) :: u64)" by simp
  have u: "unat (of_int (l - k) :: u64) = nat ((l - k) mod 2 ^ 64)"
    by (simp only: unsigned_of_int take_bit_eq_mod of_nat_id) simp
  have "8 \<le> (l - k) mod 2 ^ 64 \<and> (l - k) mod 2 ^ 64 \<le> 2 ^ 64 - 8"
  proof (cases "k < l")
    case True
    then have "8 \<le> l - k" using assms ij by simp
    then show ?thesis using assms by simp
  next
    case False
    then have kl: "8 \<le> k - l" using assms ij by simp
    moreover have "(l - k) mod 2 ^ 64 = l - k + 2 ^ 64"
    proof -
      have "(l - k) mod 2 ^ 64 = (l - k + 2 ^ 64) mod 2 ^ 64" by (simp only: mod_add_self2)
      also have "\<dots> = l - k + 2 ^ 64" by (rule mod_pos_pos_trivial) (use assms kl in simp_all)
      finally show ?thesis .
    qed
    ultimately show ?thesis using assms by simp
  qed
  then show "8 \<le> unat (b + of_int l - (b + of_int k))" "unat (b + of_int l - (b + of_int k)) \<le> 2 ^ 64 - 8"
    unfolding d u by (simp_all add: le_nat_iff nat_le_iff)
qed


text \<open>A sequence of stores relative to one base register, and of loads.\<close>

lemma run_saves:
  assumes "frame_slots (map snd rs)"
  shows "h_regs (run_code (map (\<lambda>(r, k). SD r k b) rs) h) = h_regs h"
    and "h_csrs (run_code (map (\<lambda>(r, k). SD r k b) rs) h) = h_csrs h"
    and "(r, k) \<in> set rs \<Longrightarrow> load64 (h_mem (run_code (map (\<lambda>(r, k). SD r k b) rs) h)) (h_regs h b + of_int k) = h_regs h r"
    and "0 \<le> l \<Longrightarrow> l < 4096 \<Longrightarrow> l mod 8 = 0 \<Longrightarrow> l \<notin> set (map snd rs) \<Longrightarrow>
      load64 (h_mem (run_code (map (\<lambda>(r, k). SD r k b) rs) h)) (h_regs h b + of_int l) = load64 (h_mem h) (h_regs h b + of_int l)"
proof -
  show "h_regs (run_code (map (\<lambda>(r, k). SD r k b) rs) h) = h_regs h"
    by (induction rs arbitrary: h) auto
  show "h_csrs (run_code (map (\<lambda>(r, k). SD r k b) rs) h) = h_csrs h"
    by (induction rs arbitrary: h) auto
  have other: "0 \<le> l \<Longrightarrow> l < 4096 \<Longrightarrow> l mod 8 = 0 \<Longrightarrow> l \<notin> set (map snd rs) \<Longrightarrow>
      load64 (h_mem (run_code (map (\<lambda>(r, k). SD r k b) rs) h)) (h_regs h b + of_int l) = load64 (h_mem h) (h_regs h b + of_int l)"
    if "frame_slots (map snd rs)" for rs l h
    using that
  proof (induction rs arbitrary: h)
    case (Cons x rs)
    obtain r k where x: "x = (r, k)" by (cases x)
    have "load64 (h_mem (run_code (map (\<lambda>(r, k). SD r k b) rs) (exec_instr (SD r k b) h))) (h_regs (exec_instr (SD r k b) h) b + of_int l)
        = load64 (h_mem (exec_instr (SD r k b) h)) (h_regs (exec_instr (SD r k b) h) b + of_int l)"
      by (rule Cons.IH) (use Cons.prems in \<open>auto simp: frame_slots_def\<close>)
    with Cons.prems show ?case by (simp add: x frame_slots_def load64_store64_slot)
  qed simp
  show "0 \<le> l \<Longrightarrow> l < 4096 \<Longrightarrow> l mod 8 = 0 \<Longrightarrow> l \<notin> set (map snd rs) \<Longrightarrow>
      load64 (h_mem (run_code (map (\<lambda>(r, k). SD r k b) rs) h)) (h_regs h b + of_int l) = load64 (h_mem h) (h_regs h b + of_int l)"
    by (rule other [OF assms])
  show "(r, k) \<in> set rs \<Longrightarrow> load64 (h_mem (run_code (map (\<lambda>(r, k). SD r k b) rs) h)) (h_regs h b + of_int k) = h_regs h r"
    using assms
  proof (induction rs arbitrary: h)
    case (Cons x rs)
    obtain r' k' where x: "x = (r', k')" by (cases x)
    let ?h = "exec_instr (SD r' k' b) h"
    have fs: "frame_slots (map snd rs)" using Cons.prems by (simp add: frame_slots_def)
    show ?case
    proof (cases "(r, k) = (r', k')")
      case True
      then have "k \<notin> set (map snd rs)" "0 \<le> k" "k < 4096" "k mod 8 = 0" using Cons.prems x by (auto simp: frame_slots_def)
      then show ?thesis using other [OF fs, of k ?h] True x by simp
    next
      case False
      then have "(r, k) \<in> set rs" using Cons.prems x by auto
      then show ?thesis using Cons.IH [OF _ fs, of ?h] x by simp
    qed
  qed simp
qed

lemma run_loads:
  assumes "distinct (map fst rs)" "b \<notin> set (map fst rs)" "ZERO \<notin> set (map fst rs)"
  shows "h_mem (run_code (map (\<lambda>(r, k). LD r k b) rs) h) = h_mem h"
    and "h_csrs (run_code (map (\<lambda>(r, k). LD r k b) rs) h) = h_csrs h"
    and "(r, k) \<in> set rs \<Longrightarrow> h_regs (run_code (map (\<lambda>(r, k). LD r k b) rs) h) r = load64 (h_mem h) (h_regs h b + of_int k)"
    and "r' \<notin> set (map fst rs) \<Longrightarrow> h_regs (run_code (map (\<lambda>(r, k). LD r k b) rs) h) r' = h_regs h r'"
proof -
  show "h_mem (run_code (map (\<lambda>(r, k). LD r k b) rs) h) = h_mem h" by (induction rs arbitrary: h) auto
  show "h_csrs (run_code (map (\<lambda>(r, k). LD r k b) rs) h) = h_csrs h" by (induction rs arbitrary: h) auto
  have other: "h_regs (run_code (map (\<lambda>(r, k). LD r k b) rs) h) r' = h_regs h r'" if "r' \<notin> set (map fst rs)" for rs r' h
    using that by (induction rs arbitrary: h) (auto simp: set_reg_def)
  then show "r' \<notin> set (map fst rs) \<Longrightarrow> h_regs (run_code (map (\<lambda>(r, k). LD r k b) rs) h) r' = h_regs h r'" .
  show "(r, k) \<in> set rs \<Longrightarrow> h_regs (run_code (map (\<lambda>(r, k). LD r k b) rs) h) r = load64 (h_mem h) (h_regs h b + of_int k)"
    using assms
  proof (induction rs arbitrary: h)
    case (Cons x rs)
    obtain r' k' where x: "x = (r', k')" by (cases x)
    let ?h = "exec_instr (LD r' k' b) h"
    have h: "h_mem ?h = h_mem h" "h_regs ?h b = h_regs h b" "h_regs ?h r' = load64 (h_mem h) (h_regs h b + of_int k')"
      using Cons.prems x by auto
    show ?case
    proof (cases "(r, k) = (r', k')")
      case True
      then have "r \<notin> set (map fst rs)" using Cons.prems x by auto
      then show ?thesis using other [of r rs ?h] True x h by simp
    next
      case False
      then have "(r, k) \<in> set rs" using Cons.prems x by auto
      then show ?thesis using Cons.IH [of ?h] Cons.prems x h by simp
    qed
  qed simp
qed

section \<open>Traps from user space\<close>

lemma trap_slots:
  "frame_slots (map snd uservec_saves)" "userret_loads = uservec_saves"
  "distinct (map fst uservec_saves)" "A0 \<notin> set (map fst uservec_saves)" "ZERO \<notin> set (map fst uservec_saves)"
  "\<And>r. r \<noteq> ZERO \<Longrightarrow> r \<noteq> A0 \<Longrightarrow> \<exists>k. (r, k) \<in> set uservec_saves"
  "\<And>r k. (r, k) \<in> set uservec_saves \<Longrightarrow> 40 \<le> k \<and> k \<le> 280 \<and> k mod 8 = 0 \<and> k \<noteq> 112"
proof -
  show "\<exists>k. (r, k) \<in> set uservec_saves" if "r \<noteq> ZERO" "r \<noteq> A0" for r
    using that by (cases r) (auto simp: uservec_saves_def)
qed (auto simp: frame_slots_def uservec_saves_def userret_loads_def)

lemma uservec_result:
  fixes h :: hart
  defines "h' \<equiv> run_code uservec h"
  shows "(r, k) \<in> set uservec_saves \<Longrightarrow> load64 (h_mem h') (TRAPFRAME + of_int k) = h_regs h r"
    and "load64 (h_mem h') (TRAPFRAME + 112) = h_regs h A0"
    and "h_regs h' SP = load64 (h_mem h) (TRAPFRAME + 8)" "h_regs h' TP = load64 (h_mem h) (TRAPFRAME + 32)"
    "h_regs h' T0 = load64 (h_mem h) (TRAPFRAME + 16)" "h_csrs h' Satp = load64 (h_mem h) TRAPFRAME"
proof -
  let ?h1 = "(set_reg A0 TRAPFRAME (h\<lparr>h_csrs := (h_csrs h)(Sscratch := h_regs h A0)\<rparr>))"
  let ?h2 = "run_code (map (\<lambda>(r, k). SD r k A0) uservec_saves) ?h1"
  note sv = run_saves [OF trap_slots(1), where b = A0 and h = ?h1]
  have r2: "h_regs ?h2 = (h_regs h)(A0 := TRAPFRAME)" "h_csrs ?h2 = (h_csrs h)(Sscratch := h_regs h A0)"
    using sv(1,2) by simp_all
  define m where "m = store64 (TRAPFRAME + of_int 112) (h_regs h A0) (h_mem ?h2)"
  have code: "uservec = CSRW Sscratch A0 # LI A0 TRAPFRAME # map (\<lambda>(r, k). SD r k A0) uservec_saves
      @ [CSRR T0 Sscratch, SD T0 112 A0, LD SP 8 A0, LD TP 32 A0, LD T0 16 A0, LD T1 0 A0, SFENCE_VMA, CSRW Satp T1, SFENCE_VMA]"
    by (simp add: uservec_def)
  have h': "h_mem h' = m" "h_regs h' SP = load64 m (TRAPFRAME + of_int 8)" "h_regs h' TP = load64 m (TRAPFRAME + of_int 32)"
     "h_regs h' T0 = load64 m (TRAPFRAME + of_int 16)" "h_csrs h' Satp = load64 m (TRAPFRAME + of_int 0)"
    unfolding h'_def code by (simp_all add: r2 m_def)
  have old: "load64 m (TRAPFRAME + of_int k) = load64 (h_mem h) (TRAPFRAME + of_int k)" if "k \<in> {0, 8, 16, 32}" for k
  proof -
    have "k \<notin> set (map snd uservec_saves)" "0 \<le> k" "k < 4096" "k mod 8 = 0" using that trap_slots(7) by force+
    moreover from this have "load64 m (TRAPFRAME + of_int k) = load64 (h_mem ?h2) (TRAPFRAME + of_int k)"
      unfolding m_def using that by (intro load64_store64_slot) auto
    ultimately show ?thesis using sv(4) [of k] by simp
  qed
  show "h_regs h' SP = load64 (h_mem h) (TRAPFRAME + 8)" "h_regs h' TP = load64 (h_mem h) (TRAPFRAME + 32)"
    "h_regs h' T0 = load64 (h_mem h) (TRAPFRAME + 16)" "h_csrs h' Satp = load64 (h_mem h) TRAPFRAME"
    using h' old [of 8] old [of 32] old [of 16] old [of 0] by simp_all
  show "load64 (h_mem h') (TRAPFRAME + 112) = h_regs h A0" by (simp add: h'(1) m_def)
  show "load64 (h_mem h') (TRAPFRAME + of_int k) = h_regs h r" if rk: "(r, k) \<in> set uservec_saves"
  proof -
    have k: "40 \<le> k" "k \<le> 280" "k mod 8 = 0" "k \<noteq> 112" using trap_slots(7) [OF rk] by auto
    then have "load64 (h_mem h') (TRAPFRAME + of_int k) = load64 (h_mem ?h2) (TRAPFRAME + of_int k)"
      unfolding h'(1) m_def by (intro load64_store64_slot) simp_all
    moreover have "r \<noteq> A0" using rk trap_slots(4) by force
    ultimately show ?thesis using sv(3) [OF rk] by simp
  qed
qed

lemma userret_result:
  "h_csrs (run_code userret h) Satp = h_regs h A0"
  "h_regs (run_code userret h) A0 = load64 (h_mem h) (TRAPFRAME + 112)"
  "(r, k) \<in> set uservec_saves \<Longrightarrow> h_regs (run_code userret h) r = load64 (h_mem h) (TRAPFRAME + of_int k)"
proof -
  let ?h1 = "set_reg A0 TRAPFRAME (h\<lparr>h_csrs := (h_csrs h)(Satp := h_regs h A0)\<rparr>)"
  note ld = run_loads [OF trap_slots(3-5), where h = ?h1]
  have code: "userret = SFENCE_VMA # CSRW Satp A0 # SFENCE_VMA # LI A0 TRAPFRAME # map (\<lambda>(r, k). LD r k A0) uservec_saves @ [LD A0 112 A0]"
    by (simp add: userret_def trap_slots(2))
  have "h_regs (run_code (map (\<lambda>(r, k). LD r k A0) uservec_saves) ?h1) A0 = TRAPFRAME" using ld(4) [OF trap_slots(4)] by simp
  note simps = code ld(1,2) this
  show "h_csrs (run_code userret h) Satp = h_regs h A0"
    "h_regs (run_code userret h) A0 = load64 (h_mem h) (TRAPFRAME + 112)" by (simp_all add: simps)
  show "h_regs (run_code userret h) r = load64 (h_mem h) (TRAPFRAME + of_int k)" if "(r, k) \<in> set uservec_saves"
  proof -
    have "r \<noteq> A0" using that trap_slots(4) by force
    then show ?thesis using ld(3) [OF that] by (simp add: simps)
  qed
qed

text \<open>C31: \<open>uservec\<close> enters the kernel on the stack, hart number, handler and page table that the trap
  frame names, and \<open>userret\<close> brings back every register of the user as it was at the trap, as long
  as the kernel in between leaves the saved registers of the trap frame alone; only \<open>a0\<close>, through
  which a system call returns its result, is what the kernel has put into its slot, which held the
  user's value.\<close>

theorem trap_roundtrip:
  fixes h k :: hart
  defines "h1 \<equiv> run_code uservec h" and "h2 \<equiv> run_code userret k"
  assumes "\<And>i. i < 248 \<Longrightarrow> i \<notin> {72..<80} \<Longrightarrow> h_mem k (TRAPFRAME + 40 + of_nat i) = h_mem h1 (TRAPFRAME + 40 + of_nat i)"
  shows "h_regs h1 SP = load64 (h_mem h) (TRAPFRAME + 8) \<and> h_regs h1 TP = load64 (h_mem h) (TRAPFRAME + 32)
    \<and> h_regs h1 T0 = load64 (h_mem h) (TRAPFRAME + 16) \<and> h_csrs h1 Satp = load64 (h_mem h) TRAPFRAME
    \<and> (\<forall>r. r \<noteq> ZERO \<longrightarrow> r \<noteq> A0 \<longrightarrow> h_regs h2 r = h_regs h r)
    \<and> h_regs h2 A0 = load64 (h_mem k) (TRAPFRAME + 112) \<and> load64 (h_mem h1) (TRAPFRAME + 112) = h_regs h A0
    \<and> h_csrs h2 Satp = h_regs k A0"
proof -
  have "h_regs h2 r = h_regs h r" if r: "r \<noteq> ZERO" "r \<noteq> A0" for r
  proof -
    obtain j where j: "(r, j) \<in> set uservec_saves" using trap_slots(6) [OF r] by blast
    note b = trap_slots(7) [OF j]
    have "load64 (h_mem k) (TRAPFRAME + of_int j) = load64 (h_mem h1) (TRAPFRAME + of_int j)"
    proof (rule load64_cong)
      fix i :: nat assume i: "i < 8"
      let ?n = "nat (j - 40) + i"
      have "?n < 248" using b i by auto
      moreover have "?n \<notin> {72..<80}"
      proof -
        obtain c where "j = 8 * c" using b by (auto simp: mod_eq_0_iff_dvd elim: dvdE)
        then show ?thesis using b i by auto
      qed
      moreover have "TRAPFRAME + 40 + of_nat ?n = TRAPFRAME + of_int j + of_nat i"
        using b by (simp add: of_nat_nat)
      ultimately show "h_mem k (TRAPFRAME + of_int j + of_nat i) = h_mem h1 (TRAPFRAME + of_int j + of_nat i)"
        using assms(3) [of ?n] by metis
    qed
    then show ?thesis using userret_result(3) [OF j, of k] uservec_result(1) [OF j, of h] by (simp add: h1_def h2_def)
  qed
  then show ?thesis using userret_result(1,2) [of k] uservec_result(2-) [of h] unfolding h1_def h2_def by blast
qed

section \<open>Context switches\<close>

text \<open>Two \<open>struct context\<close> that do not overlap.\<close>

definition contexts_apart :: "u64 \<Rightarrow> u64 \<Rightarrow> bool" where
  "contexts_apart a b \<longleftrightarrow> 112 \<le> unat (a - b) \<and> unat (a - b) \<le> 2 ^ 64 - 112"

lemma load64_store64_context:
  assumes ap: "contexts_apart a b" and k: "0 \<le> k" "k \<le> 104" "0 \<le> l" "l \<le> 104"
  shows "load64 (store64 (b + of_int l) v m) (a + of_int k) = load64 m (a + of_int k)"
proof (rule load64_store64_apart)
  define u where "u = unat (a - b)"
  let ?d = "int u + k - l"
  have u: "112 \<le> u" "u \<le> 2 ^ 64 - 112" "of_nat u = a - b" using ap by (simp_all add: contexts_apart_def u_def)
  have r: "8 \<le> ?d" "?d \<le> 2 ^ 64 - 8" using u(1,2) k by simp_all
  have "a + of_int k - (b + of_int l) = of_nat u + of_int k - of_int l" by (simp add: u(3))
  also have "\<dots> = of_int ?d" by simp
  finally have "unat (a + of_int k - (b + of_int l)) = nat (?d mod 2 ^ 64)"
    by (simp only: unsigned_of_int take_bit_eq_mod of_nat_id) simp
  also have "?d mod 2 ^ 64 = ?d" using r by simp
  finally show "8 \<le> unat (a + of_int k - (b + of_int l))" "unat (a + of_int k - (b + of_int l)) \<le> 2 ^ 64 - 8"
    using r by (simp_all add: le_nat_iff nat_le_iff)
qed

lemma run_saves_context:
  assumes "contexts_apart a (h_regs h b)" "\<And>r l. (r, l) \<in> set rs \<Longrightarrow> 0 \<le> l \<and> l \<le> 104" "0 \<le> k" "k \<le> 104"
  shows "load64 (h_mem (run_code (map (\<lambda>(r, k). SD r k b) rs) h)) (a + of_int k) = load64 (h_mem h) (a + of_int k)"
  using assms(1,2)
proof (induction rs arbitrary: h)
  case (Cons x rs)
  obtain r l where x: "x = (r, l)" by (cases x)
  have "0 \<le> l \<and> l \<le> 104" using Cons.prems(2) [of r l] x by simp
  moreover have "load64 (h_mem (run_code (map (\<lambda>(r, k). SD r k b) rs) (exec_instr (SD r l b) h))) (a + of_int k)
      = load64 (h_mem (exec_instr (SD r l b) h)) (a + of_int k)"
    by (rule Cons.IH) (use Cons.prems in auto)
  ultimately show ?case using Cons.prems(1) x assms(3,4) by (simp add: load64_store64_context)
qed simp

lemma swtch_slots:
  "frame_slots (map snd swtch_saves)" "swtch_loads = swtch_saves" "distinct (map fst swtch_saves)"
  "A1 \<notin> set (map fst swtch_saves)" "ZERO \<notin> set (map fst swtch_saves)" "A0 \<notin> set (map fst swtch_saves)"
  "\<And>r k. (r, k) \<in> set swtch_saves \<Longrightarrow> 0 \<le> k \<and> k \<le> 104 \<and> k mod 8 = 0"
  by (auto simp: frame_slots_def swtch_saves_def swtch_loads_def)

lemma swtch_result:
  assumes "(r, k) \<in> set swtch_saves"
  shows "load64 (h_mem (run_code swtch h)) (h_regs h A0 + of_int k) = h_regs h r"
    and "contexts_apart (h_regs h A1) (h_regs h A0) \<Longrightarrow> h_regs (run_code swtch h) r = load64 (h_mem h) (h_regs h A1 + of_int k)"
proof -
  let ?h = "run_code (map (\<lambda>(r, k). SD r k A0) swtch_saves) h"
  note sv = run_saves [OF swtch_slots(1), where b = A0 and h = h]
  note ld = run_loads [OF swtch_slots(3-5), where h = ?h]
  have code: "swtch = map (\<lambda>(r, k). SD r k A0) swtch_saves @ map (\<lambda>(r, k). LD r k A1) swtch_saves"
    by (simp add: swtch_def swtch_slots(2))
  show "load64 (h_mem (run_code swtch h)) (h_regs h A0 + of_int k) = h_regs h r"
    using sv(3) [OF assms] ld(1) by (simp add: code)
  show "h_regs (run_code swtch h) r = load64 (h_mem h) (h_regs h A1 + of_int k)" if "contexts_apart (h_regs h A1) (h_regs h A0)"
    using ld(3) [OF assms] run_saves_context [OF that, of swtch_saves k] swtch_slots(7) sv(1) assms by (simp add: code)
qed

text \<open>C32: a thread that switches away by \<open>swtch\<close> and is switched back to later, by any context that
  does not overlap its own, continues at its return address with its stack pointer and callee-saved
  registers as they were, whatever happened in between, provided its saved context was left alone.\<close>

theorem swtch_roundtrip:
  fixes h k :: hart
  assumes "h_regs k A1 = h_regs h A0" and "contexts_apart (h_regs k A1) (h_regs k A0)"
    and "\<And>i. i < 112 \<Longrightarrow> h_mem k (h_regs h A0 + of_nat i) = h_mem (run_code swtch h) (h_regs h A0 + of_nat i)"
    and "r \<in> {RA, SP, S0, S1, S2, S3, S4, S5, S6, S7, S8, S9, S10, S11}"
  shows "h_regs (run_code swtch k) r = h_regs h r"
proof -
  obtain j where j: "(r, j) \<in> set swtch_saves" using assms(4) by (auto simp: swtch_saves_def)
  note b = swtch_slots(7) [OF j]
  have "load64 (h_mem k) (h_regs h A0 + of_int j) = load64 (h_mem (run_code swtch h)) (h_regs h A0 + of_int j)"
  proof (rule load64_cong)
    fix i :: nat assume i: "i < 8"
    have "nat j + i < 112" using b i by auto
    moreover have "h_regs h A0 + of_nat (nat j + i) = h_regs h A0 + of_int j + of_nat i" using b by (simp add: of_nat_nat)
    ultimately show "h_mem k (h_regs h A0 + of_int j + of_nat i) = h_mem (run_code swtch h) (h_regs h A0 + of_int j + of_nat i)"
      using assms(3) [of "nat j + i"] by metis
  qed
  then show ?thesis using swtch_result(2) [OF j assms(2)] swtch_result(1) [OF j, of h] assms(1) by simp
qed

section \<open>Traps from the kernel\<close>

lemma kernelvec_slots:
  "frame_slots (map snd kernelvec_saves)" "set kernelvec_loads \<subseteq> set kernelvec_saves" "distinct (map fst kernelvec_loads)"
  "SP \<notin> set (map fst kernelvec_loads)" "ZERO \<notin> set (map fst kernelvec_loads)" "SP \<notin> set (map fst kernelvec_saves)"
  "\<And>r k. (r, k) \<in> set kernelvec_loads \<Longrightarrow> 0 \<le> k \<and> k \<le> 248"
  by (auto simp: frame_slots_def kernelvec_saves_def kernelvec_loads_def)

text \<open>C33: an interrupt in the kernel is invisible to the interrupted code: when the handler keeps the
  callee-saved registers, as the calling convention demands, and the frame \<open>kernelvec\<close> has pushed,
  every register but \<open>tp\<close>, which names the hart the thread now runs on, has its old value.\<close>

theorem kernelvec_transparent:
  fixes h k :: hart
  defines "h1 \<equiv> run_code kernelvec_enter h" and "h2 \<equiv> run_code kernelvec_leave k"
  assumes "\<And>r. r \<in> {SP, S0, S1, S2, S3, S4, S5, S6, S7, S8, S9, S10, S11} \<Longrightarrow> h_regs k r = h_regs h1 r"
    and "\<And>i. i < 256 \<Longrightarrow> h_mem k (h_regs h1 SP + of_nat i) = h_mem h1 (h_regs h1 SP + of_nat i)"
    and "r \<noteq> ZERO" "r \<noteq> TP"
  shows "h_regs h2 r = h_regs h r"
proof -
  let ?h = "set_reg SP (h_regs h SP + of_int (- 256)) h"
  let ?k = "run_code (map (\<lambda>(r, k). LD r k SP) kernelvec_loads) k"
  note sv = run_saves [OF kernelvec_slots(1), where b = SP and h = ?h]
  note ld = run_loads [OF kernelvec_slots(3-5), where h = k]
  have h1: "h1 = run_code (map (\<lambda>(r, k). SD r k SP) kernelvec_saves) ?h" by (simp add: h1_def kernelvec_enter_def)
  have sp: "h_regs h1 SP = h_regs h SP - 256" using sv(1) by (simp add: h1)
  have ksp: "h_regs k SP = h_regs h1 SP" by (rule assms(3)) simp
  have h2: "h_regs h2 = (h_regs ?k)(SP := h_regs h SP)"
    using ld(4) [OF kernelvec_slots(4)] by (simp add: h2_def kernelvec_leave_def ksp sp)
  show ?thesis
  proof (cases "\<exists>j. (r, j) \<in> set kernelvec_loads")
    case True
    then obtain j where j: "(r, j) \<in> set kernelvec_loads" by blast
    note b = kernelvec_slots(7) [OF j]
    have rsp: "r \<noteq> SP" using j kernelvec_slots(4) by force
    have "load64 (h_mem k) (h_regs h1 SP + of_int j) = load64 (h_mem h1) (h_regs h1 SP + of_int j)"
    proof (rule load64_cong)
      fix i :: nat assume i: "i < 8"
      have "nat j + i < 256" using b i by auto
      moreover have "h_regs h1 SP + of_nat (nat j + i) = h_regs h1 SP + of_int j + of_nat i" using b by (simp add: of_nat_nat)
      ultimately show "h_mem k (h_regs h1 SP + of_int j + of_nat i) = h_mem h1 (h_regs h1 SP + of_int j + of_nat i)"
        using assms(4) [of "nat j + i"] by metis
    qed
    moreover have "load64 (h_mem h1) (h_regs h1 SP + of_int j) = h_regs h r"
    proof -
      have "(r, j) \<in> set kernelvec_saves" using j kernelvec_slots(2) by blast
      from sv(3) [OF this] have "load64 (h_mem h1) (h_regs ?h SP + of_int j) = h_regs ?h r" by (simp only: h1)
      then show ?thesis using rsp by (simp add: sp)
    qed
    ultimately show ?thesis using ld(3) [OF j] rsp by (simp add: h2 ksp)
  next
    case False
    then have nl: "r \<notin> set (map fst kernelvec_loads)" by auto
    show ?thesis
    proof (cases "r = SP")
      case True
      then show ?thesis by (simp add: h2)
    next
      case notsp: False
      have "r \<in> {SP, S0, S1, S2, S3, S4, S5, S6, S7, S8, S9, S10, S11}"
        using nl assms(5,6) by (cases r) (auto simp: kernelvec_loads_def)
      then have "h_regs k r = h_regs h1 r" by (rule assms(3))
      then show ?thesis using ld(4) [OF nl] notsp sv(1) by (simp add: h2 h1)
    qed
  qed
qed

section \<open>Concrete harts\<close>

definition sample_hart :: "u64 \<Rightarrow> u64 \<Rightarrow> hart" where
  "sample_hart a b = \<lparr>h_regs = (\<lambda>_. 7)(A0 := a, A1 := b), h_csrs = (\<lambda>_. 0), h_mem = (\<lambda>_. 0)\<rparr>"

theorem trap_roundtrip_witness:
  "h_regs (run_code userret (run_code uservec (sample_hart 3 4))) S5 = 7
   \<and> load64 (h_mem (run_code uservec (sample_hart 3 4))) (TRAPFRAME + 112) = 3"
proof -
  have "\<forall>r. r \<noteq> ZERO \<longrightarrow> r \<noteq> A0 \<longrightarrow> h_regs (run_code userret (run_code uservec (sample_hart 3 4))) r = h_regs (sample_hart 3 4) r"
    "load64 (h_mem (run_code uservec (sample_hart 3 4))) (TRAPFRAME + 112) = h_regs (sample_hart 3 4) A0"
    using trap_roundtrip [where h = "sample_hart 3 4" and k = "run_code uservec (sample_hart 3 4)"] by blast+
  then show ?thesis by (simp add: sample_hart_def)
qed

theorem swtch_roundtrip_witness:
  "contexts_apart 4096 8192
   \<and> h_regs (run_code swtch ((sample_hart 8192 4096)\<lparr>h_mem := h_mem (run_code swtch (sample_hart 4096 8192))\<rparr>)) S5 = 7"
proof -
  have "contexts_apart 4096 8192" by (simp add: contexts_apart_def)
  moreover from this have "h_regs (run_code swtch ((sample_hart 8192 4096)\<lparr>h_mem := h_mem (run_code swtch (sample_hart 4096 8192))\<rparr>)) S5
      = h_regs (sample_hart 4096 8192) S5"
    by (intro swtch_roundtrip) (simp_all add: sample_hart_def)
  ultimately show ?thesis by (simp add: sample_hart_def)
qed

theorem kernelvec_transparent_witness:
  "h_regs (run_code kernelvec_leave (run_code kernelvec_enter (sample_hart 3 4))) A1 = 4"
proof -
  have "h_regs (run_code kernelvec_leave (run_code kernelvec_enter (sample_hart 3 4))) A1 = h_regs (sample_hart 3 4) A1"
    by (rule kernelvec_transparent) simp_all
  then show ?thesis by (simp add: sample_hart_def)
qed

end
