(* ===== verification/Ulib.thy ===== *)
theory Ulib
  imports Params Printf
begin

text \<open>
  User space: how a user program runs, and \<^verbatim>\<open>user/ulib.c\<close>.

  A program is a function of the results its system calls will return, one after the other: the
  value in \<open>a0\<close> and the bytes the kernel stores into the buffer of the call.  It yields the calls it
  made, in order, and how it stands: it has returned (\<open>URet\<close>, with the results not used yet), it has
  called \<open>exit\<close>, it has become another program by \<open>exec\<close>, or it is inside its last call because the
  results are used up.  After \<open>fork\<close> the two processes are two runs of the same program, one in which
  the call returned 0.
\<close>

section \<open>Programs\<close>

datatype ucall =
    Ufork | Uexit int | Uwait | Upipe | Uread int int | Uwrite int "u8 list" | Uclose int | Ukill int
  | Uexec "u8 list" "u8 list list" | Uopen "u8 list" int | Umknod "u8 list" int int | Uunlink "u8 list"
  | Ufstat int | Ulink "u8 list" "u8 list" | Umkdir "u8 list" | Uchdir "u8 list" | Udup int | Ugetpid
  | Usbrk int int | Upause int | Uuptime | Ugetpinfo

type_synonym ures = "int \<times> u8 list"

datatype 'a uout =
    URet 'a "ures list" "ucall list"
  | UExit int "ucall list"
  | UImage "u8 list" "u8 list list" "ucall list"
  | UInCall "ucall list"

fun prefix_calls :: "ucall list \<Rightarrow> 'a uout \<Rightarrow> 'a uout" where
  "prefix_calls cs (URet a rs t) = URet a rs (cs @ t)"
| "prefix_calls cs (UExit n t) = UExit n (cs @ t)"
| "prefix_calls cs (UImage p as t) = UImage p as (cs @ t)"
| "prefix_calls cs (UInCall t) = UInCall (cs @ t)"

fun calls :: "'a uout \<Rightarrow> ucall list" where
  "calls (URet a rs t) = t"
| "calls (UExit n t) = t"
| "calls (UImage p as t) = t"
| "calls (UInCall t) = t"

type_synonym 'a uprog = "ures list \<Rightarrow> 'a uout"

definition ureturn :: "'a \<Rightarrow> 'a uprog" where
  "ureturn a = (\<lambda>rs. URet a rs [])"

definition ubind :: "'a uprog \<Rightarrow> ('a \<Rightarrow> 'b uprog) \<Rightarrow> 'b uprog" where
  "ubind m f = (\<lambda>rs. case m rs of
       URet a rs t \<Rightarrow> prefix_calls t (f a rs)
     | UExit n t \<Rightarrow> UExit n t
     | UImage p as t \<Rightarrow> UImage p as t
     | UInCall t \<Rightarrow> UInCall t)"

text \<open>A call and the value it returns, \<open>exit\<close> and \<open>exec\<close>, which returns only when it fails.\<close>

definition ucall :: "ucall \<Rightarrow> ures uprog" where
  "ucall c = (\<lambda>rs. case rs of [] \<Rightarrow> UInCall [c] | r # rs \<Rightarrow> URet r rs [c])"

definition uexit :: "int \<Rightarrow> 'a uprog" where
  "uexit n = (\<lambda>rs. UExit n [Uexit n])"

definition uexec :: "u8 list \<Rightarrow> u8 list list \<Rightarrow> int uprog" where
  "uexec p as = (\<lambda>rs. case rs of
       [] \<Rightarrow> UInCall [Uexec p as]
     | r # rs \<Rightarrow> if fst r < 0 then URet (fst r) rs [Uexec p as] else UImage p as [Uexec p as])"

lemma ubind_cong [fundef_cong]:
  "m rs = m' rs \<Longrightarrow> (\<And>a rs' t. m' rs = URet a rs' t \<Longrightarrow> f a rs' = g a rs') \<Longrightarrow> rs = rs2 \<Longrightarrow> ubind m f rs = ubind m' g rs2"
  by (auto simp: ubind_def split: uout.splits)

lemma ubind_simps [simp]:
  "ubind (ureturn a) f rs = prefix_calls [] (f a rs)" "ubind (uexit n) f rs = UExit n [Uexit n]"
  "ubind (ucall c) f [] = UInCall [c]" "ubind (ucall c) f (r # rs) = prefix_calls [c] (f r rs)"
  by (simp_all add: ubind_def ureturn_def uexit_def ucall_def)

lemma prefix_calls_Nil [simp]: "prefix_calls [] x = x"
  by (cases x) simp_all

lemma prefix_calls_append [simp]: "prefix_calls as (prefix_calls bs x) = prefix_calls (as @ bs) x"
  by (cases x) simp_all

lemma ubind_assoc: "ubind (ubind m f) g = ubind m (\<lambda>a. ubind (f a) g)"
proof
  fix rs
  show "ubind (ubind m f) g rs = ubind m (\<lambda>a. ubind (f a) g) rs"
  proof (cases "m rs")
    case (URet a rs' t)
    then show ?thesis by (cases "f a rs'") (simp_all add: ubind_def)
  qed (simp_all add: ubind_def)
qed

lemma ubind_fun [simp]: "ubind (ureturn a) f = f a" "ubind (uexit n) f = uexit n"
  by (simp_all add: fun_eq_iff ubind_def ureturn_def uexit_def)

lemma prefix_calls_URet: "prefix_calls cs x = URet a rs t \<longleftrightarrow> (\<exists>t'. x = URet a rs t' \<and> t = cs @ t')"
  by (cases x) auto

lemma ubind_URet:
  "ubind m f rs = URet b rs'' t \<longleftrightarrow> (\<exists>a rs' t1 t2. m rs = URet a rs' t1 \<and> f a rs' = URet b rs'' t2 \<and> t = t1 @ t2)"
  by (cases "m rs") (auto simp: ubind_def prefix_calls_URet)

text \<open>A program never puts results back.\<close>

definition consumes :: "'a uprog \<Rightarrow> bool" where
  "consumes m \<longleftrightarrow> (\<forall>rs a rs' t. m rs = URet a rs' t \<longrightarrow> length rs' \<le> length rs)"

lemma consumesD: "consumes m \<Longrightarrow> m rs = URet a rs' t \<Longrightarrow> length rs' \<le> length rs"
  by (simp add: consumes_def)

lemma ucall_less: "ucall c rs = URet r rs' t \<Longrightarrow> length rs' < length rs"
  by (auto simp: ucall_def split: list.splits)

lemma consumes_ucall [simp, intro]: "consumes (ucall c)"
  using ucall_less by (fastforce simp: consumes_def)

lemma consumes_ureturn [simp, intro]: "consumes (ureturn a)" "consumes (uexit n)"
  by (simp_all add: consumes_def ureturn_def uexit_def)

lemma consumes_uexec [simp, intro]: "consumes (uexec p as)"
  by (auto simp: consumes_def uexec_def split: list.splits if_splits)

lemma consumes_ubind [intro]: "consumes m \<Longrightarrow> (\<And>a. consumes (f a)) \<Longrightarrow> consumes (ubind m f)"
  by (fastforce simp: consumes_def ubind_URet)

lemma consumes_if [intro]: "(b \<Longrightarrow> consumes m) \<Longrightarrow> (\<not> b \<Longrightarrow> consumes m') \<Longrightarrow> consumes (if b then m else m')"
  by simp

lemma consumes_prod [intro]: "(\<And>a b. consumes (f a b)) \<Longrightarrow> consumes (case p of (a, b) \<Rightarrow> f a b)"
  by (cases p) simp

section \<open>printf.c: the calls\<close>

text \<open>\<open>vprintf\<close> writes the bytes of \<^const>\<open>vprintf\<close> one call of \<open>write\<close> each, whatever the calls return.\<close>

fun putcs :: "int \<Rightarrow> u8 list \<Rightarrow> unit uprog" where
  "putcs fd [] = ureturn ()"
| "putcs fd (b # bs) = ubind (ucall (Uwrite fd [b])) (\<lambda>_. putcs fd bs)"

definition ufprintf :: "int \<Rightarrow> string \<Rightarrow> varg list \<Rightarrow> unit uprog" where
  "ufprintf fd fmt args = putcs fd (the (vprintf (ascii fmt) args))"

definition uprintf :: "string \<Rightarrow> varg list \<Rightarrow> unit uprog" where
  "uprintf fmt args = ufprintf 1 fmt args"

text \<open>A format with a newline at its end.\<close>

definition nl :: "string \<Rightarrow> string" where
  "nl s = s @ [CHR 0x0A]"

lemma consumes_putcs [simp, intro]: "consumes (putcs fd bs)"
  by (induction bs) auto

lemma consumes_uprintf [simp, intro]: "consumes (ufprintf fd fmt args)" "consumes (uprintf fmt args)"
  by (simp_all add: uprintf_def ufprintf_def)

section \<open>ulib.c\<close>

text \<open>A C string is the list of its bytes; \<open>NUL\<close> ends it or the list does.\<close>

definition ustart :: "int uprog \<Rightarrow> unit uprog" where
  "ustart main = ubind main uexit"

fun ustrcpy :: "u8 list \<Rightarrow> u8 list" where
  "ustrcpy [] = [0]"
| "ustrcpy (c # t) = (if c = 0 then [0] else c # ustrcpy t)"

fun ustrcmp :: "u8 list \<Rightarrow> u8 list \<Rightarrow> int" where
  "ustrcmp (p # ps) (q # qs) = (if p \<noteq> 0 \<and> p = q then ustrcmp ps qs else uint p - uint q)"
| "ustrcmp (p # ps) [] = uint p"
| "ustrcmp [] (q # qs) = - uint q"
| "ustrcmp [] [] = 0"

fun ustrlen :: "u8 list \<Rightarrow> nat" where
  "ustrlen [] = 0"
| "ustrlen (c # s) = (if c = 0 then 0 else Suc (ustrlen s))"

definition umemset :: "u64 \<Rightarrow> int \<Rightarrow> nat \<Rightarrow> memory \<Rightarrow> memory" where
  "umemset dst c n m = fold (\<lambda>i m. m(dst + of_nat i := of_int c)) [0..<n] m"

fun ustrchr :: "u8 list \<Rightarrow> u8 \<Rightarrow> nat option" where
  "ustrchr [] c = None"
| "ustrchr (x # xs) c = (if x = 0 then None else if x = c then Some 0 else map_option Suc (ustrchr xs c))"

text \<open>\<open>gets\<close>: \<open>buf\<close> holds the \<open>i\<close> bytes stored so far.\<close>

function gets_loop :: "int \<Rightarrow> u8 list \<Rightarrow> (u8 list) uprog" where
  "gets_loop mx buf rs =
     (if int (length buf) + 1 < mx then
        ubind (ucall (Uread 0 1)) (\<lambda>r rs.
          if fst r < 1 then ureturn buf rs
          else let c = hd (snd r); buf = buf @ [c]
               in if c = 10 \<or> c = 13 then ureturn buf rs else gets_loop mx buf rs) rs
      else ureturn buf rs)"
  by pat_completeness auto
termination
  by (relation "measure (\<lambda>(mx, buf, rs). length rs)") (auto dest: ucall_less)

declare gets_loop.simps [simp del]

definition gets :: "int \<Rightarrow> (u8 list) uprog" where
  "gets mx = ubind (gets_loop mx []) (\<lambda>buf. ureturn (buf @ [0]))"

definition ustat :: "u8 list \<Rightarrow> ures uprog" where
  "ustat n =
     ubind (ucall (Uopen n O_RDONLY)) (\<lambda>(fd, _).
       if fd < 0 then ureturn (-1, [])
       else ubind (ucall (Ufstat fd)) (\<lambda>r.
            ubind (ucall (Uclose fd)) (\<lambda>_. ureturn r)))"

lemma consumes_ustat [simp, intro]: "consumes (ustat n)"
  unfolding ustat_def by (intro consumes_ubind consumes_prod consumes_if consumes_ucall consumes_ureturn)

fun atoi_loop :: "int \<Rightarrow> u8 list \<Rightarrow> int" where
  "atoi_loop n [] = n"
| "atoi_loop n (c # s) = (if 48 \<le> c \<and> c \<le> 57 then atoi_loop (int32 (n * 10 + uint c - 48)) s else n)"

definition atoi :: "u8 list \<Rightarrow> int" where
  "atoi s = atoi_loop 0 s"

definition umemmove :: "u64 \<Rightarrow> u64 \<Rightarrow> int \<Rightarrow> memory \<Rightarrow> memory" where
  "umemmove dst src n m =
     (if dst < src then copy_up (nat n) dst src m
      else copy_down (nat n) (dst + of_int n) (src + of_int n) m)"

fun umemcmp :: "memory \<Rightarrow> u64 \<Rightarrow> u64 \<Rightarrow> nat \<Rightarrow> int" where
  "umemcmp m s1 s2 0 = 0"
| "umemcmp m s1 s2 (Suc n) =
     (if m s1 \<noteq> m s2 then uint (m s1) - uint (m s2) else umemcmp m (s1 + 1) (s2 + 1) n)"

definition umemcpy :: "u64 \<Rightarrow> u64 \<Rightarrow> nat \<Rightarrow> memory \<Rightarrow> memory" where
  "umemcpy dst src n m = umemmove dst src (int32 (int n)) m"

abbreviation (input) SBRK_EAGER :: int where "SBRK_EAGER \<equiv> 1"
abbreviation (input) SBRK_LAZY :: int where "SBRK_LAZY \<equiv> 2"

definition usbrk :: "int \<Rightarrow> ures uprog" where
  "usbrk n = ucall (Usbrk n SBRK_EAGER)"

definition usbrklazy :: "int \<Rightarrow> ures uprog" where
  "usbrklazy n = ucall (Usbrk n SBRK_LAZY)"

section \<open>Running against a kernel\<close>

text \<open>
  \<open>serves env e cs us e'\<close>: the environment \<open>env\<close>, from state \<open>e\<close>, answers the calls \<open>cs\<close> with the
  results \<open>us\<close>.  \<open>completes\<close>: served that way, the program returns.
\<close>

fun serves :: "(ucall \<Rightarrow> 'e \<Rightarrow> ures \<times> 'e) \<Rightarrow> 'e \<Rightarrow> ucall list \<Rightarrow> ures list \<Rightarrow> 'e \<Rightarrow> bool" where
  "serves env e [] us e' \<longleftrightarrow> us = [] \<and> e = e'"
| "serves env e (c # cs) us e' \<longleftrightarrow> (\<exists>vs. us = fst (env c e) # vs \<and> serves env (snd (env c e)) cs vs e')"

definition completes :: "(ucall \<Rightarrow> 'e \<Rightarrow> ures \<times> 'e) \<Rightarrow> 'e \<Rightarrow> 'a uprog \<Rightarrow> 'a \<Rightarrow> 'e \<Rightarrow> ucall list \<Rightarrow> bool" where
  "completes env e m a e' t \<longleftrightarrow> (\<exists>us. serves env e t us e' \<and> (\<forall>rs. m (us @ rs) = URet a rs t))"

lemma serves_append:
  "serves env e cs us e1 \<Longrightarrow> serves env e1 ds vs e2 \<Longrightarrow> serves env e (cs @ ds) (us @ vs) e2"
  by (induction cs arbitrary: e us) auto

lemma completes_ureturn: "completes env e (ureturn a) a e []"
  by (simp add: completes_def ureturn_def)

lemma completes_ucall: "completes env e (ucall c) (fst (env c e)) (snd (env c e)) [c]"
  by (simp add: completes_def ucall_def)

lemma completes_ubind:
  assumes "completes env e m a e1 t1" "completes env e1 (f a) b e2 t2"
  shows "completes env e (ubind m f) b e2 (t1 @ t2)"
proof -
  obtain us where us: "serves env e t1 us e1" "\<And>rs. m (us @ rs) = URet a rs t1" using assms(1) by (auto simp: completes_def)
  obtain vs where vs: "serves env e1 t2 vs e2" "\<And>rs. f a (vs @ rs) = URet b rs t2" using assms(2) by (auto simp: completes_def)
  have "ubind m f ((us @ vs) @ rs) = URet b rs (t1 @ t2)" for rs by (simp add: ubind_def us(2) vs(2))
  then show ?thesis using serves_append [OF us(1) vs(1)] unfolding completes_def by blast
qed

lemma completes_cong: "completes env e m a e' t \<Longrightarrow> (\<And>rs. m rs = m' rs) \<Longrightarrow> completes env e m' a e' t"
  by (simp add: completes_def)

text \<open>
  A kernel in which descriptor \<open>fd\<close> delivers the bytes of a file or pipe, in pieces whose sizes \<open>chunk\<close>
  chooses, and every write succeeds.
\<close>

record fenv =
  fe_in :: "u8 list"
  fe_out :: "(int \<times> u8 list) list"

definition file_env :: "int \<Rightarrow> (nat \<Rightarrow> u8 list \<Rightarrow> nat) \<Rightarrow> ucall \<Rightarrow> fenv \<Rightarrow> ures \<times> fenv" where
  "file_env fd chunk c e =
     (case c of
        Uread f n \<Rightarrow>
          if f = fd then let k = chunk (nat n) (fe_in e) in ((int k, take k (fe_in e)), e\<lparr>fe_in := drop k (fe_in e)\<rparr>)
          else ((-1, []), e)
      | Uwrite f b \<Rightarrow> ((int (length b), []), e\<lparr>fe_out := fe_out e @ [(f, b)]\<rparr>)
      | _ \<Rightarrow> ((-1, []), e))"

lemma file_env_simps [simp]:
  "file_env fd chunk (Uread fd n) e = ((int (chunk (nat n) (fe_in e)), take (chunk (nat n) (fe_in e)) (fe_in e)),
     e\<lparr>fe_in := drop (chunk (nat n) (fe_in e)) (fe_in e)\<rparr>)"
  "file_env fd chunk (Uwrite f b) e = ((int (length b), []), e\<lparr>fe_out := fe_out e @ [(f, b)]\<rparr>)"
  by (simp_all add: file_env_def Let_def)

definition good_chunk :: "(nat \<Rightarrow> u8 list \<Rightarrow> nat) \<Rightarrow> bool" where
  "good_chunk chunk \<longleftrightarrow> (\<forall>n bs. chunk n bs \<le> n \<and> chunk n bs \<le> length bs \<and> (0 < n \<longrightarrow> bs \<noteq> [] \<longrightarrow> 0 < chunk n bs))"

lemma good_chunkD:
  "good_chunk chunk \<Longrightarrow> chunk n bs \<le> n" "good_chunk chunk \<Longrightarrow> chunk n bs \<le> length bs"
  "good_chunk chunk \<Longrightarrow> 0 < n \<Longrightarrow> bs \<noteq> [] \<Longrightarrow> 0 < chunk n bs"
  by (auto simp: good_chunk_def)

text \<open>A program that writes the blocks \<open>ws\<close> to \<open>fd\<close> and ignores the results.\<close>

lemma completes_putcs:
  "completes (file_env fd chunk) e (putcs f bs) () (e\<lparr>fe_out := fe_out e @ map (\<lambda>b. (f, [b])) bs\<rparr>) (map (\<lambda>b. Uwrite f [b]) bs)"
proof (induction bs arbitrary: e)
  case Nil
  then show ?case using completes_ureturn [of "file_env fd chunk" e "()"] by simp
next
  case (Cons b bs)
  show ?case
    using completes_ubind [OF completes_ucall [of "file_env fd chunk" e "Uwrite f [b]"], of "\<lambda>_. putcs f bs"]
      Cons.IH [of "e\<lparr>fe_out := fe_out e @ [(f, [b])]\<rparr>"]
    by simp
qed

section \<open>The copies of the two libraries agree\<close>

lemma umemmove_eq:
  assumes "unat src + n < 2 ^ 64" and "unat dst + n < 2 ^ 64"
  shows "umemmove dst src (int n) m = write_bytes dst (read_bytes m src n) m"
proof (cases "dst < src")
  case True
  have "copy_up n dst src m = write_bytes dst (read_bytes m src n) m"
  proof (rule copy_up_eq)
    fix i j assume "i < j" "j < n"
    then have "unat (dst + of_nat i) < unat (src + of_nat j)"
      using True assms by (simp add: unat_add_of_nat word_less_nat_alt)
    then show "src + of_nat j \<noteq> dst + of_nat i" by auto
  qed (use assms in simp)
  with True show ?thesis by (simp add: umemmove_def)
next
  case False
  have "copy_down n (dst + of_nat n) (src + of_nat n) m = write_bytes dst (read_bytes m src n) m"
  proof (rule copy_down_eq)
    fix i j assume "i < j" "j < n"
    then have "unat (src + of_nat i) < unat (dst + of_nat j)"
      using False assms by (simp add: unat_add_of_nat word_less_nat_alt)
    then show "src + of_nat i \<noteq> dst + of_nat j" by auto
  qed (use assms in simp)
  with False show ?thesis by (simp add: umemmove_def)
qed

lemma umemmove_memmove:
  "unat src + n < 2 ^ 64 \<Longrightarrow> unat dst + n < 2 ^ 64 \<Longrightarrow> umemmove dst src (int n) m = memmove dst src n m"
  by (simp add: umemmove_eq memmove_eq)

lemma umemcmp_memcmp: "umemcmp m a b n = memcmp m a b n"
  by (induction n arbitrary: a b) simp_all

lemma ustrchr_Some:
  "ustrchr s c = Some k \<longleftrightarrow> k < length s \<and> s ! k = c \<and> c \<noteq> 0 \<and> (\<forall>i<k. s ! i \<noteq> c \<and> s ! i \<noteq> 0)"
proof (induction s arbitrary: k)
  case (Cons x xs)
  show ?case
  proof (cases k)
    case 0
    then show ?thesis by (auto split: if_splits)
  next
    case (Suc j)
    then show ?thesis using Cons.IH [of j] by (auto simp: nth_Cons' less_Suc_eq_0_disj split: if_splits)
  qed
qed simp

lemma ustrchr_None: "0 \<notin> set s \<Longrightarrow> ustrchr s c = None \<longleftrightarrow> c \<notin> set s"
  by (induction s) auto

end
