(* ===== verification/Grep.thy ===== *)
theory Grep
  imports Ulib
begin

text \<open>
  \<^verbatim>\<open>user/grep.c\<close>: the matcher for \<open>^ . * $\<close> and the loop that cuts the input into lines.  Patterns
  and lines are C strings, lists without a NUL; reading past the end reads the NUL that ends them.
\<close>

abbreviation (input) c_star :: u8 where "c_star \<equiv> 42"
abbreviation (input) c_dot :: u8 where "c_dot \<equiv> 46"
abbreviation (input) c_hat :: u8 where "c_hat \<equiv> 94"
abbreviation (input) c_dollar :: u8 where "c_dollar \<equiv> 36"
abbreviation (input) c_nl :: u8 where "c_nl \<equiv> 10"

section \<open>The matcher\<close>

function matchhere :: "u8 list \<Rightarrow> u8 list \<Rightarrow> bool"
  and matchstar :: "u8 \<Rightarrow> u8 list \<Rightarrow> u8 list \<Rightarrow> bool" where
  "matchhere re text =
     (case re of
        [] \<Rightarrow> True
      | c # re' \<Rightarrow>
          if re' \<noteq> [] \<and> hd re' = c_star then matchstar c (tl re') text
          else if c = c_dollar \<and> re' = [] then text = []
          else if text \<noteq> [] \<and> (c = c_dot \<or> c = hd text) then matchhere re' (tl text)
          else False)"
| "matchstar c re text =
     (if matchhere re text then True
      else if text \<noteq> [] \<and> (hd text = c \<or> c = c_dot) then matchstar c re (tl text)
      else False)"
  by pat_completeness auto
termination
proof (relation "measures [\<lambda>x. case x of Inl (re, text) \<Rightarrow> 2 * length re | Inr (c, re, text) \<Rightarrow> 2 * length re + 1,
    \<lambda>x. case x of Inl (re, text) \<Rightarrow> length text | Inr (c, re, text) \<Rightarrow> length text]")
qed (auto simp: neq_Nil_conv)

declare matchhere.simps [simp del] matchstar.simps [simp del]

fun match_loop :: "u8 list \<Rightarrow> u8 list \<Rightarrow> bool" where
  "match_loop re [] = matchhere re []"
| "match_loop re (c # text) = (if matchhere re (c # text) then True else match_loop re text)"

definition match :: "u8 list \<Rightarrow> u8 list \<Rightarrow> bool" where
  "match re text =
     (if re \<noteq> [] \<and> hd re = c_hat then matchhere (tl re) text else match_loop re text)"

section \<open>The loop over the input\<close>

text \<open>
  The lines in the buffer from \<open>p\<close> on; the result is what is left behind the last newline.
\<close>

function grep_lines :: "u8 list \<Rightarrow> u8 list \<Rightarrow> (u8 list) uprog" where
  "grep_lines pattern p =
     (case ustrchr p c_nl of
        None \<Rightarrow> ureturn p
      | Some q \<Rightarrow>
          ubind (if match pattern (take q p) then ubind (ucall (Uwrite 1 (take (q + 1) p))) (\<lambda>_. ureturn ()) else ureturn ())
            (\<lambda>_. grep_lines pattern (drop (q + 1) p)))"
  by pat_completeness auto
termination
  by (relation "measure (\<lambda>(pattern, p). length p)") (auto simp: ustrchr_Some)

declare grep_lines.simps [simp del]

lemma consumes_grep_lines [simp, intro]: "consumes (grep_lines pattern p)"
proof (induction pattern p rule: grep_lines.induct)
  case (1 pattern p)
  then show ?case by (subst grep_lines.simps) (auto split: option.split)
qed

text \<open>\<open>buf\<close> holds the \<open>m\<close> bytes kept from before.\<close>

function grep :: "u8 list \<Rightarrow> int \<Rightarrow> u8 list \<Rightarrow> unit uprog" where
  "grep pattern fd buf rs =
     ubind (ucall (Uread fd (1024 - int (length buf) - 1))) (\<lambda>r rs.
       if fst r > 0 then
         let buf = buf @ take (nat (fst r)) (snd r)
         in ubind (grep_lines pattern buf) (\<lambda>p rs. grep pattern fd p rs) rs
       else ureturn () rs) rs"
  by pat_completeness auto
termination
proof (relation "measure (\<lambda>(pattern, fd, buf, rs). length rs)")
  fix pattern buf x :: "u8 list" and fd :: int and rs rs' rs'' :: "ures list" and r t a t'
  assume "ucall (Uread fd (1024 - int (length buf) - 1)) rs = URet r rs' t" and "grep_lines pattern x rs' = URet a rs'' t'"
  then have "length rs'' < length rs"
    using ucall_less consumesD [OF consumes_grep_lines] by (metis order_le_less_trans)
  then show "((pattern, fd, a, rs''), pattern, fd, buf, rs) \<in> measure (\<lambda>(pattern, fd, buf, rs). length rs)" by simp
qed simp

declare grep.simps [simp del]

fun grep_files :: "u8 list \<Rightarrow> u8 list list \<Rightarrow> int uprog" where
  "grep_files pattern [] = uexit 0"
| "grep_files pattern (a # as) =
     ubind (ucall (Uopen a O_RDONLY)) (\<lambda>(fd, _).
       if fd < 0 then ubind (uprintf (''grep: cannot open %s'' @ [CHR 0x0A]) [VStr (Some a)]) (\<lambda>_. uexit 1)
       else ubind (grep pattern fd []) (\<lambda>_. ubind (ucall (Uclose fd)) (\<lambda>_. grep_files pattern as)))"

definition grep_main :: "u8 list list \<Rightarrow> int uprog" where
  "grep_main argv =
     (if length argv \<le> 1 then
        ubind (ufprintf 2 (''usage: grep pattern [file ...]'' @ [CHR 0x0A]) []) (\<lambda>_. uexit 1)
      else let pattern = argv ! 1
           in if length argv \<le> 2 then ubind (grep pattern 0 []) (\<lambda>_. uexit 0)
              else grep_files pattern (drop 2 argv))"

section \<open>What a pattern means\<close>

text \<open>
  \<open>re_match re t rest\<close>: the pattern \<open>re\<close> matches the part of \<open>t\<close> before \<open>rest\<close>.  A star takes the
  character before it, a final \<open>$\<close> matches only at the end of the text.
\<close>

definition atom :: "u8 \<Rightarrow> u8 \<Rightarrow> bool" where
  "atom c x \<longleftrightarrow> c = c_dot \<or> x = c"

inductive re_match :: "u8 list \<Rightarrow> u8 list \<Rightarrow> u8 list \<Rightarrow> bool" where
  re_empty: "re_match [] t t"
| re_end: "re_match [c_dollar] [] []"
| re_star: "(\<And>x. x \<in> set u \<Longrightarrow> atom c x) \<Longrightarrow> re_match re t r \<Longrightarrow> re_match (c # c_star # re) (u @ t) r"
| re_char: "atom c x \<Longrightarrow> re_match re t r \<Longrightarrow> re = [] \<or> hd re \<noteq> c_star \<Longrightarrow> \<not> (c = c_dollar \<and> re = []) \<Longrightarrow>
    re_match (c # re) (x # t) r"

inductive_cases re_match_Nil: "re_match [] t r"
inductive_cases re_match_Cons: "re_match (c # re) t r"

lemma matcher_spec:
  "matchhere re text \<longleftrightarrow> (\<exists>r. re_match re text r)"
  "matchstar c re text \<longleftrightarrow> (\<exists>u t r. text = u @ t \<and> (\<forall>x\<in>set u. atom c x) \<and> re_match re t r)"
proof (induction re "text" and c re "text" rule: matchhere_matchstar.induct)
  case (1 re "text")
  show ?case
  proof (cases re)
    case Nil
    then show ?thesis by (auto simp: matchhere.simps intro: re_empty)
  next
    case (Cons c re')
    consider (star) re2 where "re' = c_star # re2" | (dollar) "re' = []" "c = c_dollar"
      | (char) "re' = [] \<or> hd re' \<noteq> c_star" "\<not> (c = c_dollar \<and> re' = [])"
      by (cases re') auto
    then show ?thesis
    proof cases
      case star
      then have "matchhere re text \<longleftrightarrow> matchstar c re2 text" by (simp add: Cons matchhere.simps)
      also have "\<dots> \<longleftrightarrow> (\<exists>u t r. text = u @ t \<and> (\<forall>x\<in>set u. atom c x) \<and> re_match re2 t r)"
        using "1.IH"(1) [OF Cons] star by simp
      also have "\<dots> \<longleftrightarrow> (\<exists>r. re_match re text r)"
        unfolding Cons star by (auto intro: re_star elim!: re_match_Cons)
      finally show ?thesis .
    next
      case dollar
      then show ?thesis by (auto simp: Cons matchhere.simps intro: re_end elim!: re_match_Cons)
    next
      case char
      then have m: "matchhere re text \<longleftrightarrow> text \<noteq> [] \<and> (c = c_dot \<or> c = hd text) \<and> matchhere re' (tl text)"
        by (auto simp: Cons matchhere.simps [of "c # re'"])
      have ih: "matchhere re' (tl text) \<longleftrightarrow> (\<exists>r. re_match re' (tl text) r)" if "text \<noteq> []" "c = c_dot \<or> c = hd text"
        using "1.IH"(2) [OF Cons] char that by blast
      show ?thesis
      proof (cases "text")
        case Nil
        then show ?thesis using m char by (auto simp: Cons elim!: re_match_Cons)
      next
        case tx: (Cons x t)
        have "(\<exists>r. re_match re text r) \<longleftrightarrow> atom c x \<and> (\<exists>r. re_match re' t r)"
          unfolding Cons tx using char by (auto intro: re_char elim!: re_match_Cons)
        then show ?thesis using m ih tx by (auto simp: atom_def)
      qed
    qed
  qed
next
  case (2 c re "text")
  show ?case
  proof (cases "matchhere re text")
    case True
    then obtain r where "re_match re text r" using "2.IH"(1) by blast
    then have "\<exists>u t r. text = u @ t \<and> (\<forall>x\<in>set u. atom c x) \<and> re_match re t r"
      by (intro exI [of _ "[]"] exI [of _ "text"] exI [of _ r]) simp
    then show ?thesis using True by (subst matchstar.simps) simp
  next
    case False
    then have no: "\<not> re_match re text r" for r using "2.IH"(1) by blast
    show ?thesis
    proof (cases "text")
      case Nil
      then show ?thesis using no False by (subst matchstar.simps) auto
    next
      case (Cons x t)
      have split: "(\<exists>u t' r. text = u @ t' \<and> (\<forall>x\<in>set u. atom c x) \<and> re_match re t' r)
          \<longleftrightarrow> atom c x \<and> (\<exists>u t' r. t = u @ t' \<and> (\<forall>x\<in>set u. atom c x) \<and> re_match re t' r)"
        using no unfolding Cons by (auto simp: Cons_eq_append_conv) (metis append_Cons set_ConsD)+
      show ?thesis
        unfolding split using False "2.IH"(2) [OF False] Cons by (subst matchstar.simps) (auto simp: atom_def)
    qed
  qed
qed

lemma match_loop_spec: "match_loop re text \<longleftrightarrow> (\<exists>a t r. text = a @ t \<and> re_match re t r)"
proof (induction "text")
  case Nil
  then show ?case by (simp add: matcher_spec)
next
  case (Cons c "text")
  have "(\<exists>a t r. c # text = a @ t \<and> re_match re t r) \<longleftrightarrow> (\<exists>r. re_match re (c # text) r) \<or> (\<exists>a t r. text = a @ t \<and> re_match re t r)"
    by (auto simp: Cons_eq_append_conv)
  then show ?case using Cons by (auto simp: matcher_spec)
qed

text \<open>C34: \<open>match\<close> decides the meaning of patterns: with a leading \<open>^\<close> the rest of the pattern matches
  at the start of the text, without it the pattern matches somewhere in it.\<close>

theorem match_decides:
  "match re text \<longleftrightarrow>
     (if re \<noteq> [] \<and> hd re = c_hat then \<exists>r. re_match (tl re) text r
      else \<exists>a t r. text = a @ t \<and> re_match re t r)"
  by (simp add: match_def matcher_spec match_loop_spec)

section \<open>Lines\<close>












end
