(* ===== verification/Uprogs.thy ===== *)
theory Uprogs
  imports Ulib
begin

text \<open>
  The small user programs: \<^verbatim>\<open>echo\<close>, \<^verbatim>\<open>cat\<close>, \<^verbatim>\<open>wc\<close>, \<^verbatim>\<open>kill\<close>, \<^verbatim>\<open>ln\<close>, \<^verbatim>\<open>mkdir\<close>, \<^verbatim>\<open>rm\<close>, \<^verbatim>\<open>ls\<close>,
  \<^verbatim>\<open>init\<close>, \<^verbatim>\<open>zombie\<close>, \<^verbatim>\<open>forktest\<close>, \<^verbatim>\<open>stressfs\<close>, \<^verbatim>\<open>forphan\<close> and \<^verbatim>\<open>dorphan\<close>.
  A \<open>main\<close> takes its argument vector.
\<close>

section \<open>echo.c\<close>

fun echo_args :: "u8 list list \<Rightarrow> int uprog" where
  "echo_args [] = uexit 0"
| "echo_args (a # as) =
     ubind (ucall (Uwrite 1 a)) (\<lambda>_.
     ubind (if as \<noteq> [] then ucall (Uwrite 1 (ascii '' '')) else ucall (Uwrite 1 [10])) (\<lambda>_. echo_args as))"

definition echo_main :: "u8 list list \<Rightarrow> int uprog" where
  "echo_main argv = echo_args (drop 1 argv)"

section \<open>cat.c\<close>

function cat :: "int \<Rightarrow> unit uprog" where
  "cat fd rs =
     ubind (ucall (Uread fd 512)) (\<lambda>r rs.
       if fst r > 0 then
         ubind (ucall (Uwrite 1 (take (nat (fst r)) (snd r)))) (\<lambda>w rs.
           if fst w \<noteq> fst r then ubind (ufprintf 2 (nl ''cat: write error'') []) (\<lambda>_. uexit 1) rs
           else cat fd rs) rs
       else if fst r < 0 then ubind (ufprintf 2 (nl ''cat: read error'') []) (\<lambda>_. uexit 1) rs
       else ureturn () rs) rs"
  by pat_completeness auto
termination
  by (relation "measure (\<lambda>(fd, rs). length rs)") (auto dest!: ucall_less)

declare cat.simps [simp del]

fun cat_files :: "u8 list list \<Rightarrow> int uprog" where
  "cat_files [] = uexit 0"
| "cat_files (a # as) =
     ubind (ucall (Uopen a O_RDONLY)) (\<lambda>(fd, _).
       if fd < 0 then ubind (ufprintf 2 (nl ''cat: cannot open %s'') [VStr (Some a)]) (\<lambda>_. uexit 1)
       else ubind (cat fd) (\<lambda>_. ubind (ucall (Uclose fd)) (\<lambda>_. cat_files as)))"

definition cat_main :: "u8 list list \<Rightarrow> int uprog" where
  "cat_main argv =
     (if length argv \<le> 1 then ubind (cat 0) (\<lambda>_. uexit 0) else cat_files (drop 1 argv))"

section \<open>wc.c\<close>

record wcount =
  wc_l :: int
  wc_w :: int
  wc_c :: int
  wc_inword :: bool

definition wc_byte :: "u8 \<Rightarrow> wcount \<Rightarrow> wcount" where
  "wc_byte b k =
     (let k = k\<lparr>wc_c := int32 (wc_c k + 1)\<rparr>;
          k = (if b = 10 then k\<lparr>wc_l := int32 (wc_l k + 1)\<rparr> else k)
      in if ustrchr [32, 13, 9, 10, 11] b \<noteq> None then k\<lparr>wc_inword := False\<rparr>
         else if \<not> wc_inword k then k\<lparr>wc_w := int32 (wc_w k + 1), wc_inword := True\<rparr>
         else k)"

function wc_loop :: "int \<Rightarrow> wcount \<Rightarrow> wcount uprog" where
  "wc_loop fd k rs =
     ubind (ucall (Uread fd 512)) (\<lambda>r rs.
       if fst r > 0 then wc_loop fd (fold wc_byte (take (nat (fst r)) (snd r)) k) rs
       else if fst r < 0 then ubind (uprintf (nl ''wc: read error'') []) (\<lambda>_. uexit 1) rs
       else ureturn k rs) rs"
  by pat_completeness auto
termination
  by (relation "measure (\<lambda>(fd, k, rs). length rs)") (auto dest!: ucall_less)

declare wc_loop.simps [simp del]

definition wc :: "int \<Rightarrow> u8 list \<Rightarrow> unit uprog" where
  "wc fd name =
     ubind (wc_loop fd \<lparr>wc_l = 0, wc_w = 0, wc_c = 0, wc_inword = False\<rparr>) (\<lambda>k.
     uprintf (nl ''%d %d %d %s'')
       [VInt (of_int (wc_l k)), VInt (of_int (wc_w k)), VInt (of_int (wc_c k)), VStr (Some name)])"

fun wc_files :: "u8 list list \<Rightarrow> int uprog" where
  "wc_files [] = uexit 0"
| "wc_files (a # as) =
     ubind (ucall (Uopen a O_RDONLY)) (\<lambda>(fd, _).
       if fd < 0 then ubind (uprintf (nl ''wc: cannot open %s'') [VStr (Some a)]) (\<lambda>_. uexit 1)
       else ubind (wc fd a) (\<lambda>_. ubind (ucall (Uclose fd)) (\<lambda>_. wc_files as)))"

definition wc_main :: "u8 list list \<Rightarrow> int uprog" where
  "wc_main argv = (if length argv \<le> 1 then ubind (wc 0 []) (\<lambda>_. uexit 0) else wc_files (drop 1 argv))"

section \<open>kill.c, ln.c, mkdir.c, rm.c\<close>

fun kill_args :: "u8 list list \<Rightarrow> int uprog" where
  "kill_args [] = uexit 0"
| "kill_args (a # as) = ubind (ucall (Ukill (atoi a))) (\<lambda>_. kill_args as)"

definition kill_main :: "u8 list list \<Rightarrow> int uprog" where
  "kill_main argv =
     (if length argv < 2 then ubind (ufprintf 2 (nl ''usage: kill pid...'') []) (\<lambda>_. uexit 1)
      else kill_args (drop 1 argv))"

definition ln_main :: "u8 list list \<Rightarrow> int uprog" where
  "ln_main argv =
     (if length argv \<noteq> 3 then ubind (ufprintf 2 (nl ''Usage: ln old new'') []) (\<lambda>_. uexit 1)
      else ubind (ucall (Ulink (argv ! 1) (argv ! 2))) (\<lambda>(r, _).
           ubind (if r < 0 then ufprintf 2 (nl ''link %s %s: failed'') [VStr (Some (argv ! 1)), VStr (Some (argv ! 2))]
                  else ureturn ()) (\<lambda>_. uexit 0)))"

fun mkdir_args :: "u8 list list \<Rightarrow> int uprog" where
  "mkdir_args [] = uexit 0"
| "mkdir_args (a # as) =
     ubind (ucall (Umkdir a)) (\<lambda>(r, _).
       if r < 0 then ubind (ufprintf 2 (nl ''mkdir: %s failed to create'') [VStr (Some a)]) (\<lambda>_. uexit 0)
       else mkdir_args as)"

definition mkdir_main :: "u8 list list \<Rightarrow> int uprog" where
  "mkdir_main argv =
     (if length argv < 2 then ubind (ufprintf 2 (nl ''Usage: mkdir files...'') []) (\<lambda>_. uexit 1)
      else mkdir_args (drop 1 argv))"

fun rm_args :: "u8 list list \<Rightarrow> int uprog" where
  "rm_args [] = uexit 0"
| "rm_args (a # as) =
     ubind (ucall (Uunlink a)) (\<lambda>(r, _).
       if r < 0 then ubind (ufprintf 2 (nl ''rm: %s failed to delete'') [VStr (Some a)]) (\<lambda>_. uexit 0)
       else rm_args as)"

definition rm_main :: "u8 list list \<Rightarrow> int uprog" where
  "rm_main argv =
     (if length argv < 2 then ubind (ufprintf 2 (nl ''Usage: rm files...'') []) (\<lambda>_. uexit 1)
      else rm_args (drop 1 argv))"

section \<open>ls.c\<close>

text \<open>The part of a path behind its last slash, padded with blanks to \<open>DIRSIZ\<close>.\<close>

definition after_slash :: "u8 list \<Rightarrow> u8 list" where
  "after_slash path = rev (takeWhile (\<lambda>c. c \<noteq> 47) (rev path))"

definition fmtname :: "u8 list \<Rightarrow> u8 list" where
  "fmtname path =
     (let p = after_slash path
      in if length p \<ge> 14 then p else p @ replicate (14 - length p) 32)"

text \<open>The fields of the bytes of a \<^verbatim>\<open>struct stat\<close> that \<open>fstat\<close> delivers.\<close>

definition u_type :: "u8 list \<Rightarrow> int" where
  "u_type st = sint (word_of_bytes (take 2 (drop 8 st)) :: u16)"
definition u_ino :: "u8 list \<Rightarrow> u32" where
  "u_ino st = word_of_bytes (take 4 (drop 4 st))"
definition u_size :: "u8 list \<Rightarrow> u64" where
  "u_size st = word_of_bytes (take 8 (drop 16 st))"

abbreviation (input) T_DIR_u :: int where "T_DIR_u \<equiv> 1"
abbreviation (input) T_FILE_u :: int where "T_FILE_u \<equiv> 2"
abbreviation (input) T_DEVICE_u :: int where "T_DEVICE_u \<equiv> 3"

definition ls_entry :: "u8 list \<Rightarrow> u8 list \<Rightarrow> unit uprog" where
  "ls_entry path st =
     uprintf (nl ''%s %d %d %d'')
       [VStr (Some (fmtname path)), VInt (of_int (u_type st)), VInt (ucast (u_ino st)), VInt (u_size st)]"

function ls_dir :: "int \<Rightarrow> u8 list \<Rightarrow> unit uprog" where
  "ls_dir fd path rs =
     ubind (ucall (Uread fd 16)) (\<lambda>r rs.
       if fst r = 16 then
         let de = snd r
         in if (word_of_bytes (take 2 de) :: u16) = 0 then ls_dir fd path rs
            else let buf = path @ [47] @ takeWhile (\<lambda>c. c \<noteq> 0) (take 14 (drop 2 de))
                 in ubind (ustat buf) (\<lambda>st rs.
                      if fst st < 0 then
                        ubind (uprintf (nl ''ls: cannot stat %s'') [VStr (Some buf)]) (\<lambda>_ rs. ls_dir fd path rs) rs
                      else ubind (ls_entry buf (snd st)) (\<lambda>_ rs. ls_dir fd path rs) rs) rs
       else ureturn () rs) rs"
  by pat_completeness auto
termination
proof (relation "measure (\<lambda>(fd, path, rs). length rs)")
  fix fd :: int and path x :: "u8 list" and rs rs' rs'' rs3 :: "ures list" and r t st t' y t2
  assume 1: "ucall (Uread fd 16) rs = URet r rs' t" and 2: "ustat x rs' = URet st rs'' t'"
  have less: "length rs'' < length rs" using ucall_less [OF 1] consumesD [OF consumes_ustat 2] by simp
  {
    assume "uprintf (nl ''ls: cannot stat %s'') [VStr (Some x)] rs'' = URet y rs3 t2"
    then have "length rs3 \<le> length rs''" by (rule consumesD [OF consumes_uprintf(2)])
    with less show "((fd, path, rs3), fd, path, rs) \<in> measure (\<lambda>(fd, path, rs). length rs)" by simp
  next
    assume "ls_entry x (snd st) rs'' = URet y rs3 t2"
    then have "length rs3 \<le> length rs''" unfolding ls_entry_def by (rule consumesD [OF consumes_uprintf(2)])
    with less show "((fd, path, rs3), fd, path, rs) \<in> measure (\<lambda>(fd, path, rs). length rs)" by simp
  }
qed (auto dest: ucall_less)

declare ls_dir.simps [simp del]

definition ls :: "u8 list \<Rightarrow> unit uprog" where
  "ls path =
     ubind (ucall (Uopen path O_RDONLY)) (\<lambda>(fd, _).
       if fd < 0 then ufprintf 2 (nl ''ls: cannot open %s'') [VStr (Some path)]
       else ubind (ucall (Ufstat fd)) (\<lambda>(r, st).
            if r < 0 then
              ubind (ufprintf 2 (nl ''ls: cannot stat %s'') [VStr (Some path)]) (\<lambda>_.
              ubind (ucall (Uclose fd)) (\<lambda>_. ureturn ()))
            else
              ubind (if u_type st = T_DEVICE_u \<or> u_type st = T_FILE_u then ls_entry path st
                     else if u_type st = T_DIR_u then
                       if length path + 1 + 14 + 1 > 512 then uprintf (nl ''ls: path too long'') []
                       else ls_dir fd path
                     else ureturn ()) (\<lambda>_.
              ubind (ucall (Uclose fd)) (\<lambda>_. ureturn ()))))"

fun ls_args :: "u8 list list \<Rightarrow> int uprog" where
  "ls_args [] = uexit 0"
| "ls_args (a # as) = ubind (ls a) (\<lambda>_. ls_args as)"

definition ls_main :: "u8 list list \<Rightarrow> int uprog" where
  "ls_main argv = (if length argv < 2 then ubind (ls (ascii ''.'')) (\<lambda>_. uexit 0) else ls_args (drop 1 argv))"

section \<open>init.c\<close>

function init_wait :: "int \<Rightarrow> unit uprog" where
  "init_wait pid rs =
     ubind (ucall Uwait) (\<lambda>w rs.
       if fst w = pid then ureturn () rs
       else if fst w < 0 then ubind (uprintf (nl ''init: wait returned an error'') []) (\<lambda>_. uexit 1) rs
       else init_wait pid rs) rs"
  by pat_completeness auto
termination
  by (relation "measure (\<lambda>(pid, rs). length rs)") (auto dest!: ucall_less)

declare init_wait.simps [simp del]

lemma consumes_init_wait [simp, intro]: "consumes (init_wait pid)"
proof -
  have "init_wait pid rs = URet a rs' t \<Longrightarrow> length rs' \<le> length rs" for rs rs' a t
  proof (induction pid rs arbitrary: t rule: init_wait.induct)
    case (1 pid rs)
    then show ?case
      by (subst (asm) (2) init_wait.simps)
        (fastforce simp: ubind_URet ureturn_def uexit_def dest: ucall_less split: if_splits)
  qed
  then show ?thesis by (auto simp: consumes_def)
qed

function init_loop :: "int uprog" where
  "init_loop rs =
     ubind (uprintf (nl ''init: starting sh'') []) (\<lambda>_ rs.
     ubind (ucall Ufork) (\<lambda>p rs.
       if fst p < 0 then ubind (uprintf (nl ''init: fork failed'') []) (\<lambda>_. uexit 1) rs
       else if fst p = 0 then
         ubind (uexec (ascii ''sh'') [ascii ''sh'']) (\<lambda>_.
         ubind (uprintf (nl ''init: exec sh failed'') []) (\<lambda>_. uexit 1)) rs
       else ubind (init_wait (fst p)) (\<lambda>_ rs. init_loop rs) rs) rs) rs"
  by pat_completeness auto
termination
proof (relation "measure length")
  fix rs rs1 rs2 rs3 :: "ures list" and u t p t' v t2
  assume 1: "uprintf (nl ''init: starting sh'') [] rs = URet u rs1 t" and 2: "ucall Ufork rs1 = URet p rs2 t'"
    and 3: "init_wait (fst p) rs2 = URet v rs3 t2"
  show "(rs3, rs) \<in> measure length"
    using consumesD [OF consumes_uprintf(2) 1] ucall_less [OF 2] consumesD [OF consumes_init_wait 3] by simp
qed simp

declare init_loop.simps [simp del]

definition init_main :: "int uprog" where
  "init_main =
     ubind (ucall (Uopen (ascii ''console'') O_RDWR)) (\<lambda>(fd, _).
     ubind (if fd < 0 then
              ubind (ucall (Umknod (ascii ''console'') 1 0)) (\<lambda>_. ucall (Uopen (ascii ''console'') O_RDWR))
            else ureturn (fd, [])) (\<lambda>_.
     ubind (ucall (Udup 0)) (\<lambda>_.
     ubind (ucall (Udup 0)) (\<lambda>_. init_loop))))"

section \<open>Test programs\<close>

definition zombie_main :: "int uprog" where
  "zombie_main =
     ubind (ucall Ufork) (\<lambda>(p, _).
     ubind (if p > 0 then ubind (ucall (Upause 5)) (\<lambda>_. ureturn ()) else ureturn ()) (\<lambda>_. uexit 0))"

definition uprint :: "string \<Rightarrow> unit uprog" where
  "uprint s = ubind (ucall (Uwrite 1 (ascii s))) (\<lambda>_. ureturn ())"

text \<open>The forking loop of \<open>forktest\<close> with \<open>k\<close> turns to go returns \<open>n\<close>.\<close>

fun fork_loop :: "nat \<Rightarrow> nat \<Rightarrow> nat uprog" where
  "fork_loop 0 n = ureturn n"
| "fork_loop (Suc k) n =
     ubind (ucall Ufork) (\<lambda>(pid, _).
       if pid < 0 then ureturn n
       else if pid = 0 then uexit 0
       else fork_loop k (Suc n))"

fun wait_loop :: "nat \<Rightarrow> unit uprog" where
  "wait_loop 0 = ureturn ()"
| "wait_loop (Suc n) =
     ubind (ucall Uwait) (\<lambda>(r, _).
       if r < 0 then ubind (uprint (nl ''wait stopped early'')) (\<lambda>_. uexit 1) else wait_loop n)"

definition forktest :: "unit uprog" where
  "forktest =
     ubind (uprint (nl ''fork test'')) (\<lambda>_.
     ubind (fork_loop 1000 0) (\<lambda>n.
       if n = 1000 then ubind (uprint (nl ''fork claimed to work N times!'')) (\<lambda>_. uexit 1)
       else ubind (wait_loop n) (\<lambda>_.
            ubind (ucall Uwait) (\<lambda>(r, _).
            if r \<noteq> -1 then ubind (uprint (nl ''wait got too many'')) (\<lambda>_. uexit 1)
            else uprint (nl ''fork test OK'')))))"

definition forktest_main :: "int uprog" where
  "forktest_main = ubind forktest (\<lambda>_. uexit 0)"

fun repeat_call :: "nat \<Rightarrow> ucall \<Rightarrow> unit uprog" where
  "repeat_call 0 c = ureturn ()"
| "repeat_call (Suc n) c = ubind (ucall c) (\<lambda>_. repeat_call n c)"

text \<open>The number of turns the forking loop of \<open>stressfs\<close> has made when it is left.\<close>

fun stress_fork :: "nat \<Rightarrow> nat \<Rightarrow> nat uprog" where
  "stress_fork 0 i = ureturn i"
| "stress_fork (Suc k) i = ubind (ucall Ufork) (\<lambda>(p, _). if p > 0 then ureturn i else stress_fork k (Suc i))"

definition stressfs_main :: "int uprog" where
  "stressfs_main =
     ubind (uprintf (nl ''stressfs starting'') []) (\<lambda>_.
     ubind (stress_fork 4 0) (\<lambda>i.
     ubind (uprintf (nl ''write %d'') [VInt (of_nat i)]) (\<lambda>_.
     let path = ascii ''stressfs'' @ [48 + of_nat i]
     in ubind (ucall (Uopen path (O_CREATE + O_RDWR))) (\<lambda>(fd, _).
        ubind (repeat_call 20 (Uwrite fd (replicate 512 97))) (\<lambda>_.
        ubind (ucall (Uclose fd)) (\<lambda>_.
        ubind (uprintf (nl ''read'') []) (\<lambda>_.
        ubind (ucall (Uopen path O_RDONLY)) (\<lambda>(fd, _).
        ubind (repeat_call 20 (Uread fd 512)) (\<lambda>_.
        ubind (ucall (Uclose fd)) (\<lambda>_.
        ubind (ucall Uwait) (\<lambda>_. uexit 0))))))))))) "

definition forphan_start :: "u8 list \<Rightarrow> u8 list uprog" where
  "forphan_start s =
     ubind (ucall (Uopen (ascii ''file0'') (O_CREATE + O_WRONLY))) (\<lambda>(fd, _).
     if fd < 0 then ubind (uprintf (nl ''%s: open failed'') [VStr (Some s)]) (\<lambda>_. uexit 1)
     else ubind (ucall (Ufstat fd)) (\<lambda>(r, st).
     if r < 0 then ubind (ufprintf 2 (nl ''%s: cannot stat %s'') [VStr (Some s), VStr (Some (ascii ''ff''))]) (\<lambda>_. uexit 1)
     else ubind (ucall (Uunlink (ascii ''file0''))) (\<lambda>(r, _).
     if r < 0 then ubind (uprintf (nl ''%s: unlink failed'') [VStr (Some s)]) (\<lambda>_. uexit 1)
     else ubind (ucall (Uopen (ascii ''file0'') O_RDONLY)) (\<lambda>(r, _).
     if r \<noteq> -1 then ubind (uprintf (nl ''%s: open successed'') [VStr (Some s)]) (\<lambda>_. uexit 1)
     else ubind (uprintf (nl ''wait for kill and reclaim %d'') [VInt (ucast (u_ino st))]) (\<lambda>_. ureturn st)))))"

definition dorphan_start :: "u8 list \<Rightarrow> unit uprog" where
  "dorphan_start s =
     ubind (ucall (Umkdir (ascii ''dd''))) (\<lambda>(r, _).
     if r \<noteq> 0 then ubind (uprintf (nl ''%s: mkdir dd failed'') [VStr (Some s)]) (\<lambda>_. uexit 1)
     else ubind (ucall (Uchdir (ascii ''dd''))) (\<lambda>(r, _).
     if r \<noteq> 0 then ubind (uprintf (nl ''%s: chdir dd failed'') [VStr (Some s)]) (\<lambda>_. uexit 1)
     else ubind (ucall (Uunlink (ascii ''../dd''))) (\<lambda>(r, _).
     if r < 0 then ubind (uprintf (nl ''%s: unlink failed'') [VStr (Some s)]) (\<lambda>_. uexit 1)
     else uprintf (nl ''wait for kill and reclaim'') [])))"

text \<open>\<open>for(;;) pause(1000);\<close>, the end of the two orphan programs: it only ever waits in its call.\<close>

fun pause_forever :: "unit uprog" where
  "pause_forever [] = UInCall [Upause 1000]"
| "pause_forever (r # rs) = prefix_calls [Upause 1000] (pause_forever rs)"

section \<open>What cat and wc do\<close>

text \<open>
  A loop that reads until the end of the input and handles each piece with \<open>body\<close>: its state after the
  loop and the bytes it has written depend on the whole input only, not on the sizes of the pieces.
\<close>

locale read_loop =
  fixes fd n :: int
    and body :: "'a \<Rightarrow> ures \<Rightarrow> 'a uprog"
    and loop :: "'a \<Rightarrow> 'a uprog"
    and bad :: "'a \<Rightarrow> 'a uprog"
    and after :: "'a \<Rightarrow> u8 list \<Rightarrow> 'a"
    and out :: "u8 list \<Rightarrow> (int \<times> u8 list) list"
    and f :: int
  assumes positive: "0 < n"
    and loop: "loop a = ubind (ucall (Uread fd n)) (\<lambda>r rs.
        if fst r > 0 then ubind (body a r) loop rs
        else if fst r < 0 then bad a rs else ureturn a rs)"
    and body: "bs \<noteq> [] \<Longrightarrow> \<exists>t. completes (file_env fd chunk) e (body a (int (length bs), bs)) (after a bs) (e\<lparr>fe_out := fe_out e @ out bs\<rparr>) t"
    and after: "after (after a bs) cs = after a (bs @ cs)" "after a [] = a"
    and out: "concat (map snd (out (bs @ cs))) = concat (map snd (out bs)) @ concat (map snd (out cs))" "out [] = []"
      "fst ` set (out bs) \<subseteq> {f}"
begin

lemma reads_all:
  assumes gc: "good_chunk chunk"
  shows "\<exists>t ws. completes (file_env fd chunk) e (loop a) (after a (fe_in e)) (e\<lparr>fe_in := [], fe_out := fe_out e @ ws\<rparr>) t
    \<and> concat (map snd ws) = concat (map snd (out (fe_in e))) \<and> fst ` set ws \<subseteq> {f}"
proof (induction "length (fe_in e)" arbitrary: a e rule: less_induct)
  case less
  define k where "k = chunk (nat n) (fe_in e)"
  let ?e = "e\<lparr>fe_in := drop k (fe_in e)\<rparr>" and ?b = "take k (fe_in e)"
  let ?rest = "\<lambda>r rs. if fst r > 0 then ubind (body a r) loop rs else if fst r < 0 then bad a rs else ureturn a rs"
  have c: "completes (file_env fd chunk) e (ucall (Uread fd n)) (int k, ?b) ?e [Uread fd n]"
    using completes_ucall [of "file_env fd chunk" e "Uread fd n"] by (simp add: k_def)
  show ?case
  proof (cases "fe_in e = []")
    case True
    then have k: "k = 0" using good_chunkD(2) [OF gc, of "nat n" "fe_in e"] by (simp add: k_def)
    have "completes (file_env fd chunk) ?e (?rest (int k, ?b)) a ?e []"
      using completes_ureturn [of "file_env fd chunk" ?e a] by (simp add: k completes_def)
    from completes_ubind [where f = ?rest, OF c this] True k show ?thesis
      unfolding loop [of a] by (intro exI [of _ "[Uread fd n]"] exI [of _ "[]"]) (simp add: after out)
  next
    case False
    then have k: "0 < k" "k \<le> length (fe_in e)" using good_chunkD(2,3) [OF gc] positive by (auto simp: k_def)
    then have nb: "?b \<noteq> []" using False by auto
    let ?e1 = "?e\<lparr>fe_out := fe_out ?e @ out ?b\<rparr>" and ?a = "after a ?b"
    have "int (length ?b) = int k" using k by simp
    then obtain t1 where t1: "completes (file_env fd chunk) ?e (body a (int k, ?b)) ?a ?e1 t1" using body [OF nb, of chunk ?e a] by metis
    have "length (fe_in ?e1) < length (fe_in e)" using k by simp
    from less.hyps [OF this, of ?a] obtain t2 ws where
      t2: "completes (file_env fd chunk) ?e1 (loop ?a) (after ?a (fe_in ?e1)) (?e1\<lparr>fe_in := [], fe_out := fe_out ?e1 @ ws\<rparr>) t2"
      and ws: "concat (map snd ws) = concat (map snd (out (fe_in ?e1)))" "fst ` set ws \<subseteq> {f}" by blast
    have "completes (file_env fd chunk) ?e (?rest (int k, ?b)) (after ?a (fe_in ?e1)) (?e1\<lparr>fe_in := [], fe_out := fe_out ?e1 @ ws\<rparr>) (t1 @ t2)"
      using completes_ubind [where f = loop, OF t1 t2] k by simp
    from completes_ubind [where f = ?rest, OF c this]
    have "\<exists>t. completes (file_env fd chunk) e (loop a) (after a (fe_in e)) (e\<lparr>fe_in := [], fe_out := fe_out e @ (out ?b @ ws)\<rparr>) t"
      unfolding loop [of a] by (auto simp: after)
    moreover have "concat (map snd (out ?b @ ws)) = concat (map snd (out (fe_in e)))"
      using ws(1) out(1) [of ?b "drop k (fe_in e)"] by simp
    moreover have "fst ` set (out ?b @ ws) \<subseteq> {f}" using ws(2) out(3) [of ?b] by auto
    ultimately show ?thesis by blast
  qed
qed

end

definition cat_body :: "unit \<Rightarrow> ures \<Rightarrow> unit uprog" where
  "cat_body u r =
     ubind (ucall (Uwrite 1 (take (nat (fst r)) (snd r)))) (\<lambda>w.
       if fst w \<noteq> fst r then ubind (ufprintf 2 (nl ''cat: write error'') []) (\<lambda>_. uexit 1) else ureturn ())"

definition wc_body :: "wcount \<Rightarrow> ures \<Rightarrow> wcount uprog" where
  "wc_body k r = ureturn (fold wc_byte (take (nat (fst r)) (snd r)) k)"

lemma cat_body_loop:
  "ubind (cat_body a r) (\<lambda>_. cat fd) = ubind (ucall (Uwrite 1 (take (nat (fst r)) (snd r)))) (\<lambda>w rs.
     if fst w \<noteq> fst r then ubind (ufprintf 2 (nl ''cat: write error'') []) (\<lambda>_. uexit 1) rs else cat fd rs)"
  unfolding cat_body_def ubind_assoc by (intro arg_cong [where f = "ubind _"] ext) (simp add: ubind_assoc)

interpretation cat_rl: read_loop fd 512 cat_body "\<lambda>_. cat fd"
    "\<lambda>_. ubind (ufprintf 2 (nl ''cat: read error'') []) (\<lambda>_. uexit 1)" "\<lambda>_ _. ()" "\<lambda>bs. if bs = [] then [] else [(1, bs)]" 1 for fd
proof
  show "cat fd = ubind (ucall (Uread fd 512)) (\<lambda>r rs. if 0 < fst r then ubind (cat_body a r) (\<lambda>_. cat fd) rs
      else if fst r < 0 then ubind (ufprintf 2 (nl ''cat: read error'') []) (\<lambda>_. uexit 1) rs else ureturn a rs)" for a :: unit
    unfolding cat_body_loop unit_eq [of a] by (rule ext, subst cat.simps) (rule refl)
  show "\<exists>t. completes (file_env fd chunk) e (cat_body a (int (length bs), bs)) () (e\<lparr>fe_out := fe_out e @ (if bs = [] then [] else [(1, bs)])\<rparr>) t"
    if "bs \<noteq> []" for bs chunk e a
  proof -
    let ?g = "\<lambda>w. if fst w \<noteq> int (length bs) then ubind (ufprintf 2 (nl ''cat: write error'') []) (\<lambda>_. uexit 1) else ureturn ()"
    let ?e = "e\<lparr>fe_out := fe_out e @ [(1, bs)]\<rparr>"
    have w: "completes (file_env fd chunk) e (ucall (Uwrite 1 bs)) (int (length bs), []) ?e [Uwrite 1 bs]"
      using completes_ucall [of "file_env fd chunk" e "Uwrite 1 bs"] by simp
    have "completes (file_env fd chunk) ?e (?g (int (length bs), [])) () ?e []"
      by (simp add: completes_ureturn)
    from completes_ubind [where f = ?g, OF w this]
    have "completes (file_env fd chunk) e (cat_body a (int (length bs), bs)) () ?e [Uwrite 1 bs]"
      by (simp add: cat_body_def)
    then show ?thesis using that by auto
  qed
qed auto

interpretation wc_rl: read_loop fd 512 wc_body "wc_loop fd"
    "\<lambda>_. ubind (uprintf (nl ''wc: read error'') []) (\<lambda>_. uexit 1)" "\<lambda>k bs. fold wc_byte bs k" "\<lambda>_. []" 1 for fd
proof
  show "wc_loop fd a = ubind (ucall (Uread fd 512)) (\<lambda>r rs. if 0 < fst r then ubind (wc_body a r) (wc_loop fd) rs
      else if fst r < 0 then ubind (uprintf (nl ''wc: read error'') []) (\<lambda>_. uexit 1) rs else ureturn a rs)" for a
    unfolding wc_body_def ubind_fun by (rule ext, subst wc_loop.simps) (rule refl)
  show "\<exists>t. completes (file_env fd chunk) e (wc_body a (int (length bs), bs)) (fold wc_byte bs a) (e\<lparr>fe_out := fe_out e @ []\<rparr>) t"
    for bs chunk e a
    using completes_ureturn [of "file_env fd chunk" e "fold wc_byte bs a"] by (auto simp: wc_body_def)
qed auto

text \<open>\<open>cat\<close> reads its input to the end and writes to standard output the bytes of the input, all of
  them and in order, however the reads cut the input into pieces.\<close>

lemma cat_copies:
  assumes "good_chunk chunk"
  shows "\<exists>t ws. completes (file_env fd chunk) \<lparr>fe_in = input, fe_out = []\<rparr> (cat fd) () \<lparr>fe_in = [], fe_out = ws\<rparr> t
     \<and> concat (map snd ws) = input \<and> fst ` set ws \<subseteq> {1}"
  using cat_rl.reads_all [OF assms, where e = "\<lparr>fe_in = input, fe_out = []\<rparr>" and fd = fd]
  by (cases "input = []") fastforce+

section \<open>wc counts\<close>

definition blank :: "u8 \<Rightarrow> bool" where
  "blank b \<longleftrightarrow> b \<in> {32, 13, 9, 10, 11}"

definition word_starts :: "u8 list \<Rightarrow> nat set" where
  "word_starts bs = {i. i < length bs \<and> \<not> blank (bs ! i) \<and> (i = 0 \<or> blank (bs ! (i - 1)))}"

lemma ustrchr_blank: "ustrchr [32, 13, 9, 10, 11] b \<noteq> None \<longleftrightarrow> blank b"
  by (auto simp: blank_def)

lemma word_starts_snoc:
  "word_starts (bs @ [b]) = word_starts bs \<union> (if \<not> blank b \<and> (bs = [] \<or> blank (last bs)) then {length bs} else {})"
  by (cases "bs = []") (auto simp: word_starts_def nth_append last_conv_nth less_Suc_eq)

lemma finite_word_starts [simp]: "finite (word_starts bs)"
  by (simp add: word_starts_def)

lemma length_word_starts [simp]: "length bs \<notin> word_starts bs"
  by (simp add: word_starts_def)

lemma int32_Suc: "int32 (1 + int32 x) = int32 (1 + x)"
  unfolding int32_def signed_take_bit_eq_take_bit_shift take_bit_eq_mod by (simp add: mod_simps ac_simps)

lemma wc_byte_eq:
  "wc_byte b \<lparr>wc_l = l, wc_w = w, wc_c = c, wc_inword = i\<rparr>
   = \<lparr>wc_l = if b = 10 then int32 (l + 1) else l, wc_w = if \<not> blank b \<and> \<not> i then int32 (w + 1) else w, wc_c = int32 (c + 1),
      wc_inword = (\<not> blank b)\<rparr>"
  unfolding wc_byte_def ustrchr_blank by (cases "blank b"; cases "b = 10"; cases i) (simp_all add: Let_def)

lemma wc_fold:
  "fold wc_byte bs \<lparr>wc_l = 0, wc_w = 0, wc_c = 0, wc_inword = False\<rparr>
   = \<lparr>wc_l = int32 (int (count_list bs 10)), wc_w = int32 (int (card (word_starts bs))), wc_c = int32 (int (length bs)),
      wc_inword = (bs \<noteq> [] \<and> \<not> blank (last bs))\<rparr>"
proof (induction bs rule: rev_induct)
  case Nil
  then show ?case by (simp add: word_starts_def int32_def)
next
  case (snoc b bs)
  have c: "card (word_starts (bs @ [b])) = card (word_starts bs) + (if \<not> blank b \<and> (bs = [] \<or> blank (last bs)) then 1 else 0)"
    by (simp add: word_starts_snoc)
  have n: "count_list (bs @ [b]) 10 = count_list bs 10 + (if b = 10 then 1 else 0)" by simp
  show ?case
    unfolding fold_append comp_def snoc wc_byte_eq c n fold.simps id_def
    by (cases "blank b"; cases "b = 10") (simp_all add: int32_Suc add.commute)
qed

text \<open>C36: \<open>wc\<close> reads its input to the end and prints, in 32 bits each, the number of newlines, the number of
  maximal runs of bytes other than blanks, and the number of bytes, then the name it was given.\<close>

theorem wc_counts:
  assumes "good_chunk chunk"
  shows "\<exists>t ws. completes (file_env fd chunk) \<lparr>fe_in = input, fe_out = []\<rparr> (wc fd name) () \<lparr>fe_in = [], fe_out = ws\<rparr> t
     \<and> concat (map snd ws) = the (vprintf (ascii (nl ''%d %d %d %s''))
         [VInt (of_int (int32 (int (count_list input 10)))), VInt (of_int (int32 (int (card (word_starts input))))),
          VInt (of_int (int32 (int (length input)))), VStr (Some name)])"
proof -
  let ?e = "\<lparr>fe_in = input, fe_out = []\<rparr>"
  let ?k = "fold wc_byte input \<lparr>wc_l = 0, wc_w = 0, wc_c = 0, wc_inword = False\<rparr>"
  let ?p = "\<lambda>k. uprintf (nl ''%d %d %d %s'') [VInt (of_int (wc_l k)), VInt (of_int (wc_w k)), VInt (of_int (wc_c k)), VStr (Some name)]"
  let ?o = "the (vprintf (ascii (nl ''%d %d %d %s'')) [VInt (of_int (wc_l ?k)), VInt (of_int (wc_w ?k)), VInt (of_int (wc_c ?k)), VStr (Some name)])"
  obtain t ws where l: "completes (file_env fd chunk) ?e (wc_loop fd \<lparr>wc_l = 0, wc_w = 0, wc_c = 0, wc_inword = False\<rparr>) ?k \<lparr>fe_in = [], fe_out = ws\<rparr> t"
    and ws: "concat (map snd ws) = []"
    using wc_rl.reads_all [OF assms, where e = ?e and fd = fd and a = "\<lparr>wc_l = 0, wc_w = 0, wc_c = 0, wc_inword = False\<rparr>"] by auto
  have p: "completes (file_env fd chunk) \<lparr>fe_in = [], fe_out = ws\<rparr> (?p ?k) () \<lparr>fe_in = [], fe_out = ws @ map (\<lambda>b. (1, [b])) ?o\<rparr>
      (map (\<lambda>b. Uwrite 1 [b]) ?o)"
    using completes_putcs [of fd chunk "\<lparr>fe_in = [], fe_out = ws\<rparr>" 1 ?o] by (simp add: uprintf_def ufprintf_def)
  have "\<exists>t. completes (file_env fd chunk) ?e (wc fd name) () \<lparr>fe_in = [], fe_out = ws @ map (\<lambda>b. (1, [b])) ?o\<rparr> t"
    unfolding wc_def using completes_ubind [where f = ?p, OF l p] by (rule exI)
  moreover have "concat (map snd (ws @ map (\<lambda>b. (1, [b])) ?o)) = ?o" using ws by (simp add: comp_def)
  ultimately show ?thesis unfolding wc_fold wcount.simps by blast
qed

theorem wc_counts_witness:
  "\<exists>t ws. completes (file_env 0 (\<lambda>n bs. min n (min 3 (length bs)))) \<lparr>fe_in = [97, 98, 32, 99, 10], fe_out = []\<rparr> (wc 0 [102]) ()
       \<lparr>fe_in = [], fe_out = ws\<rparr> t \<and> concat (map snd ws) = ascii ''1 2 5 f'' @ [10]"
proof -
  have "word_starts [97, 98, 32, 99, 10] = {0, 3}"
    by (auto simp: word_starts_def blank_def nth_Cons' split: if_splits)
  then have w: "card (word_starts [97, 98, 32, 99, 10]) = 2" by simp
  have "the (vprintf (ascii (nl ''%d %d %d %s'')) [VInt (of_int (int32 (int (count_list [97, 98, 32, 99, 10 :: u8] 10)))), VInt (of_int (int32 (int 2))),
          VInt (of_int (int32 (int (length [97, 98, 32, 99, 10 :: u8])))), VStr (Some [102])]) = ascii ''1 2 5 f'' @ [10]"
    by code_simp
  moreover have "good_chunk (\<lambda>n bs. min n (min 3 (length bs)))" by (auto simp: good_chunk_def)
  ultimately show ?thesis using wc_counts [of "\<lambda>n bs. min n (min 3 (length bs))" 0 "[97, 98, 32, 99, 10]" "[102]"] unfolding w by simp
qed

end
