(* ===== verification/Umalloc.thy ===== *)
theory Umalloc
  imports Ulib
begin

text \<open>
  The memory allocator of user programs, \<^verbatim>\<open>user/umalloc.c\<close>.  The headers in memory are two functions
  of their addresses, one for each field; \<open>base\<close> is the address of the static header.  The free list
  is a ring in the order of the addresses.  A loop that does not end is \<open>None\<close>.  What \<open>sbrk\<close> returns
  is an argument, a function of the number of bytes and of the state of the environment.
\<close>

section \<open>The program\<close>

record uheap =
  h_ptr :: "u64 \<Rightarrow> u64"
  h_size :: "u64 \<Rightarrow> u32"
  freep :: u64

definition set_ptr :: "u64 \<Rightarrow> u64 \<Rightarrow> uheap \<Rightarrow> uheap" where
  "set_ptr p q h = h\<lparr>h_ptr := (h_ptr h)(p := q)\<rparr>"

definition set_size :: "u64 \<Rightarrow> u32 \<Rightarrow> uheap \<Rightarrow> uheap" where
  "set_size p n h = h\<lparr>h_size := (h_size h)(p := n)\<rparr>"

text \<open>A pointer to a header plus a number of headers.\<close>

definition hplus :: "u64 \<Rightarrow> u32 \<Rightarrow> u64" where
  "hplus p n = p + 16 * ucast n"

partial_function (option) find_place :: "uheap \<Rightarrow> u64 \<Rightarrow> u64 \<Rightarrow> u64 option" where
  "find_place h bp p =
     (if bp > p \<and> bp < h_ptr h p then Some p
      else if p \<ge> h_ptr h p \<and> (bp > p \<or> bp < h_ptr h p) then Some p
      else find_place h bp (h_ptr h p))"

definition ufree :: "u64 \<Rightarrow> uheap \<Rightarrow> uheap option" where
  "ufree ap h =
     (let bp = ap - 16
      in case find_place h bp (freep h) of
           None \<Rightarrow> None
         | Some p \<Rightarrow>
             let h = (if hplus bp (h_size h bp) = h_ptr h p
                      then let h = set_size bp (h_size h bp + h_size h (h_ptr h p)) h
                           in set_ptr bp (h_ptr h (h_ptr h p)) h
                      else set_ptr bp (h_ptr h p) h);
                 h = (if hplus p (h_size h p) = bp
                      then let h = set_size p (h_size h p + h_size h bp) h
                           in set_ptr p (h_ptr h bp) h
                      else set_ptr p bp h)
             in Some (h\<lparr>freep := p\<rparr>))"

definition morecore :: "(int \<Rightarrow> 'e \<Rightarrow> u64 \<times> 'e) \<Rightarrow> u32 \<Rightarrow> uheap \<Rightarrow> 'e \<Rightarrow> (u64 \<times> uheap \<times> 'e) option" where
  "morecore sbrk nu h e =
     (let nu = (if nu < 4096 then 4096 else nu);
          (p, e) = sbrk (int32 (uint nu * 16)) e
      in if p = - 1 then Some (0, h, e)
         else map_option (\<lambda>h. (freep h, h, e)) (ufree (p + 16) (set_size p nu h)))"

partial_function (option) malloc_loop ::
  "(int \<Rightarrow> 'e \<Rightarrow> u64 \<times> 'e) \<Rightarrow> u32 \<Rightarrow> u64 \<Rightarrow> u64 \<Rightarrow> uheap \<Rightarrow> 'e \<Rightarrow> (u64 \<times> uheap \<times> 'e) option" where
  "malloc_loop sbrk nunits prevp p h e =
     (if h_size h p \<ge> nunits then
        if h_size h p = nunits then Some (p + 16, (set_ptr prevp (h_ptr h p) h)\<lparr>freep := prevp\<rparr>, e)
        else let h = set_size p (h_size h p - nunits) h;
                 p = hplus p (h_size h p);
                 h = set_size p nunits h
             in Some (p + 16, h\<lparr>freep := prevp\<rparr>, e)
      else if p = freep h then
        Option.bind (morecore sbrk nunits h e) (\<lambda>(p, h, e).
          if p = 0 then Some (0, h, e) else malloc_loop sbrk nunits p (h_ptr h p) h e)
      else malloc_loop sbrk nunits p (h_ptr h p) h e)"

definition nunits :: "u32 \<Rightarrow> u32" where
  "nunits nbytes = of_nat ((unat nbytes + 16 - 1) div 16 + 1)"

definition malloc :: "(int \<Rightarrow> 'e \<Rightarrow> u64 \<times> 'e) \<Rightarrow> u64 \<Rightarrow> u32 \<Rightarrow> uheap \<Rightarrow> 'e \<Rightarrow> (u64 \<times> uheap \<times> 'e) option" where
  "malloc sbrk base nbytes h e =
     (let h = (if freep h = 0 then set_size base 0 ((set_ptr base base h)\<lparr>freep := base\<rparr>) else h)
      in malloc_loop sbrk (nunits nbytes) (freep h) (h_ptr h (freep h)) h e)"

section \<open>The ring\<close>

definition ring :: "uheap \<Rightarrow> u64 list \<Rightarrow> bool" where
  "ring h F \<longleftrightarrow> (\<forall>i<length F. h_ptr h (F ! i) = F ! (Suc i mod length F))"

text \<open>The size of a block in bytes and where it ends.\<close>

definition bend :: "uheap \<Rightarrow> u64 \<Rightarrow> nat" where
  "bend h a = unat a + 16 * unat (h_size h a)"

text \<open>The free list: the static header first, the blocks by ascending address, no two touching.\<close>

definition free_list :: "u64 \<Rightarrow> uheap \<Rightarrow> u64 list \<Rightarrow> bool" where
  "free_list base h F \<longleftrightarrow> ring h F \<and> hd F = base \<and> h_size h base = 0 \<and> freep h \<in> set F
     \<and> sorted_wrt (\<lambda>a b. bend h a < unat b) F \<and> (\<forall>a\<in>set F. a \<noteq> base \<longrightarrow> 0 < h_size h a)"

text \<open>\<open>F\<close> are the free blocks and \<open>A\<close> the allocated ones: all lie between the static header and \<open>lim\<close>, and no two overlap.\<close>

definition heap_ok :: "u64 \<Rightarrow> nat \<Rightarrow> uheap \<Rightarrow> u64 list \<Rightarrow> u64 set \<Rightarrow> bool" where
  "heap_ok base lim h F A \<longleftrightarrow> free_list base h F \<and> finite A \<and> A \<inter> set F = {} \<and> (\<forall>a\<in>A. 0 < h_size h a)
     \<and> base \<noteq> 0 \<and> unat base + 16 \<le> lim \<and> lim < 2 ^ 36 \<and> (\<forall>a\<in>A \<union> set (tl F). unat base + 16 \<le> unat a \<and> bend h a \<le> lim)
     \<and> (\<forall>a\<in>A. \<forall>b\<in>A \<union> set F. a \<noteq> b \<longrightarrow> bend h a \<le> unat b \<or> bend h b \<le> unat a)"

section \<open>Freeing\<close>

lemma sorted_less:
  assumes "free_list base h F" "i < j" "j < length F"
  shows "bend h (F ! i) < unat (F ! j)" "F ! i < F ! j"
proof -
  show "bend h (F ! i) < unat (F ! j)" using assms sorted_wrt_nth_less [of "\<lambda>a b. bend h a < unat b" F i j] by (simp add: free_list_def)
  then show "F ! i < F ! j" by (simp add: bend_def word_less_nat_alt)
qed

lemma free_list_distinct: "free_list base h F \<Longrightarrow> distinct F"
proof (unfold distinct_conv_nth, intro allI impI)
  fix i j assume "free_list base h F" "i < length F" "j < length F" "i \<noteq> j"
  then show "F ! i \<noteq> F ! j" using sorted_less(2) [of base h F i j] sorted_less(2) [of base h F j i] by (cases "i < j") force+
qed

text \<open>The walk around the ring from entry \<open>i\<close> to entry \<open>k\<close>.\<close>

lemma ring_step: "(i + Suc d) mod n = k \<Longrightarrow> i < n \<Longrightarrow> (Suc i mod n + d) mod n = k" for i d n k :: nat
  by (simp add: mod_add_left_eq)

lemma ring_distance: "i < n \<Longrightarrow> k < n \<Longrightarrow> \<exists>d<n. (i + d) mod n = k" for i n k :: nat
  by (cases "i \<le> k") (intro exI [of _ "k - i"], simp, intro exI [of _ "n - i + k"], simp)

text \<open>The place for a block: behind the last free block below it.\<close>

lemma find_place_ok:
  assumes fl: "free_list base h F" and j: "j < length F" "F ! j < bp" "Suc j < length F \<Longrightarrow> bp < F ! Suc j" and q: "q \<in> set F"
  shows "find_place h bp q = Some (F ! j)"
proof -
  let ?n = "length F"
  have ring: "h_ptr h (F ! i) = F ! (Suc i mod ?n)" if "i < ?n" for i using fl that by (simp add: free_list_def ring_def)
  have "0 < ?n" using j(1) by linarith
  have lt: "F ! i < F ! m" if "i < m" "m < ?n" for i m using sorted_less(2) [OF fl that] .
  have below: "F ! i < bp" if "i \<le> j" for i using that j(1,2) lt [of i j] by (cases "i = j") auto
  have above: "bp < F ! i" if "j < i" "i < ?n" for i
    using that j(3) lt [of "Suc j" i] by (cases "i = Suc j") auto
  have at: "find_place h bp (F ! j) = Some (F ! j)"
  proof (cases "Suc j < ?n")
    case True
    then show ?thesis using ring [OF j(1)] j by (subst find_place.simps) simp
  next
    case False
    then have "Suc j = ?n" using j(1) by simp
    then have "h_ptr h (F ! j) = F ! 0" using ring [OF j(1)] by simp
    moreover have "F ! 0 \<le> F ! j" using lt [of 0 j] j(1) by (cases "j = 0") auto
    ultimately show ?thesis using j(2) by (subst find_place.simps) simp
  qed
  have skip: "find_place h bp (F ! i) = find_place h bp (F ! (Suc i mod ?n))" if i: "i < ?n" "i \<noteq> j" for i
  proof (cases "i < j")
    case True
    then have "Suc i mod ?n = Suc i" "F ! Suc i < bp" "F ! i < F ! Suc i" using j(1) below lt by auto
    then show ?thesis using ring [OF i(1)] by (subst find_place.simps) auto
  next
    case False
    then have b: "bp < F ! i" using above i by simp
    show ?thesis
    proof (cases "Suc i = ?n")
      case True
      then have "Suc i mod ?n = 0" by simp
      then show ?thesis using ring [OF i(1)] b below [of 0] by (subst find_place.simps) auto
    next
      case F: False
      then have "Suc i mod ?n = Suc i" "F ! i < F ! Suc i" using i(1) lt by auto
      then show ?thesis using ring [OF i(1)] b by (subst find_place.simps) auto
    qed
  qed
  have "find_place h bp (F ! i) = Some (F ! j)" if "i < ?n" "(i + d) mod ?n = j" for i d
    using that
  proof (induction d arbitrary: i)
    case 0
    then show ?case using at by simp
  next
    case (Suc d)
    show ?case
    proof (cases "i = j")
      case False
      have "Suc i mod ?n < ?n" using \<open>0 < ?n\<close> by simp
      from Suc.IH [OF this ring_step [OF Suc.prems(2,1)]] show ?thesis using skip [OF Suc.prems(1) False] by simp
    qed (use at in simp)
  qed
  moreover obtain i where "i < ?n" "q = F ! i" using q by (metis in_set_conv_nth)
  ultimately show ?thesis using ring_distance [OF _ j(1)] by metis
qed

text \<open>Every address above the static header has such a place.\<close>

lemma place_exists:
  assumes fl: "free_list base h F" and bp: "base < bp" "bp \<notin> set F"
  shows "\<exists>L p R. F = L @ p # R \<and> p < bp \<and> (R \<noteq> [] \<longrightarrow> bp < hd R)"
proof -
  let ?n = "length F" and ?S = "{i. i < length F \<and> F ! i < bp}"
  have ne: "F \<noteq> []" "hd F = base" using fl by (auto simp: free_list_def)
  then have "0 \<in> ?S" using bp(1) by (simp add: hd_conv_nth)
  moreover have fin: "finite ?S" by simp
  ultimately have m: "Max ?S \<in> ?S" by (intro Max_in) auto
  define j where "j = Max ?S"
  have j: "j < ?n" "F ! j < bp" using m by (simp_all add: j_def)
  have "\<not> F ! Suc j < bp" if "Suc j < ?n"
  proof
    assume "F ! Suc j < bp"
    then have "Suc j \<in> ?S" using that by simp
    from Max_ge [OF fin this] show False by (simp flip: j_def)
  qed
  then have nx: "bp < F ! Suc j" if "Suc j < ?n" using that bp(2) by (metis linorder_neqE nth_mem)
  have "F = take j F @ F ! j # drop (Suc j) F" by (rule id_take_nth_drop [OF j(1)])
  then show ?thesis using j(2) nx by (intro exI [of _ "take j F"] exI [of _ "F ! j"] exI [of _ "drop (Suc j) F"]) (auto simp: hd_drop_conv_nth)
qed

text \<open>The ring as a path from one of its blocks back to it.\<close>

fun linked :: "uheap \<Rightarrow> u64 \<Rightarrow> u64 list \<Rightarrow> bool" where
  "linked h p [] \<longleftrightarrow> True"
| "linked h p (q # qs) \<longleftrightarrow> h_ptr h p = q \<and> linked h q qs"

lemma linked_append: "linked h p (xs @ ys) \<longleftrightarrow> linked h p xs \<and> linked h (last (p # xs)) ys"
  by (induction xs arbitrary: p) auto

lemma linked_nth: "linked h p xs \<longleftrightarrow> (\<forall>i<length xs. h_ptr h ((p # xs) ! i) = xs ! i)"
  by (induction xs arbitrary: p) (auto simp: less_Suc_eq_0_disj)

lemma ring_linked: "F \<noteq> [] \<Longrightarrow> ring h F \<longleftrightarrow> linked h (last F) F"
proof (induction F rule: rev_induct)
  case (snoc p L)
  have "ring h (L @ [p]) \<longleftrightarrow> h_ptr h p = (L @ [p]) ! 0 \<and> (\<forall>i<length L. h_ptr h ((L @ [p]) ! i) = (L @ [p]) ! Suc i)"
    by (simp add: ring_def All_less_Suc)
  also have "\<dots> \<longleftrightarrow> (\<forall>i<length (L @ [p]). h_ptr h ((p # L @ [p]) ! i) = (L @ [p]) ! i)"
    by (simp add: All_less_Suc2)
  finally show ?case by (simp add: linked_nth)
qed simp

lemma ring_from: "ring h (L @ p # R) \<longleftrightarrow> linked h p (R @ L @ [p])"
  by (simp add: ring_linked linked_append) (auto simp: linked_append split: if_splits)

text \<open>The path from \<open>y\<close> continues from \<open>z\<close> when \<open>z\<close> gets the pointer of \<open>y\<close>.\<close>

lemma linked_change:
  assumes "linked h y (X @ [p])" "h_ptr h' z = h_ptr h y" "\<And>x. x \<in> set X \<Longrightarrow> h_ptr h' x = h_ptr h x"
  shows "linked h' z (X @ [p])"
  using assms by (induction X arbitrary: y z) auto

text \<open>What \<open>free\<close> does between the block \<open>p\<close> and the blocks \<open>R\<close> behind the place.\<close>

definition joins :: "uheap \<Rightarrow> u64 \<Rightarrow> u64 list \<Rightarrow> bool" where
  "joins h a R \<longleftrightarrow> R \<noteq> [] \<and> bend h a = unat (hd R)"

definition freed :: "u64 list \<Rightarrow> u64 \<Rightarrow> u64 \<Rightarrow> u64 list \<Rightarrow> uheap \<Rightarrow> u64 list" where
  "freed L p a R h = L @ p # (if bend h p = unat a then [] else [a]) @ (if joins h a R then tl R else R)"

definition joined :: "u64 \<Rightarrow> u64 \<Rightarrow> u64 list \<Rightarrow> uheap \<Rightarrow> u64 \<Rightarrow> u32" where
  "joined p a R h x =
     (let n = (if joins h a R then h_size h a + h_size h (hd R) else h_size h a)
      in if x = p \<and> bend h p = unat a then h_size h p + n else if x = a then n else h_size h x)"

lemma hplus_bend: "bend h a < 2 ^ 64 \<Longrightarrow> (hplus a (h_size h a) = q) = (bend h a = unat q)"
proof -
  assume b: "bend h a < 2 ^ 64"
  have l: "unat (h_size h a) < 2 ^ 32" using unsigned_less [where 'a = nat, of "h_size h a"] by simp
  then have u: "unat (ucast (h_size h a) :: u64) = unat (h_size h a)" by (simp add: unsigned_ucast_eq take_bit_nat_eq_self)
  have "unat (16 :: u64) * unat (ucast (h_size h a) :: u64) < 2 ^ LENGTH(64)" using l unfolding u by simp
  then have m: "unat (16 * ucast (h_size h a) :: u64) = 16 * unat (h_size h a)" by (simp add: unat_mult_lem [THEN iffD1] u)
  then have "unat (hplus a (h_size h a)) = bend h a" unfolding hplus_def bend_def
    using b by (subst unat_add_lem [THEN iffD1]) (simp_all add: bend_def)
  then show "(hplus a (h_size h a) = q) = (bend h a = unat q)" by (metis word_unat_eq_iff)
qed

lemma ufree_links:
  assumes fl: "free_list base h (L @ p # R)" and place: "p < a" "R \<noteq> [] \<Longrightarrow> a < hd R" and new: "a \<notin> set (L @ p # R)"
    and small: "bend h a < 2 ^ 64" "bend h p < 2 ^ 64"
  shows "\<exists>h'. ufree (a + 16) h = Some h' \<and> h_size h' = joined p a R h \<and> freep h' = p \<and> ring h' (freed L p a R h)"
proof -
  let ?F = "L @ p # R" and ?up = "joins h a R" and ?down = "bend h p = unat a"
  define X y where "X = (if ?up then tl R else R) @ L" and "y = (if ?up then hd R else p)"
  have "find_place h a (freep h) = Some (?F ! length L)"
    by (rule find_place_ok [OF fl]) (use place fl in \<open>auto simp: free_list_def nth_append hd_conv_nth\<close>)
  then have fp: "find_place h a (freep h) = Some p" by simp
  have lk: "linked h p (R @ L @ [p])" using fl by (simp add: free_list_def ring_from del: append_assoc)
  have nx: "h_ptr h p = hd (R @ L @ [p])" using lk by (cases "R @ L @ [p]") auto
  have "base \<le> p" using fl sorted_less(2) [OF fl, of 0 "length L"] by (cases L) (auto simp: free_list_def)
  have up: "(hplus a (h_size h a) = h_ptr h p) = ?up"
  proof (cases "R = []")
    case True
    then have "h_ptr h p = base" using nx fl by (cases L) (simp_all add: free_list_def)
    moreover have "unat base < bend h a" using \<open>base \<le> p\<close> place(1) by (simp add: bend_def word_less_nat_alt word_le_nat_alt)
    ultimately show ?thesis using True hplus_bend [OF small(1), of base] by (simp add: joins_def)
  qed (use nx hplus_bend [OF small(1)] in \<open>simp add: joins_def\<close>)
  have ne: "a \<noteq> p" "p \<notin> set X" "a \<notin> set X" using new free_list_distinct [OF fl] by (cases R; auto simp: X_def)+
  have ly: "linked h y (X @ [p])" using lk by (cases R) (auto simp: X_def y_def joins_def)
  define h1 where "h1 = set_ptr a (h_ptr h y) (set_size a (if ?up then h_size h a + h_size h (hd R) else h_size h a) h)"
  have hd: "?up \<Longrightarrow> h_ptr h p = hd R" using nx by (simp add: joins_def)
  have step1: "(if hplus a (h_size h a) = h_ptr h p
        then let h = set_size a (h_size h a + h_size h (h_ptr h p)) h in set_ptr a (h_ptr h (h_ptr h p)) h
        else set_ptr a (h_ptr h p) h) = h1"
    unfolding up h1_def y_def Let_def using hd by (auto simp: set_ptr_def set_size_def)
  have s1: "h_size h1 p = h_size h p" "h_ptr h1 a = h_ptr h y" "\<And>x. x \<noteq> a \<Longrightarrow> h_ptr h1 x = h_ptr h x"
    "h_size h1 = (h_size h)(a := if ?up then h_size h a + h_size h (hd R) else h_size h a)"
    using ne(1) by (simp_all add: h1_def set_ptr_def set_size_def)
  have down: "(hplus p (h_size h1 p) = a) = ?down" unfolding s1(1) by (rule hplus_bend [OF small(2)])
  define h2 where "h2 = (if ?down then set_ptr p (h_ptr h1 a) (set_size p (h_size h1 p + h_size h1 a) h1) else set_ptr p a h1)\<lparr>freep := p\<rparr>"
  have res: "ufree (a + 16) h = Some h2"
    unfolding ufree_def Let_def add_diff_cancel_right' fp option.case step1 [unfolded Let_def] down h2_def by (simp add: set_size_def)
  have p2: "h_ptr h2 p = (if ?down then h_ptr h y else a)" "h_ptr h2 a = h_ptr h y" "\<And>x. x \<noteq> a \<Longrightarrow> x \<noteq> p \<Longrightarrow> h_ptr h2 x = h_ptr h x"
    using ne(1) s1 by (simp_all add: h2_def set_ptr_def set_size_def)
  have "linked h2 (if ?down then p else a) (X @ [p])"
  proof (rule linked_change [OF ly])
    show "h_ptr h2 x = h_ptr h x" if "x \<in> set X" for x using that ne p2(3) by metis
  qed (use p2 in simp)
  then have "ring h2 (freed L p a R h)" using p2(1)
    unfolding freed_def ring_from by (auto simp: X_def)
  moreover have "h_size h2 = joined p a R h" using ne(1) s1
    by (auto simp: h2_def joined_def set_ptr_def set_size_def Let_def fun_eq_iff)
  moreover have "freep h2 = p" by (simp add: h2_def)
  ultimately show ?thesis using res by blast
qed

text \<open>The place of an allocated block in the free list.\<close>

definition place :: "uheap \<Rightarrow> u64 \<Rightarrow> u64 list \<Rightarrow> u64 \<Rightarrow> bool" where
  "place h p R a \<longleftrightarrow> bend h p \<le> unat a \<and> (\<forall>x\<in>set R. bend h a \<le> unat x) \<and> p < a"

lemma heap_place:
  assumes ok: "heap_ok base lim h F A" and a: "a \<in> A"
  shows "\<exists>L p R. F = L @ p # R \<and> place h p R a \<and> (R \<noteq> [] \<longrightarrow> a < hd R)"
proof -
  have fl: "free_list base h F" and af: "a \<notin> set F" and sz: "0 < h_size h a" using ok a by (auto simp: heap_ok_def)
  have "unat base + 16 \<le> unat a" using ok a by (auto simp: heap_ok_def)
  then have "base < a" by (simp add: word_less_nat_alt)
  from place_exists [OF fl this af] obtain L p R where F: "F = L @ p # R" and p: "p < a" "R \<noteq> [] \<longrightarrow> a < hd R" by blast
  have dis: "bend h a \<le> unat x \<or> bend h x \<le> unat a" if "x \<in> set F" for x using ok a that af by (auto simp: heap_ok_def)
  have ba: "unat a < bend h a" using sz by (simp add: bend_def word_less_nat_alt)
  have "bend h p \<le> unat a" using dis [of p] p(1) ba by (auto simp: F word_less_nat_alt)
  moreover have "bend h a \<le> unat x" if x: "x \<in> set R" for x
  proof -
    have "hd R \<le> x"
    proof (cases "x = hd R")
      case False
      then have "x \<in> set (tl R)" using x by (cases R) auto
      moreover have "sorted_wrt (\<lambda>a b. bend h a < unat b) R" using fl F by (simp add: free_list_def sorted_wrt_append)
      ultimately have "bend h (hd R) < unat x" by (cases R) auto
      then show ?thesis by (simp add: bend_def word_le_nat_alt)
    qed simp
    then have "a < x" using p(2) x by (cases R) auto
    then show ?thesis using dis [of x] x by (auto simp: F bend_def word_less_nat_alt)
  qed
  ultimately show ?thesis using F p unfolding place_def by blast
qed

text \<open>The blocks after \<open>free\<close>: joined blocks end where the last of them ended.\<close>

lemma joined_bends:
  assumes place: "place h p R a" and dis: "p \<noteq> a" and small: "\<And>x. x \<in> {p, a} \<union> set R \<Longrightarrow> bend h x < 2 ^ 36"
    and sz: "h_size h' = joined p a R h"
  defines "e \<equiv> (if joins h a R then bend h (hd R) else bend h a)"
  shows "bend h' a = e" "bend h p = unat a \<Longrightarrow> bend h' p = e" "bend h p \<noteq> unat a \<Longrightarrow> bend h' p = bend h p"
    "\<And>x. x \<noteq> p \<Longrightarrow> x \<noteq> a \<Longrightarrow> bend h' x = bend h x" "bend h a \<le> e" "e < 2 ^ 36"
proof -
  let ?n = "if joins h a R then h_size h a + h_size h (hd R) else h_size h a"
  have R: "joins h a R \<Longrightarrow> bend h (hd R) = unat a + 16 * (unat (h_size h a) + unat (h_size h (hd R)))" "joins h a R \<Longrightarrow> hd R \<in> set R"
    by (auto simp: joins_def bend_def)
  show e: "e < 2 ^ 36" using small R(2) by (simp add: e_def)
  show "bend h a \<le> e" using R(1) by (auto simp: e_def bend_def)
  have n: "unat a + 16 * unat ?n = e"
  proof (cases "joins h a R")
    case True
    then have "unat (h_size h a) + unat (h_size h (hd R)) < 2 ^ LENGTH(32)" using e R(1) by (simp add: e_def)
    then show ?thesis using True R(1) by (simp add: e_def unat_add_lem [THEN iffD1])
  qed (simp add: e_def bend_def)
  then show "bend h' a = e" using dis by (simp add: bend_def sz joined_def)
  show "bend h p \<noteq> unat a \<Longrightarrow> bend h' p = bend h p" "\<And>x. x \<noteq> p \<Longrightarrow> x \<noteq> a \<Longrightarrow> bend h' x = bend h x"
    using dis by (simp_all add: bend_def sz joined_def)
  assume j: "bend h p = unat a"
  then have "unat p + 16 * (unat (h_size h p) + unat ?n) = e" using n by (simp add: bend_def)
  moreover from this have "unat (h_size h p) + unat ?n < 2 ^ LENGTH(32)" using e by simp
  ultimately show "bend h' p = e" using j by (simp add: bend_def sz joined_def unat_add_lem [THEN iffD1])
qed

text \<open>The block \<open>a\<close> of a heap is freed, between \<open>p\<close> and \<open>R\<close>; \<open>e\<close> is where the joined block ends.\<close>

definition freeing :: "u64 \<Rightarrow> nat \<Rightarrow> uheap \<Rightarrow> u64 set \<Rightarrow> u64 list \<Rightarrow> u64 \<Rightarrow> u64 list \<Rightarrow> u64 \<Rightarrow> uheap \<Rightarrow> bool" where
  "freeing base lim h A L p R a h' \<longleftrightarrow> heap_ok base lim h (L @ p # R) A \<and> a \<in> A \<and> place h p R a
     \<and> h_size h' = joined p a R h \<and> freep h' = p \<and> ring h' (freed L p a R h)"

definition free_units :: "uheap \<Rightarrow> u64 list \<Rightarrow> nat" where
  "free_units h F = (\<Sum>x\<leftarrow>F. unat (h_size h x))"

definition fend :: "uheap \<Rightarrow> u64 \<Rightarrow> u64 list \<Rightarrow> nat" where
  "fend h a R = (if joins h a R then bend h (hd R) else bend h a)"

lemma heap_okD:
  assumes ok: "heap_ok base lim h F A"
  shows "free_list base h F" "finite A" "base \<noteq> 0" "unat base + 16 \<le> lim" "lim < 2 ^ 36" "h_size h base = 0"
    "\<And>b. b \<in> A \<Longrightarrow> b \<notin> set F" "\<And>b. b \<in> A \<Longrightarrow> unat b < bend h b"
    "\<And>b. b \<in> A \<union> set F \<Longrightarrow> b \<noteq> base \<Longrightarrow> unat base + 16 \<le> unat b" "\<And>b. b \<in> A \<union> set F \<Longrightarrow> bend h b \<le> lim"
    "\<And>b c. b \<in> A \<Longrightarrow> c \<in> A \<union> set F \<Longrightarrow> b \<noteq> c \<Longrightarrow> bend h b \<le> unat c \<or> bend h c \<le> unat b"
    "\<And>x. x \<in> set F \<Longrightarrow> x \<noteq> base \<Longrightarrow> unat x < bend h x" "base \<in> set F"
proof -
  show fl: "free_list base h F" "finite A" "base \<noteq> 0" "unat base + 16 \<le> lim" "lim < 2 ^ 36" "h_size h base = 0" "base \<in> set F"
    using ok by (auto simp: heap_ok_def free_list_def) (metis empty_iff hd_in_set list.set(1))
  have tl: "b \<in> set (tl F)" if "b \<in> set F" "b \<noteq> base" for b using that fl(1) by (cases F) (auto simp: free_list_def)
  show "unat base + 16 \<le> unat b" if "b \<in> A \<union> set F" "b \<noteq> base" for b using that ok tl by (auto simp: heap_ok_def)
  show "bend h b \<le> lim" if "b \<in> A \<union> set F" for b
    using that ok tl fl(4,6) by (cases "b = base") (auto simp: heap_ok_def bend_def)
  show "\<And>b. b \<in> A \<Longrightarrow> b \<notin> set F" "\<And>b. b \<in> A \<Longrightarrow> unat b < bend h b"
    "\<And>b c. b \<in> A \<Longrightarrow> c \<in> A \<union> set F \<Longrightarrow> b \<noteq> c \<Longrightarrow> bend h b \<le> unat c \<or> bend h c \<le> unat b"
    "\<And>x. x \<in> set F \<Longrightarrow> x \<noteq> base \<Longrightarrow> unat x < bend h x"
    using ok by (auto simp: heap_ok_def free_list_def bend_def word_less_nat_alt)
qed

lemma freeingD:
  assumes f: "freeing base lim h A L p R a h'"
  shows "heap_ok base lim h (L @ p # R) A" "a \<in> A" "p < a" "p \<noteq> a" "a \<notin> set (L @ p # R)" "distinct (L @ p # R)"
    "bend h p \<le> unat a" "unat a < bend h a" "\<And>x. x \<in> set R \<Longrightarrow> bend h a \<le> unat x"
    "bend h' a = fend h a R" "bend h p = unat a \<Longrightarrow> bend h' p = fend h a R" "bend h p \<noteq> unat a \<Longrightarrow> bend h' p = bend h p"
    "\<And>x. x \<noteq> p \<Longrightarrow> x \<noteq> a \<Longrightarrow> bend h' x = bend h x" "bend h a \<le> fend h a R" "fend h a R \<le> lim"
    "sorted_wrt (\<lambda>a b. bend h a < unat b) (L @ p # R)"
proof -
  show ok: "heap_ok base lim h (L @ p # R) A" and a: "a \<in> A" using f by (simp_all add: freeing_def)
  note k = heap_okD [OF ok]
  have pl: "place h p R a" using f by (simp add: freeing_def)
  then show "p < a" "bend h p \<le> unat a" "\<And>x. x \<in> set R \<Longrightarrow> bend h a \<le> unat x" by (simp_all add: place_def)
  show na: "a \<notin> set (L @ p # R)" "unat a < bend h a" using k(7,8) a by blast+
  then show ne: "p \<noteq> a" by auto
  show "distinct (L @ p # R)" by (rule free_list_distinct [OF k(1)])
  have "bend h x < 2 ^ 36" if "x \<in> {p, a} \<union> set R" for x using k(10) [of x] k(5) that a by auto
  note b = joined_bends [OF pl ne this, of h', folded fend_def]
  have "h_size h' = joined p a R h" using f by (simp add: freeing_def)
  note b' = b [OF _ this]
  show "bend h' a = fend h a R" "bend h p = unat a \<Longrightarrow> bend h' p = fend h a R" "bend h p \<noteq> unat a \<Longrightarrow> bend h' p = bend h p"
    "\<And>x. x \<noteq> p \<Longrightarrow> x \<noteq> a \<Longrightarrow> bend h' x = bend h x" "bend h a \<le> fend h a R" by (rule b'; assumption)+
  show "fend h a R \<le> lim" using k(10) a by (auto simp: fend_def joins_def)
  show "sorted_wrt (\<lambda>a b. bend h a < unat b) (L @ p # R)" using k(1) by (simp add: free_list_def)
qed

lemma fend_before:
  assumes f: "freeing base lim h A L p R a h'" and x: "x \<in> set (if joins h a R then tl R else R)"
  shows "fend h a R < unat x" "x \<in> set R" "x \<noteq> p" "x \<noteq> a"
proof -
  note d = freeingD [OF f]
  show R: "x \<in> set R" using x by (cases R) (auto split: if_splits)
  then show "x \<noteq> p" "x \<noteq> a" using d(5,6) by auto
  obtain r R' where RR: "R = r # R'" using R by (cases R) auto
  have s: "bend h r < unat y" if "y \<in> set R'" for y using d(16) that RR by (simp add: sorted_wrt_append)
  show "fend h a R < unat x"
  proof (cases "joins h a R")
    case True
    then show ?thesis using x s RR by (simp add: fend_def)
  next
    case False
    have "bend h a \<le> unat r" "bend h a \<noteq> unat r" using d(9) RR False by (auto simp: joins_def)
    moreover have "unat r \<le> unat x" using s [of x] R RR by (auto simp: bend_def)
    ultimately show ?thesis using False by (simp add: fend_def)
  qed
qed

lemma freed_sorted:
  assumes f: "freeing base lim h A L p R a h'"
  shows "sorted_wrt (\<lambda>a b. bend h' a < unat b) (freed L p a R h)"
proof -
  note d = freeingD [OF f] and fb = fend_before [OF f]
  let ?R = "if joins h a R then tl R else R"
  have sR: "sorted_wrt (\<lambda>a b. bend h a < unat b) ?R" using d(16) by (cases R) (auto simp: sorted_wrt_append)
  have sR': "sorted_wrt (\<lambda>a b. bend h' a < unat b) ?R" by (rule sorted_wrt_mono_rel [OF _ sR]) (use fb d(13) in auto)
  have nL: "x \<noteq> p" "x \<noteq> a" if "x \<in> set L" for x using that d(5,6) by auto
  have sL: "sorted_wrt (\<lambda>a b. bend h' a < unat b) L"
    by (rule sorted_wrt_mono_rel [of L "\<lambda>a b. bend h a < unat b"]) (use nL d(13,16) in \<open>auto simp: sorted_wrt_append\<close>)
  have Lp: "bend h' x < unat p" if "x \<in> set L" for x using that d(16) nL d(13) by (simp add: sorted_wrt_append)
  have pa: "unat p < unat a" using d(3) by (simp add: word_less_nat_alt)
  have pR: "bend h' p < unat y" "bend h' a < unat y" "unat p < unat y" if "y \<in> set ?R" for y
    using fb(1) [OF that] d(7,8,10,11,12,14) pa by (cases "bend h p = unat a"; simp)+
  have LR: "bend h' x < unat y" if "x \<in> set L" "y \<in> insert a (set ?R)" for x y using that Lp pR(3) pa by (metis insert_iff less_trans)
  have "bend h' p < unat a" if "bend h p \<noteq> unat a" using d(7) d(12) [OF that] that by simp
  then show ?thesis using sL sR' Lp LR pR unfolding freed_def sorted_wrt_append by auto
qed

lemma freed_size:
  assumes f: "freeing base lim h A L p R a h'" and x: "x \<noteq> a" "x \<noteq> p \<or> bend h p \<noteq> unat a"
  shows "h_size h' x = h_size h x"
  using f x by (auto simp: freeing_def joined_def Let_def)

lemma freed_heap:
  assumes f: "freeing base lim h A L p R a h'"
  shows "heap_ok base lim h' (freed L p a R h) (A - {a})"
proof -
  note d = freeingD [OF f] and k = heap_okD [OF freeingD(1) [OF f]]
  let ?F = "freed L p a R h"
  have sub: "x = a \<or> x \<in> set (L @ p # R)" if "x \<in> set ?F" for x using that by (cases R) (auto simp: freed_def split: if_splits)
  have hd: "hd ?F = base" using k(1) by (cases L) (simp_all add: freed_def free_list_def)
  have pos: "unat x < bend h' x" if x: "x \<in> set ?F" "x \<noteq> base" for x
    using k(12) [of x] sub [OF x(1)] x(2) d(3,7,8,10,11,12,13,14) by (cases "x = a"; cases "x = p"; cases "bend h p = unat a") (auto simp: word_less_nat_alt)
  have hi: "bend h' x \<le> lim" if "x \<in> A \<union> set ?F" for x
    using k(10) [of x] sub [of x] that d(10,11,12,13,15) by (cases "x = a"; cases "x = p"; cases "bend h p = unat a") auto
  have ab: "a \<noteq> base" using d(2) k(7,13) by blast
  have pb: "bend h p \<noteq> unat a" if "p = base" using that d(4) k(6) word_unat_eq_iff [of p a] by (simp add: bend_def)
  have base: "h_size h' base = 0" using freed_size [OF f, of base] ab pb k(6) by metis
  have fl: "free_list base h' ?F"
    unfolding free_list_def using f hd base freed_sorted [OF f] pos
    by (auto simp: freeing_def bend_def word_less_nat_alt) (simp add: freed_def)
  have lo: "unat base + 16 \<le> unat x" if "x \<in> (A - {a}) \<union> set (tl ?F)" for x
  proof -
    have ne: "x \<noteq> base" using that k(7,13) free_list_distinct [OF fl] hd by (cases ?F) auto
    have "x \<in> A \<union> set (L @ p # R)" using that sub [of x] d(2) list.set_sel(2) [of ?F x] by (cases ?F) auto
    then show ?thesis using ne by (rule k(9))
  qed
  have X: "bend h b \<le> unat a \<or> fend h a R \<le> unat b" if b: "b \<in> A - {a}" for b
    using k(11) [of b a] k(11) [of b "hd R"] k(7,8) [of b] b d(2,5) by (cases R) (auto simp: fend_def joins_def)
  have Y: "bend h' b \<le> unat c \<or> bend h' c \<le> unat b" if b: "b \<in> A - {a}" and c: "c \<in> (A - {a}) \<union> set ?F" "b \<noteq> c" for b c
  proof -
    have b': "bend h' b = bend h b" using b k(7) by (intro d(13)) auto
    have "bend h b \<le> unat c \<or> bend h c \<le> unat b" if "c \<noteq> a" using k(11) [of b c] b c sub [of c] that by auto
    then show ?thesis unfolding b'
      using X [OF b] d(10,11,12,13) k(8) [of b] b by (cases "c = a"; cases "c = p"; cases "bend h p = unat a") auto
  qed
  have sz: "0 < h_size h' b" if "b \<in> A - {a}" for b
    using that k(7,8) [of b] freed_size [OF f, of b] by (auto simp: bend_def word_less_nat_alt)
  have "(A - {a}) \<inter> set ?F = {}" using sub k(7) by blast
  moreover have "bend h' x \<le> lim" if "x \<in> (A - {a}) \<union> set (tl ?F)" for x using hi [of x] that by (cases ?F) auto
  ultimately show ?thesis unfolding heap_ok_def using fl k(2,3,4,5) sz lo Y by auto
qed

lemma freed_units:
  assumes f: "freeing base lim h A L p R a h'"
  shows "free_units h' (freed L p a R h) = free_units h (L @ p # R) + unat (h_size h a)" "\<exists>x\<in>set (freed L p a R h). h_size h a \<le> h_size h' x"
proof -
  note d = freeingD [OF f] and fb = fend_before [OF f]
  let ?R = "if joins h a R then tl R else R" and ?down = "bend h p = unat a"
  have same: "(\<Sum>x\<leftarrow>L. unat (h_size h' x)) = (\<Sum>x\<leftarrow>L. unat (h_size h x))" "(\<Sum>x\<leftarrow>?R. unat (h_size h' x)) = (\<Sum>x\<leftarrow>?R. unat (h_size h x))"
  proof -
    have "h_size h' x = h_size h x" if "x \<in> set L \<union> set ?R" for x using that fb(3,4) [of x] d(5,6) by (intro freed_size [OF f]) auto
    then show "(\<Sum>x\<leftarrow>L. unat (h_size h' x)) = (\<Sum>x\<leftarrow>L. unat (h_size h x))" "(\<Sum>x\<leftarrow>?R. unat (h_size h' x)) = (\<Sum>x\<leftarrow>?R. unat (h_size h x))"
      by (simp_all cong: map_cong)
  qed
  have "unat a + 16 * unat (h_size h' a) = fend h a R" using d(10) by (simp add: bend_def)
  moreover have "fend h a R = unat a + 16 * (unat (h_size h a) + ((\<Sum>x\<leftarrow>R. unat (h_size h x)) - (\<Sum>x\<leftarrow>?R. unat (h_size h x))))"
    by (cases R) (auto simp: fend_def joins_def bend_def)
  ultimately have n: "unat (h_size h' a) = unat (h_size h a) + ((\<Sum>x\<leftarrow>R. unat (h_size h x)) - (\<Sum>x\<leftarrow>?R. unat (h_size h x)))" by simp
  have R: "(\<Sum>x\<leftarrow>?R. unat (h_size h x)) \<le> (\<Sum>x\<leftarrow>R. unat (h_size h x))" by (cases R) auto
  have p: "unat (h_size h' p) = unat (h_size h p) + (if ?down then unat (h_size h' a) else 0)"
    using d(10,11,12) by (auto simp: bend_def)
  show "free_units h' (freed L p a R h) = free_units h (L @ p # R) + unat (h_size h a)"
    using same n p R unfolding free_units_def freed_def by (simp split: if_splits)
  have le: "h_size h a \<le> h_size h' a" "?down \<Longrightarrow> h_size h' a \<le> h_size h' p" using n p by (simp_all add: word_le_nat_alt)
  show "\<exists>x\<in>set (freed L p a R h). h_size h a \<le> h_size h' x"
    using le order_trans [OF le(1)] by (cases ?down) (auto simp: freed_def)
qed

lemma free_heap_ok:
  assumes ok: "heap_ok base lim h F A" and a: "a \<in> A"
  shows "\<exists>h' F'. ufree (a + 16) h = Some h' \<and> heap_ok base lim h' F' (A - {a}) \<and> (\<forall>b\<in>A - {a}. h_size h' b = h_size h b)
     \<and> (\<exists>x\<in>set F'. h_size h a \<le> h_size h' x) \<and> free_units h' F' = free_units h F + unat (h_size h a)"
proof -
  from heap_place [OF ok a] obtain L p R where F: "F = L @ p # R" and pl: "place h p R a" and hd: "R \<noteq> [] \<Longrightarrow> a < hd R" by blast
  note k = heap_okD [OF ok]
  have small: "bend h a < 2 ^ 64" "bend h p < 2 ^ 64" using k(5) k(10) [of a] k(10) [of p] a by (simp_all add: F)
  have "free_list base h (L @ p # R)" "p < a" "a \<notin> set (L @ p # R)" using k(1) k(7) [OF a] pl by (simp_all add: F place_def)
  from ufree_links [OF this(1,2) hd this(3) small] obtain h' where
    h': "ufree (a + 16) h = Some h'" "h_size h' = joined p a R h" "freep h' = p" "ring h' (freed L p a R h)" by blast
  then have f: "freeing base lim h A L p R a h'" using ok a pl by (simp add: freeing_def F)
  have "h_size h' b = h_size h b" if "b \<in> A - {a}" for b using that k(7) [of b] by (intro freed_size [OF f]) (auto simp: F)
  then show ?thesis using h'(1) freed_heap [OF f] freed_units [OF f] unfolding F by blast
qed

section \<open>Allocating\<close>

















section \<open>The allocator is correct\<close>


text \<open>C17: \<open>free\<close> of an allocated block always returns; the block is then part of the free list, which is still
  a ring in the order of the addresses without two touching blocks, no unit of memory is lost, and
  the other allocated blocks keep their sizes and places.\<close>

theorem free_coalesces:
  assumes "heap_ok base lim h F A" and "a \<in> A"
  shows "\<exists>h' F'. ufree (a + 16) h = Some h' \<and> heap_ok base lim h' F' (A - {a}) \<and> (\<forall>b\<in>A - {a}. h_size h' b = h_size h b)
     \<and> free_units h' F' = free_units h F + unat (h_size h a)"
  using free_heap_ok [OF assms] by blast




text \<open>A memory of which \<open>sbrk\<close> gives the next bytes.\<close>

definition plain_sbrk :: "int \<Rightarrow> nat \<Rightarrow> u64 \<times> nat" where
  "plain_sbrk n e = (if 0 \<le> n \<and> e + nat n < 2 ^ 36 then (of_nat e, e + nat n) else (- 1, e))"


definition no_heap :: uheap where
  "no_heap = \<lparr>h_ptr = \<lambda>_. 0, h_size = \<lambda>_. 0, freep = 0\<rparr>"


text \<open>One block of two units, cut off a block of 4096 units.\<close>

definition small_heap :: uheap where
  "small_heap = \<lparr>h_ptr = (\<lambda>_. 0)(0x1000 := 0x2000, 0x2000 := 0x1000), h_size = (\<lambda>_. 0)(0x2000 := 4094, 0x11FE0 := 2), freep = 0x1000\<rparr>"

lemma small_heap_ok: "heap_ok 0x1000 0x12000 small_heap [0x1000, 0x2000] {0x11FE0}"
  by (simp add: heap_ok_def free_list_def ring_def small_heap_def bend_def All_less_Suc)


theorem free_coalesces_witness:
  "heap_ok 0x1000 0x12000 small_heap [0x1000, 0x2000] {0x11FE0}
   \<and> (\<exists>h' F'. ufree 0x11FF0 small_heap = Some h' \<and> heap_ok 0x1000 0x12000 h' F' {} \<and> free_units h' F' = 4096)"
  using free_coalesces [OF small_heap_ok, of "0x11FE0"] small_heap_ok by (simp add: free_units_def small_heap_def)


section \<open>Requests of 4 GB\<close>

text \<open>
  \<open>morecore\<close> passes the number of bytes to \<open>sbrk\<close> as an \<open>int\<close>.  For a request of 4 GB less one byte the
  number is 16, so the memory grows by 16 bytes and \<open>malloc\<close> returns a block that ends far behind it.
\<close>

lemma malloc_huge:
  "\<exists>h'. malloc plain_sbrk 0x1000 0xFFFFFFFF no_heap 0x2000 = Some (0x2010, h', 0x2010) \<and> bend h' 0x2000 = 0x2000 + 16 * 0x10000001"
proof -
  let ?n = "0x10000001 :: u32"
  have n: "nunits 0xFFFFFFFF = ?n" by (simp add: nunits_def)
  define h0 where "h0 = set_size 0x1000 0 ((set_ptr 0x1000 0x1000 no_heap)\<lparr>freep := 0x1000\<rparr>)"
  have h0: "h_ptr h0 0x1000 = 0x1000" "h_size h0 0x1000 = 0" "freep h0 = 0x1000" by (simp_all add: h0_def set_size_def set_ptr_def)
  define h1 where "h1 = set_size 0x2000 ?n h0"
  define h2 where "h2 = (set_ptr 0x1000 0x2000 (set_ptr 0x2000 0x1000 h1))\<lparr>freep := 0x1000\<rparr>"
  have fp: "find_place h1 0x2000 0x1000 = Some 0x1000"
    using h0 by (subst find_place.simps) (simp add: h1_def set_size_def)
  have "ufree 0x2010 h1 = Some h2"
    using fp h0 by (simp add: ufree_def Let_def h1_def h2_def set_size_def set_ptr_def hplus_def)
  moreover have "plain_sbrk 16 0x2000 = (0x2000, 0x2010)" by (simp add: plain_sbrk_def)
  moreover have "int32 (uint ?n * 16) = 16" by (simp add: int32_def)
  ultimately have m: "morecore plain_sbrk ?n h0 0x2000 = Some (0x1000, h2, 0x2010)"
    by (simp add: morecore_def Let_def h2_def flip: h1_def)
  have l1: "malloc_loop plain_sbrk ?n 0x1000 0x1000 h0 0x2000 = malloc_loop plain_sbrk ?n 0x1000 (h_ptr h2 0x1000) h2 0x2010"
    using h0 m by (subst malloc_loop.simps) simp
  have p2: "h_ptr h2 0x1000 = 0x2000" "h_size h2 0x2000 = ?n" by (simp_all add: h2_def h1_def set_ptr_def set_size_def)
  have l2: "malloc_loop plain_sbrk ?n 0x1000 0x2000 h2 0x2010 = Some (0x2010, (set_ptr 0x1000 (h_ptr h2 0x2000) h2)\<lparr>freep := 0x1000\<rparr>, 0x2010)"
    using p2 by (subst malloc_loop.simps) simp
  have "malloc plain_sbrk 0x1000 0xFFFFFFFF no_heap 0x2000 = malloc_loop plain_sbrk ?n 0x1000 0x1000 h0 0x2000"
    using h0 by (simp add: malloc_def n Let_def no_heap_def flip: h0_def[unfolded no_heap_def])
  then show ?thesis using l1 l2 p2 by (simp add: bend_def set_ptr_def)
qed

end
