(* ===== verification/Ps.thy ===== *)
theory Ps
  imports Addrspace Sysproc Ulib
begin

text \<open>
  The process listing: \<^verbatim>\<open>user/ps.c\<close>, which prints what \<open>getpinfo\<close> delivers.  The theory follows the
  data from the process table through \<open>sys_getpinfo\<close>, the bytes of \<^verbatim>\<open>struct pstat\<close> in the memory of the
  user and the formats of \<open>printf\<close> to the lines on standard output.
\<close>

section \<open>ps.c\<close>

text \<open>The \<open>i\<close>-th element of the \<open>int\<close> array at offset \<open>off\<close> of the structure, and its names.\<close>

definition ps_field :: "nat \<Rightarrow> nat \<Rightarrow> u8 list \<Rightarrow> int" where
  "ps_field off i st = sint (word_of_bytes (take 4 (drop (off + 4 * i) st)) :: u32)"

definition ps_name :: "nat \<Rightarrow> u8 list \<Rightarrow> u8 list" where
  "ps_name i st = takeWhile (\<lambda>c. c \<noteq> 0) (drop (768 + 16 * i) st)"

definition state_str :: "int \<Rightarrow> string" where
  "state_str n =
     (if n = 0 then ''UNUSED   '' else if n = 1 then ''USED     '' else if n = 2 then ''SLEEPING ''
      else if n = 3 then ''RUNNABLE '' else if n = 4 then ''RUNNING  '' else if n = 5 then ''ZOMBIE   ''
      else ''???      '')"

definition tab :: string where
  "tab = [CHR 0x09]"

definition ps_head :: string where
  "ps_head = ''PID'' @ tab @ ''PPID'' @ tab @ ''PRIOR'' @ tab @ ''STATE'' @ tab @ tab @ ''SIZE'' @ tab @ nl ''NAME''"

definition ps_format :: string where
  "ps_format = ''%d'' @ tab @ ''%d'' @ tab @ ''%d'' @ tab @ ''%s'' @ tab @ ''%d'' @ tab @ nl ''%s''"

fun ps_rows :: "u8 list \<Rightarrow> nat list \<Rightarrow> int uprog" where
  "ps_rows st [] = uexit 0"
| "ps_rows st (i # is) =
     (if ps_field 0 i st \<noteq> 0 then
        ubind (uprintf ps_format
          [VInt (of_int (ps_field 256 i st)), VInt (of_int (ps_field 512 i st)), VInt (of_int (ps_field 1792 i st)),
           VStr (Some (ascii (state_str (ps_field 2048 i st)))), VInt (of_int (ps_field 2304 i st)),
           VStr (Some (ps_name i st))]) (\<lambda>_. ps_rows st is)
      else ps_rows st is)"

definition ps_main :: "int uprog" where
  "ps_main =
     ubind (ucall Ugetpinfo) (\<lambda>(r, st).
       if r < 0 then ubind (uprintf (nl ''Error: getinfo failed'') []) (\<lambda>_. uexit 1)
       else ubind (uprintf ps_head []) (\<lambda>_. ps_rows st [0..<NPROC]))"

section \<open>Numbers in decimal\<close>

fun decimal_nat :: "nat \<Rightarrow> u8 list" where
  "decimal_nat n = (if n < 10 then [48 + of_nat n] else decimal_nat (n div 10) @ [48 + of_nat (n mod 10)])"

declare decimal_nat.simps [simp del]

definition decimal :: "int \<Rightarrow> u8 list" where
  "decimal x = (if x < 0 then [45] else []) @ decimal_nat (nat \<bar>x\<bar>)"

lemma udigits_nth: "n < 10 \<Longrightarrow> udigits ! n = 48 + of_nat n"
proof -
  assume "n < 10"
  moreover have "\<forall>n\<in>set [0..<10]. udigits ! n = 48 + of_nat n" by code_simp
  ultimately show ?thesis by simp
qed

lemma digit_buf_decimal: "digit_buf udigits 10 x = rev (decimal_nat (unat x))"
proof (induction "unat x" arbitrary: x rule: less_induct)
  case less
  have m: "udigits ! unat (x mod 10) = 48 + of_nat (unat x mod 10)" by (simp add: udigits_nth unat_mod)
  show ?case
  proof (cases "unat x < 10")
    case True
    then have "x div 10 = 0" by (simp add: word_arith_nat_div)
    with True m show ?thesis by (subst digit_buf.simps, subst decimal_nat.simps) simp
  next
    case False
    then have d: "x div 10 \<noteq> 0" "unat (x div 10) < unat x" by (auto simp: unat_div unat_eq_zero [symmetric])
    have "digit_buf udigits 10 x = udigits ! unat (x mod 10) # digit_buf udigits 10 (x div 10)"
      using d(1) by (subst digit_buf.simps) simp
    also have "\<dots> = rev (decimal_nat (unat x))"
      using False m less.hyps [OF d(2)] by (subst decimal_nat.simps) (simp add: unat_div)
    finally show ?thesis .
  qed
qed

lemma sint_of_int: "int_range x \<Longrightarrow> sint (of_int x :: u64) = x"
  by (simp add: int_range_def signed_of_int signed_take_bit_int_eq_self)

lemma sint_of_int32: "sint (of_int x :: u32) = int32 x"
  by (simp add: int32_def signed_of_int)

lemma va_int_of_int: "int_range x \<Longrightarrow> va_int (of_int x) = of_int x"
proof -
  assume r: "int_range x"
  have "(ucast (of_int x :: u64) :: u32) = of_int x"
    by (rule bit_word_eqI) (simp add: bit_simps)
  then have "va_int (of_int x) = scast (of_int x :: u32)" by (simp add: va_int_def)
  also have "\<dots> = of_int (sint (of_int x :: u32))" by simp
  finally show ?thesis using r by (simp only: sint_of_int32 int32_id)
qed

lemma printint_decimal:
  assumes "int_range x"
  shows "printint udigits (of_int x) 10 True = decimal x"
proof -
  have "take_bit 64 \<bar>x\<bar> = \<bar>x\<bar>" using assms by (intro take_bit_int_eq_self) (auto simp: int_range_def)
  then have "unat (of_int \<bar>x\<bar> :: u64) = nat \<bar>x\<bar>" by (simp add: unat_eq_nat_uint uint_word_of_int_eq)
  moreover have "(if x < 0 then - of_int x else of_int x :: u64) = of_int \<bar>x\<bar>" by (simp add: abs_if)
  ultimately show ?thesis
    using assms by (cases "x < 0") (simp_all add: printint_def sint_of_int digit_buf_decimal decimal_def ch_def Let_def)
qed

section \<open>The formats\<close>

lemma vprintf_nil: "vprintf_loop False [] args = Some []"
  by (simp add: vprintf_loop.simps nth0_def)

lemma vprintf_char:
  "c \<noteq> 0 \<Longrightarrow> c \<noteq> 37 \<Longrightarrow> vprintf_loop False (c # f) args = map_option (Cons c) (vprintf_loop False f args)"
  by (subst vprintf_loop.simps) (simp add: nth0_def ch_def)

lemma vprintf_int:
  "vprintf_loop False (37 # 100 # f) (VInt x # args)
   = map_option (append (printint udigits (va_int x) 10 True)) (vprintf_loop False f args)"
  by (subst vprintf_loop.simps, simp add: nth0_def ch_def, subst vprintf_loop.simps)
    (simp add: nth0_def ch_def conv.simps Let_def)

lemma vprintf_str:
  "vprintf_loop False (37 # 115 # f) (VStr (Some t) # args) = map_option (append t) (vprintf_loop False f args)"
  by (subst vprintf_loop.simps, simp add: nth0_def ch_def, subst vprintf_loop.simps)
    (simp add: nth0_def ch_def conv.simps Let_def str_or_null_def)

lemmas vprintf_steps = vprintf_nil vprintf_char vprintf_int vprintf_str

lemma ps_format_bytes: "ascii ps_format = [37, 100, 9, 37, 100, 9, 37, 100, 9, 37, 115, 9, 37, 100, 9, 37, 115, 10]"
  by code_simp

lemma vprintf_row:
  assumes "int_range a" "int_range b" "int_range c" "int_range d"
  shows "vprintf (ascii ps_format)
      [VInt (of_int a), VInt (of_int b), VInt (of_int c), VStr (Some st), VInt (of_int d), VStr (Some nm)]
    = Some (decimal a @ [9] @ decimal b @ [9] @ decimal c @ [9] @ st @ [9] @ decimal d @ [9] @ nm @ [10])"
  using assms by (simp add: vprintf_def ps_format_bytes vprintf_steps va_int_of_int printint_decimal)

lemma vprintf_head: "vprintf (ascii ps_head) [] = Some (ascii ps_head)"
  by code_simp

section \<open>What getpinfo collects\<close>

definition pstat_shape :: "pstat \<Rightarrow> bool" where
  "pstat_shape ps \<longleftrightarrow>
     length (ps_isused ps) = NPROC \<and> length (ps_pid ps) = NPROC \<and> length (ps_ppid ps) = NPROC \<and> length (ps_pname ps) = NPROC
     \<and> length (ps_priority ps) = NPROC \<and> length (ps_pstate ps) = NPROC \<and> length (ps_memsize ps) = NPROC
     \<and> (\<forall>n\<in>set (ps_pname ps). length n = 16)"

text \<open>The name in the table up to its NUL, 15 bytes at most.\<close>

definition proc_name :: "proc \<Rightarrow> u8 list" where
  "proc_name p = takeWhile (\<lambda>c. c \<noteq> 0) (take 15 (p_name p))"

definition parent_pid :: "kernel \<Rightarrow> proc \<Rightarrow> int" where
  "parent_pid s p = (case p_parent p of None \<Rightarrow> 0 | Some q \<Rightarrow> p_pid (procs s ! q))"

definition entry_of :: "kernel \<Rightarrow> nat \<Rightarrow> pstat \<Rightarrow> bool" where
  "entry_of s i ps \<longleftrightarrow>
     (let p = procs s ! i
      in if p_state p = UNUSED then ps_isused ps ! i = 0
         else ps_isused ps ! i = 1 \<and> ps_pid ps ! i = p_pid p \<and> ps_ppid ps ! i = parent_pid s p
              \<and> ps_priority ps ! i = p_priority p \<and> ps_pstate ps ! i = state_num (p_state p)
              \<and> ps_memsize ps ! i = int32 (uint (p_sz p))
              \<and> takeWhile (\<lambda>c. c \<noteq> 0) (ps_pname ps ! i) = proc_name p \<and> 0 \<in> set (ps_pname ps ! i))"

lemma length_safestrcpy_loop: "length (safestrcpy_loop t n) \<le> Suc n"
  by (induction t n rule: safestrcpy_loop.induct) auto

lemma safestrcpy_loop_str:
  "n \<le> length t \<Longrightarrow> takeWhile (\<lambda>c. c \<noteq> 0) (safestrcpy_loop t n @ z) = takeWhile (\<lambda>c. c \<noteq> 0) (take n t) \<and> 0 \<in> set (safestrcpy_loop t n)"
proof (induction t n rule: safestrcpy_loop.induct)
  case (2 t n)
  then show ?case by (cases t) auto
qed simp

lemma safestrcpy_name:
  assumes "length d = 16" "length t = 16"
  shows "length (safestrcpy d t 16) = 16" "takeWhile (\<lambda>c. c \<noteq> 0) (safestrcpy d t 16) = takeWhile (\<lambda>c. c \<noteq> 0) (take 15 t)"
    "0 \<in> set (safestrcpy d t 16)"
  using assms length_safestrcpy_loop [of t 15] safestrcpy_loop_str [of 15 t]
  by (simp_all add: safestrcpy_def Let_def)

lemma pstat_fill_shape:
  assumes "pstat_shape ps" "i < NPROC" "length (p_name (procs s ! i)) = 16"
  shows "pstat_shape (pstat_fill s i ps)"
proof -
  have "length (ps_pname ps ! i) = 16" using assms by (simp add: pstat_shape_def)
  then have "length (safestrcpy (ps_pname ps ! i) (p_name (procs s ! i)) 16) = 16" using assms safestrcpy_name by blast
  with assms \<open>length (ps_pname ps ! i) = 16\<close> show ?thesis
    by (auto simp: pstat_shape_def pstat_fill_def Let_def dest!: subsetD [OF set_update_subset_insert])
qed

lemma pstat_fill_entry:
  assumes "pstat_shape ps" "i < NPROC" "length (p_name (procs s ! i)) = 16"
  shows "entry_of s i (pstat_fill s i ps)" "j \<noteq> i \<Longrightarrow> entry_of s j (pstat_fill s i ps) = entry_of s j ps"
proof -
  have "length (ps_pname ps ! i) = 16" using assms by (simp add: pstat_shape_def)
  note n = safestrcpy_name [OF this assms(3)]
  show "entry_of s i (pstat_fill s i ps)"
    using assms n by (auto simp: pstat_shape_def entry_of_def pstat_fill_def Let_def proc_name_def parent_pid_def)
  show "j \<noteq> i \<Longrightarrow> entry_of s j (pstat_fill s i ps) = entry_of s j ps"
    by (simp add: entry_of_def pstat_fill_def Let_def)
qed

lemma pstat_fill_all:
  assumes "pstat_shape ps" "n \<le> NPROC" "\<forall>p\<in>set (procs s). length (p_name p) = 16" "length (procs s) = NPROC"
  shows "pstat_shape (fold (pstat_fill s) [0..<n] ps) \<and> (\<forall>i<n. entry_of s i (fold (pstat_fill s) [0..<n] ps))"
  using assms(2)
proof (induction n)
  case (Suc n)
  then have n: "n < NPROC" "length (p_name (procs s ! n)) = 16" using assms by simp_all
  with Suc show ?case by (auto simp: pstat_fill_shape pstat_fill_entry less_Suc_eq)
qed (simp add: assms(1))

lemma pstat_of_entries:
  assumes "pstat_shape junk" "\<forall>p\<in>set (procs s). length (p_name p) = 16" "length (procs s) = NPROC"
  shows "pstat_shape (pstat_of junk s)" "i < NPROC \<Longrightarrow> entry_of s i (pstat_of junk s)"
proof -
  let ?z = "fold (\<lambda>i ps. ps\<lparr>ps_isused := (ps_isused ps)[i := 0]\<rparr>)"
  have "pstat_shape ps \<Longrightarrow> pstat_shape (ps\<lparr>ps_isused := (ps_isused ps)[i := 0]\<rparr>)" for i ps by (simp add: pstat_shape_def)
  then have "pstat_shape ps \<Longrightarrow> pstat_shape (?z is ps)" for "is" ps by (induction "is" arbitrary: ps) simp_all
  note z = pstat_fill_all [OF this [OF assms(1), of "[0..<NPROC]"] order_refl assms(2,3)]
  then show "pstat_shape (pstat_of junk s)" "i < NPROC \<Longrightarrow> entry_of s i (pstat_of junk s)"
    unfolding pstat_of_def Let_def by blast+
qed

section \<open>The bytes of the structure\<close>

lemma length_ints_bytes [simp]: "length (ints_bytes xs) = 4 * length xs"
  by (induction xs) (simp_all add: ints_bytes_def)

lemma ints_bytes_at: "i < length xs \<Longrightarrow> take 4 (drop (4 * i) (ints_bytes xs @ z)) = bytes_of 4 (of_int (xs ! i) :: u32)"
proof (induction xs arbitrary: i)
  case (Cons x xs)
  then show ?case by (cases i) (simp_all add: ints_bytes_def)
qed simp

lemma ps_field_ints: "i < length xs \<Longrightarrow> length pre = off \<Longrightarrow> ps_field off i (pre @ ints_bytes xs @ z) = int32 (xs ! i)"
  using ints_bytes_at [of i xs z] by (simp add: ps_field_def word_of_bytes_of sint_of_int32)

lemma concat_names_at:
  "i < length ns \<Longrightarrow> \<forall>n\<in>set ns. length n = 16 \<Longrightarrow> drop (16 * i) (concat ns @ z) = ns ! i @ concat (drop (Suc i) ns) @ z"
proof (induction ns arbitrary: i)
  case (Cons n ns)
  then show ?case by (cases i) simp_all
qed simp

lemma length_concat_names: "\<forall>n\<in>set ns. length n = 16 \<Longrightarrow> length (concat ns) = 16 * length ns"
  by (induction ns) auto

lemma length_pstat_bytes: "pstat_shape ps \<Longrightarrow> length (pstat_bytes ps) = 2560"
  by (simp add: pstat_shape_def pstat_bytes_def length_concat_names)

lemma ps_fields:
  assumes "pstat_shape ps" "i < NPROC"
  shows "ps_field 0 i (pstat_bytes ps) = int32 (ps_isused ps ! i)" "ps_field 256 i (pstat_bytes ps) = int32 (ps_pid ps ! i)"
    "ps_field 512 i (pstat_bytes ps) = int32 (ps_ppid ps ! i)" "ps_field 1792 i (pstat_bytes ps) = int32 (ps_priority ps ! i)"
    "ps_field 2048 i (pstat_bytes ps) = int32 (ps_pstate ps ! i)" "ps_field 2304 i (pstat_bytes ps) = int32 (ps_memsize ps ! i)"
    "0 \<in> set (ps_pname ps ! i) \<Longrightarrow> ps_name i (pstat_bytes ps) = takeWhile (\<lambda>c. c \<noteq> 0) (ps_pname ps ! i)"
proof -
  let ?a = "ints_bytes (ps_isused ps)" and ?b = "ints_bytes (ps_pid ps)" and ?c = "ints_bytes (ps_ppid ps)"
  let ?n = "concat (ps_pname ps)" and ?d = "ints_bytes (ps_priority ps)" and ?e = "ints_bytes (ps_pstate ps)"
  have l: "length ?n = 1024" using assms by (simp add: pstat_shape_def length_concat_names)
  note sh = assms [unfolded pstat_shape_def]
  show "ps_field 0 i (pstat_bytes ps) = int32 (ps_isused ps ! i)"
    using ps_field_ints [of i "ps_isused ps" "[]" 0] sh by (simp add: pstat_bytes_def)
  show "ps_field 256 i (pstat_bytes ps) = int32 (ps_pid ps ! i)"
    using ps_field_ints [of i "ps_pid ps" ?a 256] sh by (simp add: pstat_bytes_def)
  show "ps_field 512 i (pstat_bytes ps) = int32 (ps_ppid ps ! i)"
    using ps_field_ints [of i "ps_ppid ps" "?a @ ?b" 512] sh by (simp add: pstat_bytes_def)
  show "ps_field 1792 i (pstat_bytes ps) = int32 (ps_priority ps ! i)"
    using ps_field_ints [of i "ps_priority ps" "?a @ ?b @ ?c @ ?n" 1792] sh l by (simp add: pstat_bytes_def)
  show "ps_field 2048 i (pstat_bytes ps) = int32 (ps_pstate ps ! i)"
    using ps_field_ints [of i "ps_pstate ps" "?a @ ?b @ ?c @ ?n @ ?d" 2048] sh l by (simp add: pstat_bytes_def)
  show "ps_field 2304 i (pstat_bytes ps) = int32 (ps_memsize ps ! i)"
    using ps_field_ints [of i "ps_memsize ps" "?a @ ?b @ ?c @ ?n @ ?d @ ?e" 2304 "[]"] sh l by (simp add: pstat_bytes_def)
  assume z: "0 \<in> set (ps_pname ps ! i)"
  have "drop (768 + 16 * i) (pstat_bytes ps) = drop (16 * i) (?n @ ?d @ ?e @ ints_bytes (ps_memsize ps))"
    using sh by (simp add: pstat_bytes_def)
  also have "\<dots> = ps_pname ps ! i @ concat (drop (Suc i) (ps_pname ps)) @ ?d @ ?e @ ints_bytes (ps_memsize ps)"
    using sh by (intro concat_names_at) simp_all
  finally show "ps_name i (pstat_bytes ps) = takeWhile (\<lambda>c. c \<noteq> 0) (ps_pname ps ! i)"
    using z by (simp add: ps_name_def takeWhile_append1)
qed

section \<open>The listing\<close>

fun state_name :: "procstate \<Rightarrow> string" where
  "state_name UNUSED = ''UNUSED   ''"
| "state_name USED = ''USED     ''"
| "state_name SLEEPING = ''SLEEPING ''"
| "state_name RUNNABLE = ''RUNNABLE ''"
| "state_name RUNNING = ''RUNNING  ''"
| "state_name ZOMBIE = ''ZOMBIE   ''"

definition ps_row :: "kernel \<Rightarrow> proc \<Rightarrow> u8 list" where
  "ps_row s p =
     decimal (p_pid p) @ [9] @ decimal (parent_pid s p) @ [9] @ decimal (p_priority p) @ [9] @ ascii (state_name (p_state p)) @ [9]
     @ decimal (int32 (uint (p_sz p))) @ [9] @ proc_name p @ [10]"

definition ps_table :: "kernel \<Rightarrow> u8 list" where
  "ps_table s = ascii ps_head @ concat (map (ps_row s) [p \<leftarrow> procs s. p_state p \<noteq> UNUSED])"

text \<open>What the table keeps: its size, names of 16 bytes, \<open>int\<close> fields in range, parents in the table.\<close>

definition listing_ok :: "kernel \<Rightarrow> bool" where
  "listing_ok s \<longleftrightarrow> length (procs s) = NPROC
     \<and> (\<forall>p\<in>set (procs s). length (p_name p) = 16 \<and> int_range (p_pid p) \<and> int_range (p_priority p)
          \<and> (\<forall>q. p_parent p = Some q \<longrightarrow> q < NPROC))"

lemma parent_pid_range: "listing_ok s \<Longrightarrow> p \<in> set (procs s) \<Longrightarrow> int_range (parent_pid s p)"
  by (auto simp: listing_ok_def parent_pid_def int_range_def split: option.splits)

lemma state_str_num: "state_str (int32 (state_num st)) = state_name st"
  by (cases st) (simp_all add: state_str_def int32_small)

lemma putcs_run:
  "length bs \<le> length rs \<Longrightarrow> putcs fd bs rs = URet () (drop (length bs) rs) (map (\<lambda>b. Uwrite fd [b]) bs)"
proof (induction bs arbitrary: rs)
  case (Cons b bs)
  then show ?case by (cases rs) simp_all
qed (simp add: ureturn_def)

lemma uprintf_run:
  "vprintf (ascii fmt) args = Some bs \<Longrightarrow> length bs \<le> length rs \<Longrightarrow>
   ubind (uprintf fmt args) f rs = prefix_calls (map (\<lambda>b. Uwrite 1 [b]) bs) (f () (drop (length bs) rs))"
  by (simp add: uprintf_def ufprintf_def ubind_def putcs_run)

lemma ps_rows_step:
  assumes "listing_ok s" "pstat_shape junk" "i < NPROC" and "st = pstat_bytes (pstat_of junk s)" "p = procs s ! i"
  shows "ps_field 0 i st \<noteq> 0 \<longleftrightarrow> p_state p \<noteq> UNUSED"
    "p_state p \<noteq> UNUSED \<Longrightarrow> vprintf (ascii ps_format)
       [VInt (of_int (ps_field 256 i st)), VInt (of_int (ps_field 512 i st)), VInt (of_int (ps_field 1792 i st)),
        VStr (Some (ascii (state_str (ps_field 2048 i st)))), VInt (of_int (ps_field 2304 i st)), VStr (Some (ps_name i st))]
      = Some (ps_row s p)"
proof -
  let ?ps = "pstat_of junk s"
  have n: "\<forall>p\<in>set (procs s). length (p_name p) = 16" and l: "length (procs s) = NPROC" using assms(1) by (auto simp: listing_ok_def)
  have sh: "pstat_shape ?ps" by (rule pstat_of_entries(1) [OF assms(2) n l])
  have e: "entry_of s i ?ps" by (rule pstat_of_entries(2) [OF assms(2) n l assms(3)])
  note f = ps_fields [OF sh assms(3), folded assms(4)]
  have p: "p \<in> set (procs s)" using l assms(3,5) by simp
  have r: "int_range (p_pid p)" "int_range (p_priority p)" "int_range (parent_pid s p)"
    using assms(1) p parent_pid_range [OF assms(1) p] by (auto simp: listing_ok_def)
  show "ps_field 0 i st \<noteq> 0 \<longleftrightarrow> p_state p \<noteq> UNUSED"
    using e f(1) assms(5) by (auto simp: entry_of_def Let_def int32_small split: if_splits)
  assume "p_state p \<noteq> UNUSED"
  with e assms(5) have g: "ps_pid ?ps ! i = p_pid p" "ps_ppid ?ps ! i = parent_pid s p" "ps_priority ?ps ! i = p_priority p"
      "ps_pstate ?ps ! i = state_num (p_state p)" "ps_memsize ?ps ! i = int32 (uint (p_sz p))"
      "takeWhile (\<lambda>c. c \<noteq> 0) (ps_pname ?ps ! i) = proc_name p" "0 \<in> set (ps_pname ?ps ! i)"
    by (simp_all add: entry_of_def Let_def)
  show "vprintf (ascii ps_format)
       [VInt (of_int (ps_field 256 i st)), VInt (of_int (ps_field 512 i st)), VInt (of_int (ps_field 1792 i st)),
        VStr (Some (ascii (state_str (ps_field 2048 i st)))), VInt (of_int (ps_field 2304 i st)), VStr (Some (ps_name i st))]
      = Some (ps_row s p)"
    unfolding f(2-6) f(7) [OF g(7)] g(1-6) state_str_num int32_id [OF r(1)] int32_id [OF r(2)] int32_id [OF r(3)]
      int32_id [OF int32_range] using vprintf_row [OF r(1,3,2) int32_range] by (simp add: ps_row_def)
qed

lemma ps_rows_run:
  assumes "listing_ok s" "pstat_shape junk" "st = pstat_bytes (pstat_of junk s)"
  shows "set is \<subseteq> {..<NPROC} \<Longrightarrow> bs = concat (map (ps_row s) (filter (\<lambda>p. p_state p \<noteq> UNUSED) (map ((!) (procs s)) is))) \<Longrightarrow>
    length bs \<le> length rs \<Longrightarrow> ps_rows st is rs = UExit 0 (map (\<lambda>b. Uwrite 1 [b]) bs @ [Uexit 0])"
proof (induction "is" arbitrary: bs rs)
  case Nil
  then show ?case by (simp add: uexit_def)
next
  case (Cons i "is")
  let ?p = "procs s ! i" and ?bs = "concat (map (ps_row s) (filter (\<lambda>p. p_state p \<noteq> UNUSED) (map ((!) (procs s)) is)))"
  have i: "i < NPROC" using Cons.prems by simp
  note st = ps_rows_step [OF assms(1,2) i assms(3) refl]
  show ?case
  proof (cases "p_state ?p = UNUSED")
    case True
    then show ?thesis using Cons.IH [of bs rs] Cons.prems st(1) by simp
  next
    case False
    then have bs: "bs = ps_row s ?p @ ?bs" using Cons.prems(2) by simp
    have IH: "ps_rows st is (drop (length (ps_row s ?p)) rs) = UExit 0 (map (\<lambda>b. Uwrite 1 [b]) ?bs @ [Uexit 0])"
      using Cons.prems False by (intro Cons.IH) simp_all
    have "length (ps_row s ?p) \<le> length rs" using Cons.prems(3) bs by simp
    then show ?thesis using False st(1) IH bs by (simp add: uprintf_run [OF st(2) [OF False]])
  qed
qed

lemma ps_main_run:
  assumes "listing_ok s" "pstat_shape junk" "length (ps_table s) \<le> length rs"
  shows "ps_main ((0, pstat_bytes (pstat_of junk s)) # rs)
    = UExit 0 (Ugetpinfo # map (\<lambda>b. Uwrite 1 [b]) (ps_table s) @ [Uexit 0])"
proof -
  let ?bs = "concat (map (ps_row s) (filter (\<lambda>p. p_state p \<noteq> UNUSED) (procs s)))"
  have "map ((!) (procs s)) [0..<NPROC] = procs s" using assms(1) by (metis listing_ok_def map_nth)
  then have "ps_rows (pstat_bytes (pstat_of junk s)) [0..<NPROC] (drop (length (ascii ps_head)) rs) = UExit 0 (map (\<lambda>b. Uwrite 1 [b]) ?bs @ [Uexit 0])"
    using assms(3) by (intro ps_rows_run [OF assms(1,2) refl]) (auto simp: ps_table_def)
  then show ?thesis using assms(3) by (simp add: ps_main_def uprintf_run [OF vprintf_head] ps_table_def)
qed

text \<open>C4: when the argument of \<open>getpinfo\<close> points to room for a \<^verbatim>\<open>struct pstat\<close> in the memory of the process, the
  call returns 0 and changes only that memory.  From the bytes it leaves there, \<open>ps\<close> prints the heading
  and then, in the order of the table, one line for each process that is not \<open>UNUSED\<close>: its number, the number of its
  parent or 0, its priority, its state, its size and its name, the numbers in decimal; then it exits with status 0.\<close>

theorem ps_lists_processes:
  assumes "listing_ok s" "pstat_shape junk" "myproc s = Some p"
    and "pt = p_pagetable (procs s ! p)" "va = tf_a0 (tframes s (p_trapframe (procs s ! p)))"
    and "user_buffer pt va 2560 (mem s)" "length (ps_table s) \<le> length rs"
  shows "\<exists>m. sys_getpinfo junk s = Done 0 (s\<lparr>mem := m\<rparr>)
    \<and> (\<forall>a. a \<notin> (\<lambda>i. ubyte pt (va + of_nat i) (mem s)) ` {..<2560} \<longrightarrow> m a = mem s a)
    \<and> ps_main ((0, map (\<lambda>i. m (ubyte pt (va + of_nat i) m)) [0..<2560]) # rs)
      = UExit 0 (Ugetpinfo # map (\<lambda>b. Uwrite 1 [b]) (ps_table s) @ [Uexit 0])"
proof (intro exI conjI allI impI)
  let ?src = "pstat_bytes (pstat_of junk s)" and ?f = "\<lambda>i. ubyte pt (va + of_nat i) (mem s)"
  let ?m = "put_bytes ?f ?src (mem s)"
  have len: "length ?src = 2560"
    using assms(1,2) by (intro length_pstat_bytes pstat_of_entries(1)) (auto simp: listing_ok_def)
  then have ub: "user_buffer pt va (length ?src) (mem s)" using assms(6) by simp
  show "sys_getpinfo junk s = Done 0 (s\<lparr>mem := ?m\<rparr>)"
    using copyout_mapped [OF ub] assms(3-5)
    by (simp add: sys_getpinfo_def argaddr_def argraw_def cur_def deref_def Let_def)
  show "?m a = mem s a" if "a \<notin> ?f ` {..<2560}" for a using that len by (intro put_bytes_other) auto
  show "ps_main ((0, map (\<lambda>i. ?m (ubyte pt (va + of_nat i) ?m)) [0..<2560]) # rs)
      = UExit 0 (Ugetpinfo # map (\<lambda>b. Uwrite 1 [b]) (ps_table s) @ [Uexit 0])"
    using put_bytes_read_back [OF ub refl] ps_main_run [OF assms(1,2,7)] by (simp add: len)
qed

text \<open>A kernel with two processes, the second one the caller, whose page 0 is mapped.\<close>

definition ps_kernel :: kernel where
  "ps_kernel = small_kernel\<lparr>
     procs := [zero_proc\<lparr>p_state := SLEEPING, p_pid := 1, p_sz := 4096, p_name := [105, 110, 105, 116] @ replicate 12 0\<rparr>,
               zero_proc\<lparr>p_state := RUNNING, p_pid := 3, p_parent := Some 0, p_sz := 8192, p_pagetable := 0x80001000,
                  p_name := [112, 115] @ replicate 14 0\<rparr>] @ replicate 62 zero_proc,
     cpus := (cpus small_kernel)[0 := zero_cpu\<lparr>c_proc := Some 1\<rparr>],
     tframes := (\<lambda>a. (tframes small_kernel a)\<lparr>tf_a0 := 16\<rparr>)\<rparr>"

definition ps_junk :: pstat where
  "ps_junk = \<lparr>ps_isused = replicate 64 7, ps_pid = replicate 64 7, ps_ppid = replicate 64 7, ps_pname = replicate 64 (replicate 16 7),
     ps_priority = replicate 64 7, ps_pstate = replicate 64 7, ps_memsize = replicate 64 7\<rparr>"

lemma page_buffer:
  assumes "n \<le> 4080"
  shows "user_buffer 0x80001000 16 n small_mem"
proof -
  have small: "unat (of_nat i :: u64) = i" if "i < n" for i using that assms by (simp add: unat_of_nat take_bit_nat_eq_self)
  have r: "PGROUNDDOWN (16 + of_nat i) = 0" if "i < n" for i
    using PGROUNDDOWN_add [of i 16] that assms by (simp add: PGROUNDDOWN_def)
  have u: "ubyte 0x80001000 (16 + of_nat i) small_mem = 0x80004010 + of_nat i" if "i < n" for i
    using that by (simp add: ubyte_def r small_space)
  have "inj_on (\<lambda>i. ubyte 0x80001000 (16 + of_nat i) small_mem) {..<n}"
  proof (rule inj_onI)
    fix i j assume "i \<in> {..<n}" "j \<in> {..<n}" and "ubyte 0x80001000 (16 + of_nat i) small_mem = ubyte 0x80001000 (16 + of_nat j) small_mem"
    then have "(of_nat i :: u64) = of_nat j" "i < n" "j < n" by (simp_all add: u)
    then show "i = j" using small by metis
  qed
  moreover have "\<not> unat (0x80004010 + of_nat j - a :: u64) < 8" if "j < n" "a \<in> {0x80001000, 0x80002000, 0x80003000}" for j a
  proof -
    have c: "unat (c + of_nat j :: u64) = unat c + j" if "unat c < 2 ^ 32" for c :: u64
      using small [OF \<open>j < n\<close>] \<open>j < n\<close> assms that by (simp add: unat_word_ariths(1))
    have e: "0x80004010 + of_nat j - a = (0x80004010 - a) + of_nat j" by simp
    have "unat (0x80004010 - a :: u64) < 2 ^ 32" "8 \<le> unat (0x80004010 - a :: u64)" using that(2) by auto
    then show ?thesis unfolding e using c [of "0x80004010 - a"] by linarith
  qed
  ultimately show ?thesis by (simp add: user_buffer_def r small_space u)
qed

theorem ps_lists_processes_witness:
  "\<exists>m. sys_getpinfo ps_junk ps_kernel = Done 0 (ps_kernel\<lparr>mem := m\<rparr>)
    \<and> ps_main ((0, map (\<lambda>i. m (ubyte 0x80001000 (16 + of_nat i) m)) [0..<2560]) # replicate 1000 (1, []))
      = UExit 0 (Ugetpinfo # map (\<lambda>b. Uwrite 1 [b]) (ascii ps_head @ ascii ''1'' @ [9] @ ascii ''0'' @ [9] @ ascii ''0'' @ [9]
          @ ascii ''SLEEPING '' @ [9] @ ascii ''4096'' @ [9] @ ascii ''init'' @ [10] @ ascii ''3'' @ [9] @ ascii ''1'' @ [9] @ ascii ''0'' @ [9]
          @ ascii ''RUNNING  '' @ [9] @ ascii ''8192'' @ [9] @ ascii ''ps'' @ [10]) @ [Uexit 0])"
proof -
  have ok: "listing_ok ps_kernel" by (auto simp: listing_ok_def ps_kernel_def zero_proc_def int_range_def)
  have junk: "pstat_shape ps_junk" by (simp add: pstat_shape_def ps_junk_def)
  have mp: "myproc ps_kernel = Some 1"
    by (simp add: ps_kernel_def myproc_def mycpu_def small_kernel_def zero_kernel_def zero_table_def zero_cpu_def ptable.defs)
  have pt: "0x80001000 = p_pagetable (procs ps_kernel ! 1)" "16 = tf_a0 (tframes ps_kernel (p_trapframe (procs ps_kernel ! 1)))"
    by (simp_all add: ps_kernel_def)
  have ub: "user_buffer 0x80001000 16 2560 (mem ps_kernel)"
    using page_buffer [of 2560] by (simp add: ps_kernel_def small_kernel_def)
  have d: "decimal 0 = ascii ''0''" "decimal 1 = ascii ''1''" "decimal 3 = ascii ''3''" "decimal (int32 4096) = ascii ''4096''"
      "decimal (int32 8192) = ascii ''8192''"
    by (simp_all add: decimal_def decimal_nat.simps ascii_def int32_small)
  have n: "[105, 110, 105, 116] = ascii ''init''" "[112, 115] = ascii ''ps''" by code_simp+
  have t: "ps_table ps_kernel = ascii ps_head @ ascii ''1'' @ [9] @ ascii ''0'' @ [9] @ ascii ''0'' @ [9]
          @ ascii ''SLEEPING '' @ [9] @ ascii ''4096'' @ [9] @ ascii ''init'' @ [10] @ ascii ''3'' @ [9] @ ascii ''1'' @ [9] @ ascii ''0'' @ [9]
          @ ascii ''RUNNING  '' @ [9] @ ascii ''8192'' @ [9] @ ascii ''ps'' @ [10]"
    unfolding n [symmetric] by (simp add: ps_table_def ps_kernel_def zero_proc_def ps_row_def parent_pid_def proc_name_def d filter_replicate)
  have "length (ps_table ps_kernel) \<le> length (replicate 1000 (1 :: int, [] :: u8 list))"
    unfolding t by (simp add: ascii_def ps_head_def tab_def nl_def)
  from ps_lists_processes [OF ok junk mp pt ub this] show ?thesis unfolding t by blast
qed

end
