(* ===== verification/Sh.thy ===== *)
theory Sh
  imports Ulib
begin

text \<open>
  The shell, \<^verbatim>\<open>user/sh.c\<close>.  The command line is the list of its bytes and a position in it stands for
  a \<^verbatim>\<open>char *\<close>; the byte behind the last one is the \<open>NUL\<close> of the string.  A parsed command is a tree
  whose strings are pairs of positions, as \<open>argv\<close> and \<open>eargv\<close> are, until \<open>nulterminate\<close> stores the
  \<open>NUL\<close> bytes.  Memory for the nodes is always available here: the code does not test the result of
  \<open>malloc\<close>.

  The four mutually recursive functions carry a bound on the depth of their calls; \<open>parse_bound\<close> is
  enough for every line.
\<close>

section \<open>Commands\<close>

datatype cmd =
    EXEC "(nat \<times> nat) list"
  | REDIR cmd nat nat int int
  | PIPE cmd cmd
  | LIST cmd cmd
  | BACK cmd

abbreviation (input) MAXARGS :: nat where "MAXARGS \<equiv> 10"

text \<open>The constructors allocate a node and fill it in.\<close>

definition execcmd :: cmd where
  "execcmd = EXEC []"

abbreviation (input) redircmd :: "cmd \<Rightarrow> nat \<Rightarrow> nat \<Rightarrow> int \<Rightarrow> int \<Rightarrow> cmd" where
  "redircmd subcmd file efile mode fd \<equiv> REDIR subcmd file efile mode fd"

abbreviation (input) pipecmd :: "cmd \<Rightarrow> cmd \<Rightarrow> cmd" where
  "pipecmd left right \<equiv> PIPE left right"

abbreviation (input) listcmd :: "cmd \<Rightarrow> cmd \<Rightarrow> cmd" where
  "listcmd left right \<equiv> LIST left right"

abbreviation (input) backcmd :: "cmd \<Rightarrow> cmd" where
  "backcmd subcmd \<equiv> BACK subcmd"

section \<open>Tokens\<close>

definition whitespace :: "u8 list" where
  "whitespace = [32, 9, 13, 10, 11]"

definition symbols :: "u8 list" where
  "symbols = [60, 124, 62, 38, 59, 40, 41]"

definition sh_at :: "u8 list \<Rightarrow> nat \<Rightarrow> u8" where
  "sh_at b s = (if s < length b then b ! s else 0)"

definition is_white :: "u8 \<Rightarrow> bool" where
  "is_white c \<longleftrightarrow> ustrchr whitespace c \<noteq> None"

definition is_word :: "u8 \<Rightarrow> bool" where
  "is_word c \<longleftrightarrow> ustrchr whitespace c = None \<and> ustrchr symbols c = None"

text \<open>\<open>while(s < es && P(*s)) s++\<close>\<close>

function scan :: "(u8 \<Rightarrow> bool) \<Rightarrow> u8 list \<Rightarrow> nat \<Rightarrow> nat" where
  "scan P b s = (if s < length b \<and> P (b ! s) then scan P b (s + 1) else s)"
  by pat_completeness auto
termination
  by (relation "measure (\<lambda>(P, b, s). length b - s)") auto

declare scan.simps [simp del]

definition gettoken :: "u8 list \<Rightarrow> nat \<Rightarrow> u8 \<times> nat \<times> nat \<times> nat" where
  "gettoken b s =
     (let q = scan is_white b s;
          c = sh_at b q;
          (ret, eq) =
            (if c = 0 then (c, q)
             else if c \<in> {124, 40, 41, 59, 38, 60} then (c, q + 1)
             else if c = 62 then if sh_at b (q + 1) = 62 then (43, q + 2) else (c, q + 1)
             else (97, scan is_word b q))
      in (ret, q, eq, scan is_white b eq))"

definition peek :: "u8 list \<Rightarrow> nat \<Rightarrow> u8 list \<Rightarrow> nat \<times> bool" where
  "peek b s toks =
     (let s = scan is_white b s in (s, sh_at b s \<noteq> 0 \<and> ustrchr toks (sh_at b s) \<noteq> None))"

lemma scan_le: "s \<le> length b \<Longrightarrow> s \<le> scan P b s \<and> scan P b s \<le> length b"
proof (induction P b s rule: scan.induct)
  case (1 P b s)
  then show ?case by (subst scan.simps, subst (2) scan.simps) auto
qed

lemma scan_takeWhile: "s \<le> length b \<Longrightarrow> scan P b s = s + length (takeWhile P (drop s b))"
proof (induction P b s rule: scan.induct)
  case (1 P b s)
  then show ?case
    by (cases "s < length b"; subst scan.simps) (simp_all add: Cons_nth_drop_Suc [symmetric])
qed

lemma scan_stop: "scan P b s < length b \<Longrightarrow> \<not> P (b ! scan P b s)"
proof (induction P b s rule: scan.induct)
  case (1 P b s)
  then show ?case by (cases "s < length b \<and> P (b ! s)") (simp_all add: scan.simps [of P b s])
qed

lemma sh_at_pos: "sh_at b s \<noteq> 0 \<Longrightarrow> s < length b"
  by (auto simp: sh_at_def split: if_splits)

lemma peek_le:
  assumes "peek b s toks = (s', f)" and "s \<le> length b"
  shows "s \<le> s'" "s' \<le> length b" "f \<Longrightarrow> s' < length b"
  using assms scan_le [of s b is_white] by (auto simp: peek_def Let_def dest: sh_at_pos)

lemma peekD:
  assumes "peek b s toks = (s', True)"
  shows "s \<le> s'" "s' < length b"
proof -
  have "sh_at b (scan is_white b s) \<noteq> 0" and s': "s' = scan is_white b s" using assms by (auto simp: peek_def Let_def)
  then show "s' < length b" by (simp add: sh_at_pos)
  then have "s \<le> length b" using s' by (cases "s \<le> length b") (simp_all add: scan.simps)
  then show "s \<le> s'" using scan_le [of s b is_white] s' by simp
qed

lemma gettoken_le:
  assumes "gettoken b s = (t, q, eq, s')" and "s \<le> length b"
  shows "s \<le> q" "q \<le> eq" "eq \<le> s'" "s' \<le> length b"
proof -
  have q: "q = scan is_white b s" using assms(1) by (auto simp: gettoken_def Let_def split: if_splits)
  have ql: "s \<le> q" "q \<le> length b" using scan_le [OF assms(2), of is_white] q by auto
  have e: "q \<le> eq \<and> eq \<le> length b \<and> s' = scan is_white b eq"
    using assms(1) sh_at_pos [of b q] sh_at_pos [of b "q + 1"] scan_le [OF ql(2), of is_word]
    by (auto simp: gettoken_def Let_def q [symmetric] split: if_splits)
  show "s \<le> q" "q \<le> eq" "eq \<le> s'" "s' \<le> length b" using ql e scan_le [of eq b is_white] by auto
qed

lemma gettoken_less:
  assumes "gettoken b s = (t, q, eq, s')" and "t \<noteq> 0" and "s \<le> length b"
  shows "s < s'"
proof -
  have q: "q = scan is_white b s" using assms(1) by (auto simp: gettoken_def Let_def split: if_splits)
  have "sh_at b q \<noteq> 0" using assms(1,2) by (auto simp: gettoken_def Let_def q [symmetric] split: if_splits)
  then have ql: "q < length b" by (rule sh_at_pos)
  then have w: "sh_at b q = b ! q" by (simp add: sh_at_def)
  have "q < eq"
  proof (cases "sh_at b q \<in> {124, 40, 41, 59, 38, 60, 62}")
    case True
    then show ?thesis using assms(1,2) by (auto simp: gettoken_def Let_def q [symmetric] split: if_splits)
  next
    case False
    have "\<not> is_white (b ! q)" using scan_stop [of is_white b s] ql q by simp
    then have "is_word (b ! q)" using False w
      by (auto simp: is_word_def is_white_def symbols_def)
    then have "eq = scan is_word b (q + 1)" using assms(1,2) False ql
      by (subst (asm) gettoken_def) (auto simp: Let_def q [symmetric] scan.simps [of is_word b q] split: if_splits)
    then show ?thesis using scan_le [of "q + 1" b is_word] ql by simp
  qed
  then show ?thesis using gettoken_le [OF assms(1,3)] by simp
qed

section \<open>Parsing\<close>

datatype 'a pres = POk 'a nat | PPanic string | PDeep

definition pbind :: "'a pres \<Rightarrow> ('a \<Rightarrow> nat \<Rightarrow> 'b pres) \<Rightarrow> 'b pres" where
  "pbind m f = (case m of POk a s \<Rightarrow> f a s | PPanic e \<Rightarrow> PPanic e | PDeep \<Rightarrow> PDeep)"

lemma pbind_simps [simp]:
  "pbind (POk a s) f = f a s" "pbind (PPanic e) f = PPanic e" "pbind PDeep f = PDeep"
  by (simp_all add: pbind_def)

lemma redirs_less:
  assumes "(s1, True) = peek b s [60, 62]" and g: "(t, q, e, s2) = gettoken b s1" "(97, q', e', s3) = gettoken b s2"
  shows "length b - s3 < length b - s"
proof -
  have "s \<le> s1" "s1 < length b" using peekD [OF assms(1) [symmetric]] .
  moreover have "s1 \<le> s2" "s2 \<le> length b" using gettoken_le [OF g(1) [symmetric]] calculation by auto
  moreover have "s2 < s3" using gettoken_less [OF g(2) [symmetric]] calculation by auto
  ultimately show ?thesis by simp
qed

function parseredirs :: "cmd \<Rightarrow> u8 list \<Rightarrow> nat \<Rightarrow> cmd pres" where
  "parseredirs cmd b s =
     (case peek b s [60, 62] of (s, yes) \<Rightarrow>
        if yes then
          case gettoken b s of (tok, _, _, s) \<Rightarrow>
          case gettoken b s of (t, q, eq, s) \<Rightarrow>
            if t \<noteq> 97 then PPanic ''missing file for redirection''
            else parseredirs
                   (if tok = 60 then redircmd cmd q eq O_RDONLY 0
                    else if tok = 62 then redircmd cmd q eq (O_WRONLY + O_CREATE + O_TRUNC) 1
                    else if tok = 43 then redircmd cmd q eq (O_WRONLY + O_CREATE) 1
                    else cmd) b s
        else POk cmd s)"
  by pat_completeness auto
termination
  by (relation "measure (\<lambda>(c, b, s). length b - s)") (auto dest!: redirs_less)

declare parseredirs.simps [simp del]

text \<open>
  \<open>parseexec\<close> keeps a pointer to the \<open>execcmd\<close> node and stores into its arrays while \<open>ret\<close> already has
  redirections around it: the store goes to the innermost node.
\<close>

fun put_arg :: "nat \<times> nat \<Rightarrow> cmd \<Rightarrow> cmd" where
  "put_arg a (EXEC as) = EXEC (as @ [a])"
| "put_arg a (REDIR c q eq mode fd) = REDIR (put_arg a c) q eq mode fd"
| "put_arg a c = c"

function parse_args :: "cmd \<Rightarrow> nat \<Rightarrow> u8 list \<Rightarrow> nat \<Rightarrow> cmd pres" where
  "parse_args ret argc b s =
     (case peek b s [124, 41, 38, 59] of (s, yes) \<Rightarrow>
        if yes then POk ret s
        else case gettoken b s of (tok, q, eq, s) \<Rightarrow>
          if tok = 0 then POk ret s
          else if tok \<noteq> 97 then PPanic ''syntax''
          else if argc + 1 \<ge> MAXARGS then PPanic ''too many args''
          else case parseredirs (put_arg (q, eq) ret) b s of
                 POk ret s \<Rightarrow> parse_args ret (argc + 1) b s
               | PPanic e \<Rightarrow> PPanic e
               | PDeep \<Rightarrow> PDeep)"
  by pat_completeness auto
termination
  by (relation "measure (\<lambda>(c, argc, b, s). MAXARGS - argc)") auto

declare parse_args.simps [simp del]

function parse_back :: "cmd \<Rightarrow> u8 list \<Rightarrow> nat \<Rightarrow> cmd \<times> nat" where
  "parse_back cmd b s =
     (case peek b s [38] of (s, yes) \<Rightarrow>
        if yes then case gettoken b s of (_, _, _, s) \<Rightarrow> parse_back (backcmd cmd) b s
        else (cmd, s))"
  by pat_completeness auto

lemma peek_gettoken:
  assumes "peek b s toks = (s', True)"
  shows "\<exists>t q e s''. gettoken b s' = (t, q, e, s'') \<and> q = s' \<and> t \<noteq> 0 \<and> s' < s'' \<and> s'' \<le> length b"
proof -
  have l: "s' < length b" using peekD [OF assms] by simp
  obtain t q e s'' where g: "gettoken b s' = (t, q, e, s'')" by (metis prod.exhaust)
  have s': "s' = scan is_white b s" "sh_at b s' \<noteq> 0" using assms by (auto simp: peek_def Let_def)
  then have "\<not> is_white (b ! s')" using scan_stop [of is_white b s] l by simp
  then have "scan is_white b s' = s'" by (simp add: scan.simps)
  then have "q = s'" "t \<noteq> 0" using g s'(2) by (auto simp: gettoken_def Let_def split: if_splits)
  then show ?thesis using g gettoken_less [OF g] gettoken_le [OF g] l by auto
qed

lemma back_less:
  "(s1, True) = peek b s toks \<Longrightarrow> (t, q, e, s2) = gettoken b s1 \<Longrightarrow> length b - s2 < length b - s"
  using peek_gettoken [of b s toks s1] peekD [of b s toks s1] by fastforce

termination parse_back
  by (relation "measure (\<lambda>(c, b, s). length b - s)") (auto dest!: back_less)

declare parse_back.simps [simp del]

text \<open>The first argument bounds the depth of the calls.\<close>

fun parseline :: "nat \<Rightarrow> u8 list \<Rightarrow> nat \<Rightarrow> cmd pres"
  and parsepipe :: "nat \<Rightarrow> u8 list \<Rightarrow> nat \<Rightarrow> cmd pres"
  and parseexec :: "nat \<Rightarrow> u8 list \<Rightarrow> nat \<Rightarrow> cmd pres"
  and parseblock :: "nat \<Rightarrow> u8 list \<Rightarrow> nat \<Rightarrow> cmd pres" where
  "parseline 0 b s = PDeep"
| "parseline (Suc n) b s =
     pbind (parsepipe n b s) (\<lambda>cmd s.
       case parse_back cmd b s of (cmd, s) \<Rightarrow>
       case peek b s [59] of (s, yes) \<Rightarrow>
         if yes then
           case gettoken b s of (_, _, _, s) \<Rightarrow>
             pbind (parseline n b s) (\<lambda>right s. POk (listcmd cmd right) s)
         else POk cmd s)"
| "parsepipe 0 b s = PDeep"
| "parsepipe (Suc n) b s =
     pbind (parseexec n b s) (\<lambda>cmd s.
       case peek b s [124] of (s, yes) \<Rightarrow>
         if yes then
           case gettoken b s of (_, _, _, s) \<Rightarrow>
             pbind (parsepipe n b s) (\<lambda>right s. POk (pipecmd cmd right) s)
         else POk cmd s)"
| "parseexec 0 b s = PDeep"
| "parseexec (Suc n) b s =
     (case peek b s [40] of (s, yes) \<Rightarrow>
        if yes then parseblock n b s
        else pbind (parseredirs execcmd b s) (\<lambda>ret s. parse_args ret 0 b s))"
| "parseblock 0 b s = PDeep"
| "parseblock (Suc n) b s =
     (case peek b s [40] of (s, yes) \<Rightarrow>
        if \<not> yes then PPanic ''parseblock''
        else case gettoken b s of (_, _, _, s) \<Rightarrow>
          pbind (parseline n b s) (\<lambda>cmd s.
            case peek b s [41] of (s, yes) \<Rightarrow>
              if \<not> yes then PPanic ''syntax - missing )''
              else case gettoken b s of (_, _, _, s) \<Rightarrow> parseredirs cmd b s))"

definition parse_bound :: "u8 list \<Rightarrow> nat" where
  "parse_bound b = 4 * length b + 4"

text \<open>\<open>nulterminate\<close> on the buffer that holds the line and its \<open>NUL\<close>.\<close>

fun nulterminate :: "cmd \<Rightarrow> u8 list \<Rightarrow> u8 list" where
  "nulterminate (EXEC as) buf = fold (\<lambda>(q, eq) buf. buf[eq := 0]) as buf"
| "nulterminate (REDIR c q eq mode fd) buf = (nulterminate c buf)[eq := 0]"
| "nulterminate (PIPE l r) buf = nulterminate r (nulterminate l buf)"
| "nulterminate (LIST l r) buf = nulterminate r (nulterminate l buf)"
| "nulterminate (BACK c) buf = nulterminate c buf"

definition sh_panic :: "string \<Rightarrow> 'a uprog" where
  "sh_panic m = ubind (ufprintf 2 (nl ''%s'') [VStr (Some (ascii m))]) (\<lambda>_. uexit 1)"

text \<open>The command and the buffer its strings are in.\<close>

definition parsecmd :: "u8 list \<Rightarrow> (cmd \<times> u8 list) uprog" where
  "parsecmd b =
     (case parseline (parse_bound b) b 0 of
        POk cmd s \<Rightarrow>
          let s = fst (peek b s [])
          in if s \<noteq> length b then
               ubind (ufprintf 2 (nl ''leftovers: %s'') [VStr (Some (drop s b))]) (\<lambda>_. sh_panic ''syntax'')
             else ureturn (cmd, nulterminate cmd (b @ [0]))
      | PPanic e \<Rightarrow> sh_panic e
      | PDeep \<Rightarrow> (\<lambda>rs. UInCall []))"

section \<open>Running commands\<close>

definition fork1 :: "int uprog" where
  "fork1 = ubind (ucall Ufork) (\<lambda>(pid, _). if pid = -1 then sh_panic ''fork'' else ureturn pid)"

definition sh_str :: "u8 list \<Rightarrow> nat \<Rightarrow> u8 list" where
  "sh_str buf q = takeWhile (\<lambda>c. c \<noteq> 0) (drop q buf)"

text \<open>The two descriptors \<open>pipe\<close> stores.\<close>

definition pipe_fds :: "u8 list \<Rightarrow> int \<times> int" where
  "pipe_fds b = (sint (word_of_bytes (take 4 b) :: u32), sint (word_of_bytes (take 4 (drop 4 b)) :: u32))"

fun runcmd :: "u8 list \<Rightarrow> cmd \<Rightarrow> int uprog" where
  "runcmd buf (EXEC as) =
     (if as = [] then uexit 1
      else let argv = map (\<lambda>(q, _). sh_str buf q) as
           in ubind (uexec (hd argv) argv) (\<lambda>_.
              ubind (ufprintf 2 (nl ''exec %s failed'') [VStr (Some (hd argv))]) (\<lambda>_. uexit 0)))"
| "runcmd buf (REDIR c q eq mode fd) =
     ubind (ucall (Uclose fd)) (\<lambda>_.
     ubind (ucall (Uopen (sh_str buf q) mode)) (\<lambda>(r, _).
       if r < 0 then ubind (ufprintf 2 (nl ''open %s failed'') [VStr (Some (sh_str buf q))]) (\<lambda>_. uexit 1)
       else runcmd buf c))"
| "runcmd buf (LIST l r) =
     ubind fork1 (\<lambda>pid.
       if pid = 0 then runcmd buf l
       else ubind (ucall Uwait) (\<lambda>_. runcmd buf r))"
| "runcmd buf (PIPE l r) =
     ubind (ucall Upipe) (\<lambda>(v, fds).
       if v < 0 then sh_panic ''pipe''
       else let (p0, p1) = pipe_fds fds
            in ubind fork1 (\<lambda>pid.
               if pid = 0 then
                 ubind (ucall (Uclose 1)) (\<lambda>_.
                 ubind (ucall (Udup p1)) (\<lambda>_.
                 ubind (ucall (Uclose p0)) (\<lambda>_.
                 ubind (ucall (Uclose p1)) (\<lambda>_. runcmd buf l))))
               else ubind fork1 (\<lambda>pid.
               if pid = 0 then
                 ubind (ucall (Uclose 0)) (\<lambda>_.
                 ubind (ucall (Udup p0)) (\<lambda>_.
                 ubind (ucall (Uclose p0)) (\<lambda>_.
                 ubind (ucall (Uclose p1)) (\<lambda>_. runcmd buf r))))
               else
                 ubind (ucall (Uclose p0)) (\<lambda>_.
                 ubind (ucall (Uclose p1)) (\<lambda>_.
                 ubind (ucall Uwait) (\<lambda>_.
                 ubind (ucall Uwait) (\<lambda>_. uexit 0)))))))"
| "runcmd buf (BACK c) =
     ubind fork1 (\<lambda>pid. if pid = 0 then runcmd buf c else uexit 0)"

definition getcmd :: "nat \<Rightarrow> (int \<times> u8 list) uprog" where
  "getcmd nbuf =
     ubind (ucall (Uwrite 2 (ascii ''$ ''))) (\<lambda>_.
     ubind (gets (int nbuf)) (\<lambda>got.
       let buf = got @ replicate (nbuf - length got) 0
       in ureturn (if hd buf = 0 then -1 else 0, buf)))"

function sh_open :: "unit uprog" where
  "sh_open rs =
     ubind (ucall (Uopen (ascii ''console'') O_RDWR)) (\<lambda>r rs.
       if fst r \<ge> 0 then
         if fst r \<ge> 3 then ubind (ucall (Uclose (fst r))) (\<lambda>_. ureturn ()) rs
         else sh_open rs
       else ureturn () rs) rs"
  by pat_completeness auto
termination
  by (relation "measure length") (auto dest!: ucall_less)

declare sh_open.simps [simp del]

text \<open>One line of input, as the string \<open>cmd\<close> points to after the blanks are skipped.\<close>

definition sh_line :: "u8 list \<Rightarrow> unit uprog" where
  "sh_line cmd =
     (if take 1 cmd = [10] then ureturn ()
      else if take 3 cmd = [99, 100, 32] then
        let dir = butlast (drop 3 cmd)
        in ubind (ucall (Uchdir dir)) (\<lambda>(r, _).
             if r < 0 then ufprintf 2 (nl ''cannot cd %s'') [VStr (Some dir)] else ureturn ())
      else ubind fork1 (\<lambda>pid.
           ubind (if pid = 0 then ubind (parsecmd cmd) (\<lambda>(c, buf). ubind (runcmd buf c) (\<lambda>_. ureturn ())) else ureturn ()) (\<lambda>_.
           ubind (ucall Uwait) (\<lambda>_. ureturn ()))))"

text \<open>\<open>runcmd\<close> never returns: it exits, becomes another program or is inside a call.\<close>

definition noreturn :: "'a uprog \<Rightarrow> bool" where
  "noreturn m \<longleftrightarrow> (\<forall>rs a rs' t. m rs \<noteq> URet a rs' t)"

lemma noreturn_uexit [simp]: "noreturn (uexit n)"
  by (simp add: noreturn_def uexit_def)

lemma noreturn_ubind: "(\<And>a. noreturn (f a)) \<Longrightarrow> noreturn (ubind m f)"
  by (simp add: noreturn_def ubind_URet)

lemma noreturn_sh_panic [simp]: "noreturn (sh_panic m)"
  unfolding sh_panic_def by (rule noreturn_ubind) simp

lemma noreturn_consumes: "noreturn m \<Longrightarrow> consumes m"
  by (simp add: noreturn_def consumes_def)

lemma runcmd_noreturn: "noreturn (runcmd buf c)"
  by (induction c) (auto simp: Let_def split: prod.splits intro!: noreturn_ubind)

lemma consumes_fork1 [simp, intro]: "consumes fork1"
  unfolding fork1_def by (intro consumes_ubind consumes_prod consumes_if consumes_ucall consumes_ureturn noreturn_consumes noreturn_sh_panic)

lemma consumes_parsecmd [simp, intro]: "consumes (parsecmd b)"
proof (cases "parseline (parse_bound b) b 0")
  case (POk c s)
  then show ?thesis
    unfolding parsecmd_def Let_def by (auto intro!: consumes_ubind noreturn_consumes [OF noreturn_sh_panic])
next
  case PDeep
  then show ?thesis by (simp add: parsecmd_def consumes_def)
qed (simp add: parsecmd_def noreturn_consumes)

lemma consumes_sh_line [simp, intro]: "consumes (sh_line cmd)"
  unfolding sh_line_def Let_def
  by (intro consumes_ubind consumes_prod consumes_if consumes_ucall consumes_ureturn consumes_uprintf consumes_fork1 consumes_parsecmd
      noreturn_consumes [OF runcmd_noreturn])

lemma consumes_gets [simp, intro]: "consumes (gets mx)"
proof -
  have "gets_loop mx buf rs = URet a rs' t \<Longrightarrow> length rs' \<le> length rs" for buf rs a rs' t
  proof (induction mx buf rs arbitrary: t rule: gets_loop.induct)
    case (1 mx buf rs)
    then show ?case
      by (subst (asm) (2) gets_loop.simps)
        (fastforce simp: ubind_URet ureturn_def Let_def dest: ucall_less split: if_splits)
  qed
  then have "consumes (gets_loop mx buf)" for buf unfolding consumes_def by blast
  then show ?thesis unfolding gets_def by (intro consumes_ubind consumes_ureturn)
qed

lemma getcmd_less: "getcmd n rs = URet a rs' t \<Longrightarrow> length rs' < length rs"
proof -
  have "consumes (ubind (gets (int n)) (\<lambda>got.
       let buf = got @ replicate (n - length got) 0 in ureturn (if hd buf = 0 then -1 else (0 :: int), buf)))"
    unfolding Let_def by (intro consumes_ubind consumes_gets consumes_ureturn)
  then show "getcmd n rs = URet a rs' t \<Longrightarrow> length rs' < length rs"
    unfolding getcmd_def by (auto simp: ubind_URet [of "ucall _"] dest!: ucall_less consumesD)
qed

function sh_loop :: "int uprog" where
  "sh_loop rs =
     ubind (getcmd 100) (\<lambda>g rs.
       if fst g \<ge> 0 then
         ubind (sh_line (takeWhile (\<lambda>c. c \<noteq> 0) (dropWhile (\<lambda>c. c = 32 \<or> c = 9) (snd g)))) (\<lambda>_ rs. sh_loop rs) rs
       else uexit 0 rs) rs"
  by pat_completeness auto
termination
  by (relation "measure length") (auto dest!: getcmd_less consumesD [OF consumes_sh_line])

declare sh_loop.simps [simp del]

definition sh_main :: "int uprog" where
  "sh_main = ubind sh_open (\<lambda>_. sh_loop)"

end
