(* ===== verification/Parse.thy ===== *)
theory Parse
  imports Sh
begin

text \<open>
  What the shell's parser computes: it always ends, the words of a parsed command are words of the line
  and stay within the argument arrays, the strings the command is run with are those words, and every
  command can be written down so that the parser finds it again.
\<close>

section \<open>The parser's results\<close>

text \<open>A word of the line: it is not empty, it holds no blank and no symbol, and it cannot be extended.\<close>

definition tok_ok :: "u8 list \<Rightarrow> nat \<Rightarrow> nat \<Rightarrow> bool" where
  "tok_ok b q eq \<longleftrightarrow> q < eq \<and> eq \<le> length b \<and> (\<forall>i. q \<le> i \<and> i < eq \<longrightarrow> is_word (b ! i)) \<and> (eq = length b \<or> \<not> is_word (b ! eq))"

fun cmd_ok :: "u8 list \<Rightarrow> cmd \<Rightarrow> bool" where
  "cmd_ok b (EXEC as) \<longleftrightarrow> length as < MAXARGS \<and> (\<forall>(q, eq) \<in> set as. tok_ok b q eq)"
| "cmd_ok b (REDIR c q eq mode fd) \<longleftrightarrow> cmd_ok b c \<and> tok_ok b q eq"
| "cmd_ok b (PIPE l r) \<longleftrightarrow> cmd_ok b l \<and> cmd_ok b r"
| "cmd_ok b (LIST l r) \<longleftrightarrow> cmd_ok b l \<and> cmd_ok b r"
| "cmd_ok b (BACK c) \<longleftrightarrow> cmd_ok b c"

text \<open>The number of arguments of the node \<open>put_arg\<close> stores into.\<close>

fun inner_args :: "cmd \<Rightarrow> nat option" where
  "inner_args (EXEC as) = Some (length as)"
| "inner_args (REDIR c q eq mode fd) = inner_args c"
| "inner_args c = None"

definition pres_ok :: "u8 list \<Rightarrow> nat \<Rightarrow> cmd pres \<Rightarrow> bool" where
  "pres_ok b s m \<longleftrightarrow> (\<forall>c s'. m = POk c s' \<longrightarrow> s \<le> s' \<and> s' \<le> length b \<and> cmd_ok b c)"

lemma pres_okI: "(\<And>c s'. m = POk c s' \<Longrightarrow> s \<le> s' \<and> s' \<le> length b \<and> cmd_ok b c) \<Longrightarrow> pres_ok b s m"
  by (simp add: pres_ok_def)

lemma pres_ok_simps [simp]:
  "pres_ok b s (POk c s') \<longleftrightarrow> s \<le> s' \<and> s' \<le> length b \<and> cmd_ok b c" "pres_ok b s (PPanic e)" "pres_ok b s PDeep"
  by (auto simp: pres_ok_def)

lemma pres_ok_mono: "pres_ok b s' m \<Longrightarrow> s \<le> s' \<Longrightarrow> pres_ok b s m"
  by (auto simp: pres_ok_def)

lemma pres_ok_pbind:
  "pres_ok b s m \<Longrightarrow> (\<And>c s'. s \<le> s' \<Longrightarrow> s' \<le> length b \<Longrightarrow> cmd_ok b c \<Longrightarrow> pres_ok b s (f c s')) \<Longrightarrow> pres_ok b s (pbind m f)"
  by (cases m) auto

lemma is_word_scan: "s \<le> i \<Longrightarrow> i < scan P b s \<Longrightarrow> P (b ! i)"
proof (induction P b s rule: scan.induct)
  case (1 P b s)
  then show ?case
    by (cases "s < length b \<and> P (b ! s)"; cases "i = s") (simp_all add: scan.simps [of P b s])
qed

lemma gettoken_word:
  assumes "gettoken b s = (97, q, eq, s')" and "s \<le> length b"
  shows "tok_ok b q eq"
proof -
  have q: "q = scan is_white b s" using assms(1) by (auto simp: gettoken_def Let_def split: if_splits)
  have nz: "sh_at b q \<noteq> 0" and w: "sh_at b q \<notin> {124, 40, 41, 59, 38, 60, 62}" and eq: "eq = scan is_word b q"
    using assms(1) by (auto simp: gettoken_def Let_def q [symmetric] split: if_splits)
  have ql: "q < length b" using nz by (rule sh_at_pos)
  have "\<not> is_white (b ! q)" using scan_stop [of is_white b s] ql q by simp
  then have iw: "is_word (b ! q)" using w ql by (auto simp: is_word_def is_white_def symbols_def sh_at_def)
  have "q + 1 \<le> scan is_word b (q + 1)" "scan is_word b (q + 1) \<le> length b" using scan_le [of "q + 1" b is_word] ql by auto
  then have "q < eq" "eq \<le> length b" using eq iw ql by (simp_all add: scan.simps [of is_word b q])
  moreover have "eq = length b \<or> \<not> is_word (b ! eq)" using scan_stop [of is_word b q] eq \<open>eq \<le> length b\<close> by fastforce
  moreover have "is_word (b ! i)" if "q \<le> i" "i < eq" for i using is_word_scan [OF that(1)] that(2) eq by simp
  ultimately show ?thesis by (simp add: tok_ok_def)
qed

lemma parseredirs_ok:
  "s \<le> length b \<Longrightarrow> cmd_ok b c \<Longrightarrow> pres_ok b s (parseredirs c b s)
     \<and> (\<forall>c' s'. parseredirs c b s = POk c' s' \<longrightarrow> inner_args c' = inner_args c) \<and> parseredirs c b s \<noteq> PDeep"
proof (induction c b s rule: parseredirs.induct)
  case (1 c b s)
  obtain s1 yes where p: "peek b s [60, 62] = (s1, yes)" by force
  show ?case
  proof (cases yes)
    case False
    then show ?thesis using p "1.prems" peek_le [OF p "1.prems"(1)] by (subst (1 2 3) parseredirs.simps) simp
  next
    case True
    obtain tok q0 e0 s2 where g: "gettoken b s1 = (tok, q0, e0, s2)" by (metis prod.exhaust)
    obtain t q e s3 where g2: "gettoken b s2 = (t, q, e, s3)" by (metis prod.exhaust)
    have le: "s \<le> s1" "s1 \<le> s2" "s2 \<le> length b" "s2 \<le> s3" "s3 \<le> length b"
      using peekD [of b s "[60, 62]" s1] gettoken_le [OF g] gettoken_le [OF g2] p True by auto
    show ?thesis
    proof (cases "t = 97")
      case False
      then show ?thesis using p True g g2 by (subst (1 2 3) parseredirs.simps) simp
    next
      case word: True
      have tk: "tok_ok b q e" using gettoken_word [of b s2 q e s3] g2 word le by simp
      let ?c = "if tok = 60 then REDIR c q e O_RDONLY 0 else if tok = 62 then REDIR c q e (O_WRONLY + O_CREATE + O_TRUNC) 1
          else if tok = 43 then REDIR c q e (O_WRONLY + O_CREATE) 1 else c"
      have eq: "parseredirs c b s = parseredirs ?c b s3" using p True g g2 word by (subst parseredirs.simps) simp
      have ok: "cmd_ok b ?c" "inner_args ?c = inner_args c" using tk "1.prems"(2) by auto
      have "pres_ok b s3 (parseredirs ?c b s3) \<and> (\<forall>c' s'. parseredirs ?c b s3 = POk c' s' \<longrightarrow> inner_args c' = inner_args ?c)
          \<and> parseredirs ?c b s3 \<noteq> PDeep"
        by (rule "1.IH" [OF p [symmetric] True g [symmetric] _ _ g2 [symmetric]]) (use word le ok in auto)
      then show ?thesis unfolding eq ok(2) using le by (blast intro: pres_ok_mono order_trans)
    qed
  qed
qed

lemma put_arg_ok:
  "cmd_ok b c \<Longrightarrow> inner_args c = Some n \<Longrightarrow> n + 1 < MAXARGS \<Longrightarrow> tok_ok b q eq \<Longrightarrow>
     cmd_ok b (put_arg (q, eq) c) \<and> inner_args (put_arg (q, eq) c) = Some (n + 1)"
  by (induction c) auto

lemma parse_args_ok:
  "s \<le> length b \<Longrightarrow> cmd_ok b c \<Longrightarrow> inner_args c = Some argc \<Longrightarrow> pres_ok b s (parse_args c argc b s) \<and> parse_args c argc b s \<noteq> PDeep"
proof (induction c argc b s rule: parse_args.induct)
  case (1 c argc b s)
  obtain s1 yes where p: "peek b s [124, 41, 38, 59] = (s1, yes)" by force
  obtain t q e s2 where g: "gettoken b s1 = (t, q, e, s2)" by (metis prod.exhaust)
  have le: "s \<le> s1" "s1 \<le> length b" "s1 \<le> s2" "s2 \<le> length b"
    using peek_le [OF p "1.prems"(1)] gettoken_le [OF g] by auto
  show ?case
  proof (cases "yes \<or> t \<noteq> 97 \<or> argc + 1 \<ge> MAXARGS")
    case True
    then show ?thesis using p g le "1.prems"(2) by (subst (1 2) parse_args.simps) auto
  next
    case False
    then have f: "\<not> yes" "t = 97" "t \<noteq> 0" "\<not> argc + 1 \<ge> MAXARGS" by auto
    have "tok_ok b q e" using gettoken_word [of b s1 q e s2] g f le by simp
    from put_arg_ok [OF "1.prems"(2,3) _ this]
    have c: "cmd_ok b (put_arg (q, e) c)" "inner_args (put_arg (q, e) c) = Some (argc + 1)" using f by auto
    note r = parseredirs_ok [OF le(4) c(1)]
    show ?thesis
    proof (cases "parseredirs (put_arg (q, e) c) b s2")
      case (POk c' s3)
      then have s3: "s2 \<le> s3" "s3 \<le> length b" "cmd_ok b c'" "inner_args c' = Some (argc + 1)" using r c(2) by auto
      have eq: "parse_args c argc b s = parse_args c' (argc + 1) b s3" using p g f POk by (subst parse_args.simps) simp
      have "pres_ok b s3 (parse_args c' (argc + 1) b s3) \<and> parse_args c' (argc + 1) b s3 \<noteq> PDeep"
        using "1.IH" [OF p [symmetric] f(1) g [symmetric] _ _ f(3) _ f(4) POk] f s3 by simp
      then show ?thesis unfolding eq using le s3 pres_ok_mono by (meson order_trans)
    next
      case (PPanic m)
      then show ?thesis using p g f by (subst (1 2) parse_args.simps) simp
    next
      case PDeep
      then show ?thesis using r by simp
    qed
  qed
qed

lemma parse_back_ok:
  "s \<le> length b \<Longrightarrow> cmd_ok b c \<Longrightarrow> parse_back c b s = (c', s') \<Longrightarrow> s \<le> s' \<and> s' \<le> length b \<and> cmd_ok b c'"
proof (induction c b s rule: parse_back.induct)
  case (1 c b s)
  obtain s1 yes where p: "peek b s [38] = (s1, yes)" by force
  obtain t q e s2 where g: "gettoken b s1 = (t, q, e, s2)" by (metis prod.exhaust)
  have le: "s \<le> s1" "s1 \<le> length b" "s1 \<le> s2" "s2 \<le> length b"
    using peek_le [OF p "1.prems"(1)] gettoken_le [OF g] by auto
  show ?case
  proof (cases yes)
    case True
    then have "parse_back (BACK c) b s2 = (c', s')" using "1.prems"(3) p g by (subst (asm) parse_back.simps) simp
    then have "s2 \<le> s' \<and> s' \<le> length b \<and> cmd_ok b c'" using "1.IH" [OF p [symmetric] True g [symmetric]] le "1.prems"(2) by simp
    then show ?thesis using le by simp
  next
    case False
    then show ?thesis using "1.prems" p le by (subst (asm) parse_back.simps) simp
  qed
qed

text \<open>What follows a separator, in \<open>parseline\<close> and \<open>parsepipe\<close> alike.\<close>

lemma separator_ok:
  assumes le: "s \<le> s'" "s' \<le> length b" and c: "cmd_ok b c"
    and r: "\<And>s. s \<le> length b \<Longrightarrow> pres_ok b s (r s)" and f: "\<And>d. cmd_ok b d \<Longrightarrow> cmd_ok b (f d)"
  shows "pres_ok b s (case peek b s' toks of (s, yes) \<Rightarrow>
       if yes then case gettoken b s of (_, _, _, s) \<Rightarrow> pbind (r s) (\<lambda>d s. POk (f d) s) else POk c s)"
proof -
  obtain s2 yes where p: "peek b s' toks = (s2, yes)" by force
  obtain t q e s3 where g: "gettoken b s2 = (t, q, e, s3)" by (metis prod.exhaust)
  have le2: "s' \<le> s2" "s2 \<le> length b" "s2 \<le> s3" "s3 \<le> length b" using peek_le [OF p le(2)] gettoken_le [OF g] by auto
  have "pres_ok b s (r s3)" by (rule pres_ok_mono [OF r]) (use le le2 in auto)
  then have "pres_ok b s (pbind (r s3) (\<lambda>d s. POk (f d) s))" by (rule pres_ok_pbind) (simp add: f)
  then show ?thesis using p g le le2 c by simp
qed

lemma parse_ok:
  "s \<le> length b \<Longrightarrow> pres_ok b s (parseline n b s) \<and> pres_ok b s (parsepipe n b s)
     \<and> pres_ok b s (parseexec n b s) \<and> pres_ok b s (parseblock n b s)"
proof (induction n arbitrary: s)
  case (Suc n)
  note IH = Suc.IH [THEN conjunct1] Suc.IH [THEN conjunct2, THEN conjunct1]
    Suc.IH [THEN conjunct2, THEN conjunct2, THEN conjunct1] Suc.IH [THEN conjunct2, THEN conjunct2, THEN conjunct2]
  have 1: "pres_ok b s (parseline (Suc n) b s)"
    unfolding parseline.simps
  proof (rule pres_ok_pbind [OF IH(2) [OF Suc.prems]])
    fix c s' assume le: "s \<le> s'" "s' \<le> length b" and c: "cmd_ok b c"
    obtain c1 s1 where b1: "parse_back c b s' = (c1, s1)" by force
    have ok1: "s' \<le> s1" "s1 \<le> length b" "cmd_ok b c1" using parse_back_ok [OF le(2) c b1] by auto
    then have "s \<le> s1" using le by simp
    from separator_ok [OF this ok1(2,3) IH(1), of "LIST c1" "[59]"] ok1(3)
    show "pres_ok b s (case parse_back c b s' of (cmd, s) \<Rightarrow> case peek b s [59] of (s, yes) \<Rightarrow>
        if yes then case gettoken b s of (_, _, _, s) \<Rightarrow> pbind (parseline n b s) (\<lambda>right s. POk (LIST cmd right) s) else POk cmd s)"
      by (simp add: b1)
  qed
  have 2: "pres_ok b s (parsepipe (Suc n) b s)"
    unfolding parsepipe.simps
    by (rule pres_ok_pbind [OF IH(3) [OF Suc.prems]]) (rule separator_ok [OF _ _ _ IH(2)], auto)
  obtain s1 yes where p: "peek b s [40] = (s1, yes)" by force
  have le: "s \<le> s1" "s1 \<le> length b" using peek_le [OF p Suc.prems] by auto
  have r: "pres_ok b s1 (parseredirs execcmd b s1)"
    "parseredirs execcmd b s1 = POk c s' \<Longrightarrow> inner_args c = Some 0 \<and> s1 \<le> s' \<and> s' \<le> length b \<and> cmd_ok b c" for c s'
    using parseredirs_ok [OF le(2), of execcmd] by (auto simp: execcmd_def)
  have "pres_ok b s1 (pbind (parseredirs execcmd b s1) (\<lambda>ret s. parse_args ret 0 b s))"
  proof (cases "parseredirs execcmd b s1")
    case (POk c s')
    then show ?thesis using r(2) [OF POk] parse_args_ok [of s' b c 0] by (auto elim: pres_ok_mono)
  qed simp_all
  then have 3: "pres_ok b s (parseexec (Suc n) b s)" using p le IH(4) [OF le(2)] by (auto elim: pres_ok_mono)
  obtain t q e s2 where g: "gettoken b s1 = (t, q, e, s2)" by (metis prod.exhaust)
  have le2: "s1 \<le> s2" "s2 \<le> length b" using gettoken_le [OF g le(2)] by auto
  have "pres_ok b s2 (pbind (parseline n b s2) (\<lambda>cmd s. case peek b s [41] of (s, yes) \<Rightarrow>
      if \<not> yes then PPanic ''syntax - missing )'' else case gettoken b s of (_, _, _, s) \<Rightarrow> parseredirs cmd b s))"
  proof (rule pres_ok_pbind [OF IH(1) [OF le2(2)]])
    fix c s' assume l: "s2 \<le> s'" "s' \<le> length b" and c: "cmd_ok b c"
    obtain s3 yes' where p': "peek b s' [41] = (s3, yes')" by force
    obtain t' q' e' s4 where g': "gettoken b s3 = (t', q', e', s4)" by (metis prod.exhaust)
    have "s2 \<le> s4" "s4 \<le> length b" using l peek_le [OF p' l(2)] gettoken_le [OF g'] by auto
    then show "pres_ok b s2 (case peek b s' [41] of (s, yes) \<Rightarrow>
      if \<not> yes then PPanic ''syntax - missing )'' else case gettoken b s of (_, _, _, s) \<Rightarrow> parseredirs c b s)"
      using p' g' parseredirs_ok [of s4 b c] c by (auto elim: pres_ok_mono)
  qed
  then have 4: "pres_ok b s (parseblock (Suc n) b s)" using p g le le2 by (auto elim: pres_ok_mono)
  show ?case using 1 2 3 4 by blast
qed simp

section \<open>The parser ends\<close>

lemma pbind_deep: "m \<noteq> PDeep \<Longrightarrow> (\<And>a s. m = POk a s \<Longrightarrow> f a s \<noteq> PDeep) \<Longrightarrow> pbind m f \<noteq> PDeep"
  by (cases m) auto

lemma separator_deep:
  assumes "s' \<le> length b" and "\<And>s''. s' < s'' \<Longrightarrow> s'' \<le> length b \<Longrightarrow> r s'' \<noteq> PDeep"
  shows "(case peek b s' toks of (s, yes) \<Rightarrow>
       if yes then case gettoken b s of (_, _, _, s) \<Rightarrow> pbind (r s) (\<lambda>d s. POk (f d) s) else POk c s) \<noteq> PDeep"
proof -
  obtain s2 yes where p: "peek b s' toks = (s2, yes)" by force
  show ?thesis
  proof (cases yes)
    case True
    then obtain t q e s3 where g: "gettoken b s2 = (t, q, e, s3)" "s2 < s3" "s3 \<le> length b" using peek_gettoken [of b s' toks s2] p by auto
    moreover have "r s3 \<noteq> PDeep" using assms(2) g peek_le [OF p assms(1)] by simp
    ultimately show ?thesis using p True pbind_deep [of "r s3" "\<lambda>d s. POk (f d) s"] by simp
  next
    case False
    then show ?thesis using p by simp
  qed
qed

lemma parse_deep:
  "s \<le> length b \<Longrightarrow> (4 * (length b - s) + 3 < n \<longrightarrow> parseline n b s \<noteq> PDeep) \<and> (4 * (length b - s) + 2 < n \<longrightarrow> parsepipe n b s \<noteq> PDeep)
     \<and> (4 * (length b - s) + 1 < n \<longrightarrow> parseexec n b s \<noteq> PDeep) \<and> (4 * (length b - s) < n \<longrightarrow> parseblock n b s \<noteq> PDeep)"
proof (induction n arbitrary: s)
  case (Suc n)
  have IH1: "parseline n b s \<noteq> PDeep" if "s \<le> length b" "4 * (length b - s) + 3 < n" for s using Suc.IH that by blast
  have IH2: "parsepipe n b s \<noteq> PDeep" if "s \<le> length b" "4 * (length b - s) + 2 < n" for s using Suc.IH that by blast
  have IH3: "parseexec n b s \<noteq> PDeep" if "s \<le> length b" "4 * (length b - s) + 1 < n" for s using Suc.IH that by blast
  have IH4: "parseblock n b s \<noteq> PDeep" if "s \<le> length b" "4 * (length b - s) < n" for s using Suc.IH that by blast
  have 1: "parseline (Suc n) b s \<noteq> PDeep" if "4 * (length b - s) + 3 < Suc n"
    unfolding parseline.simps
  proof (rule pbind_deep)
    show "parsepipe n b s \<noteq> PDeep" using IH2 [OF Suc.prems] that by simp
    fix c s' assume "parsepipe n b s = POk c s'"
    then have c: "s \<le> s'" "s' \<le> length b" "cmd_ok b c" using parse_ok [OF Suc.prems, of n] by auto
    obtain c1 s1 where b1: "parse_back c b s' = (c1, s1)" by force
    have ok1: "s' \<le> s1" "s1 \<le> length b" using parse_back_ok [OF c(2,3) b1] by auto
    have "parseline n b s'' \<noteq> PDeep" if "s1 < s''" "s'' \<le> length b" for s''
      by (rule IH1) (use that \<open>4 * (length b - s) + 3 < Suc n\<close> c ok1 in auto)
    from separator_deep [OF ok1(2), where r = "parseline n b" and toks = "[59]" and f = "LIST c1" and c = c1, OF this]
    show "(case parse_back c b s' of (cmd, s) \<Rightarrow> case peek b s [59] of (s, yes) \<Rightarrow>
        if yes then case gettoken b s of (_, _, _, s) \<Rightarrow> pbind (parseline n b s) (\<lambda>right s. POk (LIST cmd right) s) else POk cmd s) \<noteq> PDeep"
      by (simp add: b1)
  qed
  have 2: "parsepipe (Suc n) b s \<noteq> PDeep" if "4 * (length b - s) + 2 < Suc n"
    unfolding parsepipe.simps
  proof (rule pbind_deep)
    show "parseexec n b s \<noteq> PDeep" using IH3 [OF Suc.prems] that by simp
    fix c s' assume "parseexec n b s = POk c s'"
    then have c: "s \<le> s'" "s' \<le> length b" "cmd_ok b c" using parse_ok [OF Suc.prems, of n] by auto
    have "parsepipe n b s'' \<noteq> PDeep" if "s' < s''" "s'' \<le> length b" for s''
      by (rule IH2) (use that \<open>4 * (length b - s) + 2 < Suc n\<close> c in auto)
    from separator_deep [OF c(2), where r = "parsepipe n b" and toks = "[124]" and f = "PIPE c" and c = c, OF this]
    show "(case peek b s' [124] of (s, yes) \<Rightarrow>
        if yes then case gettoken b s of (_, _, _, s) \<Rightarrow> pbind (parsepipe n b s) (\<lambda>right s. POk (PIPE c right) s) else POk c s) \<noteq> PDeep" .
  qed
  obtain s1 yes where p: "peek b s [40] = (s1, yes)" by force
  have le: "s \<le> s1" "s1 \<le> length b" using peek_le [OF p Suc.prems] by auto
  have r: "parseredirs execcmd b s1 = POk c s' \<Longrightarrow> inner_args c = Some 0 \<and> s1 \<le> s' \<and> s' \<le> length b \<and> cmd_ok b c" for c s'
    using parseredirs_ok [OF le(2), of execcmd] by (auto simp: execcmd_def)
  have "pbind (parseredirs execcmd b s1) (\<lambda>ret s. parse_args ret 0 b s) \<noteq> PDeep"
    by (rule pbind_deep) (use parseredirs_ok [OF le(2), of execcmd] parse_args_ok r in \<open>auto simp: execcmd_def\<close>)
  then have 3: "parseexec (Suc n) b s \<noteq> PDeep" if "4 * (length b - s) + 1 < Suc n" using p le IH4 [OF le(2)] that by auto
  have 4: "parseblock (Suc n) b s \<noteq> PDeep" if n: "4 * (length b - s) < Suc n"
  proof (cases yes)
    case True
    then obtain t q e s2 where g: "gettoken b s1 = (t, q, e, s2)" "s1 < s2" "s2 \<le> length b" using peek_gettoken [of b s "[40]" s1] p by auto
    have "pbind (parseline n b s2) (\<lambda>cmd s. case peek b s [41] of (s, yes) \<Rightarrow>
      if \<not> yes then PPanic ''syntax - missing )'' else case gettoken b s of (_, _, _, s) \<Rightarrow> parseredirs cmd b s) \<noteq> PDeep"
    proof (rule pbind_deep)
      show "parseline n b s2 \<noteq> PDeep" by (rule IH1) (use g le n in auto)
      fix c s' assume "parseline n b s2 = POk c s'"
      then have c: "s2 \<le> s'" "s' \<le> length b" "cmd_ok b c" using parse_ok [OF g(3), of n] by auto
      obtain s3 yes' where p': "peek b s' [41] = (s3, yes')" by force
      obtain t' q' e' s4 where g': "gettoken b s3 = (t', q', e', s4)" by (metis prod.exhaust)
      have "s4 \<le> length b" using peek_le [OF p' c(2)] gettoken_le [OF g'] by auto
      then show "(case peek b s' [41] of (s, yes) \<Rightarrow>
        if \<not> yes then PPanic ''syntax - missing )'' else case gettoken b s of (_, _, _, s) \<Rightarrow> parseredirs c b s) \<noteq> PDeep"
        using p' g' parseredirs_ok [of s4 b c] c by auto
    qed
    then show ?thesis using p g True by simp
  next
    case False
    then show ?thesis using p by simp
  qed
  show ?case using 1 2 3 4 by blast
qed simp

text \<open>A larger bound gives the same result.\<close>

lemma pbind_more:
  "(m \<noteq> PDeep \<Longrightarrow> m' = m) \<Longrightarrow> (\<And>a s. m = POk a s \<Longrightarrow> f a s \<noteq> PDeep \<Longrightarrow> f' a s = f a s) \<Longrightarrow>
     pbind m f \<noteq> PDeep \<Longrightarrow> pbind m' f' = pbind m f"
  by (cases m) auto

lemma parse_more:
  "n \<le> k \<Longrightarrow> (parseline n b s \<noteq> PDeep \<longrightarrow> parseline k b s = parseline n b s) \<and> (parsepipe n b s \<noteq> PDeep \<longrightarrow> parsepipe k b s = parsepipe n b s)
     \<and> (parseexec n b s \<noteq> PDeep \<longrightarrow> parseexec k b s = parseexec n b s) \<and> (parseblock n b s \<noteq> PDeep \<longrightarrow> parseblock k b s = parseblock n b s)"
proof (induction n arbitrary: k s)
  case (Suc n)
  then obtain j where k: "k = Suc j" and j: "n \<le> j" by (cases k) auto
  have IH: "parseline n b s \<noteq> PDeep \<Longrightarrow> parseline j b s = parseline n b s" "parsepipe n b s \<noteq> PDeep \<Longrightarrow> parsepipe j b s = parsepipe n b s"
    "parseexec n b s \<noteq> PDeep \<Longrightarrow> parseexec j b s = parseexec n b s" "parseblock n b s \<noteq> PDeep \<Longrightarrow> parseblock j b s = parseblock n b s" for s
    using Suc.IH [OF j, of s] by blast+
  have "parseline (Suc n) b s \<noteq> PDeep \<longrightarrow> parseline (Suc j) b s = parseline (Suc n) b s"
    unfolding parseline.simps
    by (intro impI pbind_more) (auto simp: IH split: prod.splits if_splits intro: pbind_more dest: pbind_deep)
  moreover have "parsepipe (Suc n) b s \<noteq> PDeep \<longrightarrow> parsepipe (Suc j) b s = parsepipe (Suc n) b s"
    unfolding parsepipe.simps
    by (intro impI pbind_more) (auto simp: IH split: prod.splits if_splits intro: pbind_more)
  moreover have "parseexec (Suc n) b s \<noteq> PDeep \<longrightarrow> parseexec (Suc j) b s = parseexec (Suc n) b s"
    by (auto simp: IH split: prod.splits)
  moreover have "parseblock (Suc n) b s \<noteq> PDeep \<longrightarrow> parseblock (Suc j) b s = parseblock (Suc n) b s"
    by (auto simp: IH split: prod.splits intro: pbind_more)
  ultimately show ?case unfolding k by blast
qed simp

lemma parse_bound_enough: "parseline (parse_bound b) b 0 \<noteq> PDeep"
  using parse_deep [of 0 b "parse_bound b"] by (simp add: parse_bound_def)

text \<open>C39: The shell's recursive-descent parser ends on every line: when its calls may be nested four
  deep for each byte of the line and four more, the result is a command or a syntax error, and it is the
  same for every larger bound.\<close>

theorem parseline_terminates:
  assumes "parse_bound b \<le> n"
  shows "parseline n b 0 = parseline (parse_bound b) b 0 \<and> parseline n b 0 \<noteq> PDeep"
  using parse_more [OF assms, of b 0] parse_bound_enough [of b] by simp

theorem parseline_terminates_witness:
  "parseline 100 [40, 97, 41, 38] 0 = POk (BACK (EXEC [(1, 2)])) 4 \<and> parseline (parse_bound [40, 97, 41, 38]) [40, 97, 41, 38] 0 = parseline 100 [40, 97, 41, 38] 0"
proof -
  have "parse_bound [40, 97, 41, 38] \<le> 100" by (simp add: parse_bound_def)
  note t = parseline_terminates [OF this]
  have "parseline (parse_bound [40, 97, 41, 38]) [40, 97, 41, 38] 0 = POk (BACK (EXEC [(1, 2)])) 4" by code_simp
  then show ?thesis using t by simp
qed

text \<open>C40: The parser stays within its arrays: every word of the command it returns lies inside the
  line or ends at its \<open>NUL\<close>, is not empty and holds neither blanks nor symbols, and no command has more
  than \<open>MAXARGS - 1\<close> arguments, so that the null pointer behind the last one is still in the array.\<close>

theorem parsed_in_bounds:
  assumes "parseline n b 0 = POk c s"
  shows "s \<le> length b \<and> cmd_ok b c"
  using parse_ok [of 0 b n] assms by simp

theorem parsed_in_bounds_witness:
  "parseline 20 [97, 32, 98] 0 = POk (EXEC [(0, 1), (2, 3)]) 3 \<and> cmd_ok [97, 32, 98] (EXEC [(0, 1), (2, 3)])"
proof -
  have "parseline 20 [97, 32, 98] 0 = POk (EXEC [(0, 1), (2, 3)]) 3" by code_simp
  then show ?thesis using parsed_in_bounds [of 20 "[97, 32, 98]" "EXEC [(0, 1), (2, 3)]" 3] by blast
qed

section \<open>The strings of a parsed command\<close>

text \<open>A command with its strings, given by what a pair of positions stands for.\<close>

datatype scmd =
    SEXEC "u8 list list"
  | SREDIR scmd "u8 list" int int
  | SPIPE scmd scmd
  | SLIST scmd scmd
  | SBACK scmd

fun cmd_text :: "(nat \<Rightarrow> nat \<Rightarrow> u8 list) \<Rightarrow> cmd \<Rightarrow> scmd" where
  "cmd_text f (EXEC as) = SEXEC (map (\<lambda>(q, eq). f q eq) as)"
| "cmd_text f (REDIR c q eq mode fd) = SREDIR (cmd_text f c) (f q eq) mode fd"
| "cmd_text f (PIPE l r) = SPIPE (cmd_text f l) (cmd_text f r)"
| "cmd_text f (LIST l r) = SLIST (cmd_text f l) (cmd_text f r)"
| "cmd_text f (BACK c) = SBACK (cmd_text f c)"

definition segment :: "u8 list \<Rightarrow> nat \<Rightarrow> nat \<Rightarrow> u8 list" where
  "segment b q eq = take (eq - q) (drop q b)"

fun cmd_toks :: "cmd \<Rightarrow> (nat \<times> nat) set" where
  "cmd_toks (EXEC as) = set as"
| "cmd_toks (REDIR c q eq mode fd) = insert (q, eq) (cmd_toks c)"
| "cmd_toks (PIPE l r) = cmd_toks l \<union> cmd_toks r"
| "cmd_toks (LIST l r) = cmd_toks l \<union> cmd_toks r"
| "cmd_toks (BACK c) = cmd_toks c"

lemma cmd_text_cong: "(\<And>q eq. (q, eq) \<in> cmd_toks c \<Longrightarrow> f q eq = g q eq) \<Longrightarrow> cmd_text f c = cmd_text g c"
  by (induction c) auto

lemma cmd_ok_toks: "cmd_ok b c \<Longrightarrow> (q, eq) \<in> cmd_toks c \<Longrightarrow> tok_ok b q eq"
  by (induction c) auto

lemma fold_zero:
  "length (fold (\<lambda>(q, eq) buf. buf[eq := 0]) as buf) = length buf"
  "i < length buf \<Longrightarrow> fold (\<lambda>(q, eq) buf. buf[eq := 0]) as buf ! i = (if i \<in> snd ` set as then 0 else buf ! i)"
proof (induction as arbitrary: buf)
  case (Cons a as)
  case 1 show ?case by (simp add: Cons.IH split: prod.splits)
  case 2 then show ?case by (cases a) (simp add: Cons.IH nth_list_update)
qed simp_all

lemma nulterminate_nth:
  "length (nulterminate c buf) = length buf"
  "i < length buf \<Longrightarrow> nulterminate c buf ! i = (if i \<in> snd ` cmd_toks c then 0 else buf ! i)"
proof (induction c arbitrary: buf)
  case (REDIR c q eq mode fd)
  case 1 show ?case by (simp add: REDIR.IH)
  case 2 then show ?case by (cases "eq = i") (simp_all add: REDIR.IH)
qed (simp_all add: fold_zero image_Un)

lemma sh_str_nth:
  assumes "q \<le> e" "e < length buf" "buf ! e = 0" "\<And>i. q \<le> i \<Longrightarrow> i < e \<Longrightarrow> buf ! i \<noteq> 0"
  shows "sh_str buf q = segment buf q e"
proof -
  have "drop q buf = segment buf q e @ drop e buf" unfolding segment_def using assms(1) by (metis append_take_drop_id drop_drop le_add_diff_inverse2)
  moreover have "takeWhile (\<lambda>c. c \<noteq> 0) (drop e buf) = []" using assms(2,3) by (simp add: Cons_nth_drop_Suc [symmetric])
  moreover have "c \<noteq> 0" if "c \<in> set (segment buf q e)" for c
    using that assms(2,4) by (auto simp: segment_def in_set_conv_nth)
  ultimately show ?thesis unfolding sh_str_def by (simp add: takeWhile_append2)
qed

lemma nulterminate_strings:
  assumes c: "cmd_ok b c" and nz: "0 \<notin> set b"
  shows "cmd_text (\<lambda>q eq. sh_str (nulterminate c (b @ [0])) q) c = cmd_text (segment b) c"
proof (rule cmd_text_cong)
  fix q eq assume t: "(q, eq) \<in> cmd_toks c"
  let ?buf = "nulterminate c (b @ [0])"
  have tok: "q < eq" "eq \<le> length b" "\<And>i. q \<le> i \<Longrightarrow> i < eq \<Longrightarrow> is_word (b ! i)" using cmd_ok_toks [OF c t] by (auto simp: tok_ok_def)
  have in': "?buf ! i = b ! i \<and> b ! i \<noteq> 0" if "q \<le> i" "i < eq" for i
  proof -
    have "i \<notin> snd ` cmd_toks c"
    proof
      assume "i \<in> snd ` cmd_toks c"
      then obtain q' where "tok_ok b q' i" using cmd_ok_toks [OF c] by force
      then show False using tok(2,3) that by (auto simp: tok_ok_def)
    qed
    moreover have "b ! i \<in> set b" using that tok(2) by simp
    then have "b ! i \<noteq> 0" using nz by metis
    ultimately show ?thesis using that tok(2) by (simp add: nulterminate_nth nth_append)
  qed
  have "?buf ! eq = 0" using t tok(2) by (force simp: nulterminate_nth)
  then have "sh_str ?buf q = segment ?buf q eq"
    using sh_str_nth [of q eq ?buf] tok in' by (simp add: nulterminate_nth)
  also have "\<dots> = segment b q eq" using tok in' by (auto simp: segment_def nulterminate_nth intro!: nth_equalityI)
  finally show "sh_str ?buf q = segment b q eq" .
qed

section \<open>Writing a command down\<close>

definition sword :: "u8 list \<Rightarrow> bool" where
  "sword w \<longleftrightarrow> w \<noteq> [] \<and> (\<forall>c \<in> set w. is_word c \<and> c \<noteq> 0)"

definition redir_sym :: "int \<Rightarrow> int \<Rightarrow> u8 list option" where
  "redir_sym mode fd =
     (if mode = O_RDONLY \<and> fd = 0 then Some [60]
      else if mode = O_WRONLY + O_CREATE + O_TRUNC \<and> fd = 1 then Some [62]
      else if mode = O_WRONLY + O_CREATE \<and> fd = 1 then Some [62, 62]
      else None)"

fun scmd_ok :: "scmd \<Rightarrow> bool" where
  "scmd_ok (SEXEC ws) \<longleftrightarrow> length ws < MAXARGS \<and> list_all sword ws"
| "scmd_ok (SREDIR c f mode fd) \<longleftrightarrow> scmd_ok c \<and> sword f \<and> redir_sym mode fd \<noteq> None"
| "scmd_ok (SPIPE l r) \<longleftrightarrow> scmd_ok l \<and> scmd_ok r"
| "scmd_ok (SLIST l r) \<longleftrightarrow> scmd_ok l \<and> scmd_ok r"
| "scmd_ok (SBACK c) \<longleftrightarrow> scmd_ok c"

definition paren :: "u8 list \<Rightarrow> u8 list" where
  "paren x = 40 # x @ [41]"

fun show_cmd :: "scmd \<Rightarrow> u8 list" where
  "show_cmd (SEXEC ws) = concat (map (\<lambda>w. w @ [32]) ws)"
| "show_cmd (SREDIR c f mode fd) = paren (show_cmd c) @ the (redir_sym mode fd) @ f"
| "show_cmd (SPIPE l r) = paren (show_cmd l) @ [124] @ paren (show_cmd r)"
| "show_cmd (SLIST l r) = paren (show_cmd l) @ [59] @ paren (show_cmd r)"
| "show_cmd (SBACK c) = paren (show_cmd c) @ [38]"

lemma is_white_iff: "is_white c \<longleftrightarrow> c \<in> {32, 9, 13, 10, 11}"
  by (auto simp: is_white_def whitespace_def)

lemma is_word_iff: "is_word c \<longleftrightarrow> c \<notin> {32, 9, 13, 10, 11, 60, 124, 62, 38, 59, 40, 41}"
  by (auto simp: is_word_def whitespace_def symbols_def)

lemma drop_ConsD: "drop s b = c # r \<Longrightarrow> s < length b \<and> b ! s = c \<and> drop (Suc s) b = r"
  by (metis Cons_nth_drop_Suc drop_all linorder_not_less list.distinct(1) list.inject)

lemma drop_appendD: "drop s b = w @ x \<Longrightarrow> drop (s + length w) b = x"
  using drop_drop [of "length w" s b] by (simp add: add.commute)

lemma scan_none: "drop s b = [] \<or> \<not> P (hd (drop s b)) \<Longrightarrow> scan P b s = s"
  by (cases "s < length b") (auto simp: scan.simps [of P b s] hd_drop_conv_nth)

lemma peek_char:
  assumes "drop s b = c # r" "\<not> is_white c" "c \<noteq> 0"
  shows "peek b s toks = (s, ustrchr toks c \<noteq> None)"
  using assms drop_ConsD [OF assms(1)] by (simp add: peek_def scan_none sh_at_def)

lemma peek_end: "drop s b = [] \<Longrightarrow> peek b s toks = (s, False)"
  by (simp add: peek_def scan_none sh_at_def)

text \<open>What may follow a command: the end or a closing parenthesis.\<close>

definition closed :: "u8 list \<Rightarrow> bool" where
  "closed r \<longleftrightarrow> r = [] \<or> (\<exists>r'. r = 41 # r')"

lemma peek_closed:
  assumes "drop s b = r" "closed r" "ustrchr toks 41 = None"
  shows "peek b s toks = (s, False)"
  using assms peek_char [of s b 41 _ toks] peek_end [of s b toks] by (auto simp: closed_def is_white_iff)

lemma gettoken_char:
  assumes "drop s b = c # r" "c \<in> {124, 40, 41, 59, 38, 60}" "r = [] \<or> \<not> is_white (hd r)"
  shows "gettoken b s = (c, s, s + 1, s + 1)"
proof -
  have d: "s < length b" "b ! s = c" "drop (Suc s) b = r" using drop_ConsD [OF assms(1)] by auto
  have nw: "\<not> is_white c" "c \<noteq> 0" using assms(2) by (auto simp: is_white_iff)
  then have "scan is_white b s = s" "sh_at b s = c" "scan is_white b (s + 1) = s + 1"
    using assms d by (simp_all add: scan_none sh_at_def)
  then show ?thesis using assms(2) nw by (simp add: gettoken_def)
qed

lemma gettoken_out:
  assumes "drop s b = 62 # c # r" "c \<noteq> 62" "\<not> is_white c"
  shows "gettoken b s = (62, s, s + 1, s + 1)"
proof -
  have d: "s < length b" "b ! s = 62" "drop (Suc s) b = c # r" using drop_ConsD [OF assms(1)] by auto
  then have "b ! (s + 1) = c" using drop_ConsD [OF d(3)] by simp
  moreover have "scan is_white b s = s" "sh_at b s = 62" "scan is_white b (s + 1) = s + 1"
    using assms d by (simp_all add: scan_none sh_at_def is_white_iff)
  ultimately show ?thesis using assms(2) by (simp add: gettoken_def sh_at_def)
qed

lemma gettoken_app:
  assumes "drop s b = 62 # 62 # c # r" "\<not> is_white c"
  shows "gettoken b s = (43, s, s + 2, s + 2)"
proof -
  have d: "s < length b" "b ! s = 62" "drop (Suc s) b = 62 # c # r" using drop_ConsD [OF assms(1)] by auto
  then have d2: "b ! (s + 1) = 62" "Suc s < length b" "drop (s + 2) b = c # r" using drop_ConsD [OF d(3)] by auto
  moreover have "scan is_white b s = s" "sh_at b s = 62" "scan is_white b (s + 2) = s + 2"
    using assms d d2 by (simp_all add: scan_none sh_at_def is_white_iff)
  ultimately show ?thesis by (simp add: gettoken_def sh_at_def)
qed

lemma gettoken_sword:
  assumes "drop s b = w @ r" "sword w" "r = [] \<or> \<not> is_word (hd r)"
  shows "gettoken b s = (97, s, s + length w, scan is_white b (s + length w))"
proof -
  obtain c w' where w: "w = c # w'" using assms(2) by (cases w) (auto simp: sword_def)
  then have c: "is_word c" "c \<noteq> 0" using assms(2) by (auto simp: sword_def)
  have d: "s < length b" "b ! s = c" using drop_ConsD [of s b c "w' @ r"] assms(1) w by auto
  have "takeWhile is_word (w @ r) = w" using assms(2,3) by (cases r) (auto simp: sword_def takeWhile_append)
  then have "scan is_word b s = s + length w" using scan_takeWhile [of s b is_word] d assms(1) by simp
  moreover have "scan is_white b s = s" using assms(1) w c by (simp add: scan_none is_white_iff is_word_iff)
  ultimately show ?thesis using d c by (auto simp: gettoken_def sh_at_def is_word_iff)
qed

text \<open>The start of a list of words: nothing, a byte of a word or a closing parenthesis.\<close>

definition plain :: "u8 list \<Rightarrow> bool" where
  "plain x \<longleftrightarrow> x = [] \<or> (\<exists>c x'. x = c # x' \<and> c \<noteq> 0 \<and> (is_word c \<or> c = 41))"

lemma closed_plain: "closed r \<Longrightarrow> plain r"
  by (auto simp: closed_def plain_def)

lemma sword_plain: "sword w \<Longrightarrow> plain (w @ x)"
  by (cases w) (auto simp: sword_def plain_def)

lemma plain_words: "list_all sword ws \<Longrightarrow> closed r \<Longrightarrow> plain (concat (map (\<lambda>w. w @ [32]) ws) @ r)"
  by (cases ws) (simp_all add: closed_plain sword_plain)

lemma plain_nonwhite: "plain x \<Longrightarrow> x = [] \<or> \<not> is_white (hd x)"
  by (auto simp: plain_def is_white_iff is_word_iff)

lemma peek_plain:
  assumes "drop s b = x" "plain x" "set toks \<subseteq> set symbols" "41 \<notin> set toks"
  shows "peek b s toks = (s, False)"
proof (cases x)
  case Nil
  then show ?thesis using assms(1) by (simp add: peek_end)
next
  case (Cons c y)
  then have c: "c \<noteq> 0" "is_word c \<or> c = 41" using assms(2) by (auto simp: plain_def)
  have "c \<notin> set toks" using assms(3,4) c by (auto simp: is_word_iff symbols_def)
  moreover have "0 \<notin> set toks" using assms(3) by (auto simp: symbols_def)
  ultimately have "ustrchr toks c = None" by (simp add: ustrchr_None)
  moreover have "\<not> is_white c" using c by (auto simp: is_word_iff is_white_iff)
  ultimately show ?thesis using peek_char [of s b c y toks] assms(1) Cons c by simp
qed

lemma parseredirs_none:
  assumes "drop s b = x" "plain x"
  shows "parseredirs c b s = POk c s"
  using peek_plain [OF assms, of "[60, 62]"] by (subst parseredirs.simps) (simp add: symbols_def)

lemma parse_args_words:
  "drop s b = concat (map (\<lambda>w. w @ [32]) ws) @ r \<Longrightarrow> list_all sword ws \<Longrightarrow> closed r \<Longrightarrow> argc + length ws < MAXARGS \<Longrightarrow>
     \<exists>ts s'. parse_args (EXEC as) argc b s = POk (EXEC (as @ ts)) s' \<and> drop s' b = r \<and> map (\<lambda>(q, e). segment b q e) ts = ws"
proof (induction ws arbitrary: s argc as)
  case Nil
  then have r: "drop s b = r" by simp
  show ?case
  proof (cases r)
    case Nil
    then have "gettoken b s = (0, s, s, s)" using r by (simp add: gettoken_def scan_none sh_at_def)
    then show ?thesis using r Nil peek_end [of s b] by (subst parse_args.simps) simp
  next
    case (Cons c r')
    then have "c = 41" using \<open>closed r\<close> by (simp add: closed_def)
    then show ?thesis using r Cons peek_char [of s b c r' "[124, 41, 38, 59]"] by (subst parse_args.simps) (simp add: is_white_iff)
  qed
next
  case (Cons w ws)
  let ?x = "concat (map (\<lambda>w. w @ [32]) ws) @ r"
  have w: "sword w" "list_all sword ws" using Cons.prems(2) by auto
  have d: "drop s b = w @ 32 # ?x" using Cons.prems(1) by simp
  have d1: "drop (s + length w) b = 32 # ?x" using drop_appendD [OF d] .
  then have d2: "drop (s + length w + 1) b = ?x" and l: "s + length w < length b" using drop_ConsD [OF d1] by auto
  have px: "plain ?x" using plain_words [OF w(2) Cons.prems(3)] .
  have sk: "scan is_white b (s + length w) = s + length w + 1"
    using drop_ConsD [OF d1] scan_none [of "s + length w + 1" b is_white] d2 plain_nonwhite [OF px]
    by (simp add: scan.simps [of is_white b "s + length w"] is_white_iff)
  have p: "peek b s [124, 41, 38, 59] = (s, False)"
  proof -
    obtain c w' where c: "w = c # w'" "is_word c" "c \<noteq> 0" using w(1) by (cases w) (auto simp: sword_def)
    then show ?thesis using peek_char [of s b c "w' @ 32 # ?x"] d by (auto simp: is_word_iff is_white_iff)
  qed
  have g: "gettoken b s = (97, s, s + length w, s + length w + 1)"
    using gettoken_sword [OF d w(1)] sk by (simp add: is_word_iff)
  have "parse_args (EXEC as) argc b s = parse_args (EXEC (as @ [(s, s + length w)])) (argc + 1) b (s + length w + 1)"
    using p g parseredirs_none [OF d2 px] Cons.prems(4) by (subst parse_args.simps) simp
  moreover obtain ts s' where "parse_args (EXEC (as @ [(s, s + length w)])) (argc + 1) b (s + length w + 1) = POk (EXEC ((as @ [(s, s + length w)]) @ ts)) s'"
    "drop s' b = r" "map (\<lambda>(q, e). segment b q e) ts = ws"
    using Cons.IH [OF d2 w(2) Cons.prems(3), of "argc + 1" "as @ [(s, s + length w)]"] Cons.prems(4) by auto
  moreover have "segment b s (s + length w) = w" using d by (simp add: segment_def)
  ultimately show ?case by (intro exI [of _ "(s, s + length w) # ts"] exI [of _ s']) simp
qed

lemma parseredirs_one:
  assumes d: "drop s b = op @ f @ r" and op: "redir_sym mode fd = Some op" and f: "sword f" and r: "closed r"
  shows "\<exists>q e s'. parseredirs c b s = POk (REDIR c q e mode fd) s' \<and> segment b q e = f \<and> drop s' b = r"
proof -
  obtain k f' where k: "f = k # f'" "is_word k" "k \<noteq> 0" using f by (cases f) (auto simp: sword_def)
  then have nk: "\<not> is_white k" "k \<noteq> 62" by (auto simp: is_word_iff is_white_iff)
  obtain y z where y: "op = y # z" "y = 60 \<or> y = 62" using op by (auto simp: redir_sym_def split: if_splits)
  have p: "peek b s [60, 62] = (s, True)" using peek_char [of s b y "z @ f @ r"] d y by (auto simp: is_white_iff)
  let ?s = "s + length op"
  have g: "gettoken b s = (if op = [60] then 60 else if op = [62] then 62 else 43, s, ?s, ?s)"
    using op d k gettoken_char [of s b 60 "f @ r"] gettoken_out [of s b k "f' @ r"] gettoken_app [of s b k "f' @ r"] nk
    by (auto simp: redir_sym_def split: if_splits)
  have d1: "drop ?s b = f @ r" using drop_appendD [OF d] .
  have d2: "drop (?s + length f) b = r" using drop_appendD [OF d1] .
  have "scan is_white b (?s + length f) = ?s + length f" using d2 plain_nonwhite [OF closed_plain [OF r]] by (auto intro: scan_none)
  then have g2: "gettoken b ?s = (97, ?s, ?s + length f, ?s + length f)"
    using gettoken_sword [OF d1 f] r by (auto simp: closed_def is_word_iff)
  have "parseredirs c b s = parseredirs (REDIR c ?s (?s + length f) mode fd) b (?s + length f)"
    using p g g2 op by (subst parseredirs.simps) (auto simp: redir_sym_def split: if_splits)
  then have "parseredirs c b s = POk (REDIR c ?s (?s + length f) mode fd) (?s + length f)"
    using parseredirs_none [OF d2 closed_plain [OF r]] by simp
  moreover have "segment b ?s (?s + length f) = f" using d1 by (simp add: segment_def)
  ultimately show ?thesis using d2 by blast
qed

text \<open>From some bound on the depth of the calls onwards.\<close>

definition ev :: "(nat \<Rightarrow> bool) \<Rightarrow> bool" where
  "ev P \<longleftrightarrow> (\<exists>n. \<forall>k \<ge> n. P k)"

lemma ev_Suc: "ev (\<lambda>k. P (Suc k)) \<Longrightarrow> ev P"
  unfolding ev_def by (metis Suc_le_D Suc_le_mono)

lemma ev_mono: "ev P \<Longrightarrow> (\<And>k. P k \<Longrightarrow> Q k) \<Longrightarrow> ev Q"
  unfolding ev_def by blast

lemma ev_conj: "ev P \<Longrightarrow> ev Q \<Longrightarrow> ev (\<lambda>k. P k \<and> Q k)"
  unfolding ev_def by (metis max.boundedE)

text \<open>What may follow a part of a command: the end or one of the symbols behind it.\<close>

definition stops :: "u8 list \<Rightarrow> bool" where
  "stops x \<longleftrightarrow> x = [] \<or> hd x \<in> {41, 124, 59, 38}"

lemma closed_stops: "closed x \<Longrightarrow> stops x"
  by (auto simp: closed_def stops_def)

lemma peek_stops:
  assumes "drop s b = x" "stops x" "x = [] \<or> ustrchr toks (hd x) = None"
  shows "peek b s toks = (s, False)"
proof (cases x)
  case (Cons c y)
  moreover from this have "\<not> is_white c" "c \<noteq> 0" using assms(2) by (auto simp: stops_def is_white_iff)
  ultimately show ?thesis using peek_char [of s b c y toks] assms by simp
qed (use assms(1) in \<open>simp add: peek_end\<close>)

lemma parseredirs_stops:
  assumes "drop s b = x" "stops x"
  shows "parseredirs c b s = POk c s"
proof -
  have "peek b s [60, 62] = (s, False)" using assms by (intro peek_stops [OF assms]) (auto simp: stops_def)
  then show ?thesis by (subst parseredirs.simps) simp
qed

lemma parse_back_stops:
  assumes "drop s b = x" "stops x" "x = [] \<or> hd x \<noteq> 38"
  shows "parse_back c b s = (c, s)"
proof -
  have "peek b s [38] = (s, False)" using assms by (intro peek_stops [OF assms(1,2)]) auto
  then show ?thesis by (subst parse_back.simps) simp
qed

lemma pipe_single:
  assumes "ev (\<lambda>k. parseexec k b s = POk c s')" "drop s' b = x" "stops x" "x = [] \<or> hd x \<noteq> 124"
  shows "ev (\<lambda>k. parsepipe k b s = POk c s')"
proof -
  have "peek b s' [124] = (s', False)" using assms by (intro peek_stops [OF assms(2,3)]) auto
  then show ?thesis by (intro ev_Suc [of "\<lambda>k. parsepipe k b s = POk c s'"] ev_mono [OF assms(1)]) simp
qed

lemma line_single:
  assumes "ev (\<lambda>k. parsepipe k b s = POk c s')" "drop s' b = x" "closed x"
  shows "ev (\<lambda>k. parseline k b s = POk c s')"
proof -
  have x: "x = [] \<or> hd x = 41" using assms(3) by (auto simp: closed_def)
  have "peek b s' [59] = (s', False)" using x by (intro peek_stops [OF assms(2) closed_stops [OF assms(3)]]) auto
  moreover have "parse_back c b s' = (c, s')" using x by (intro parse_back_stops [OF assms(2) closed_stops [OF assms(3)]]) auto
  ultimately show ?thesis by (intro ev_Suc [of "\<lambda>k. parseline k b s = POk c s'"] ev_mono [OF assms(1)]) simp
qed

lemma symbol_step:
  assumes "drop s b = c # x" "c \<in> {124, 40, 41, 59, 38}" "x = [] \<or> \<not> is_white (hd x)"
  shows "peek b s [c] = (s, True)" "gettoken b s = (c, s, s + 1, s + 1)" "drop (s + 1) b = x"
  using assms peek_char [OF assms(1), of "[c]"] gettoken_char [OF assms(1) _ assms(3)] drop_ConsD [OF assms(1)]
  by (auto simp: is_white_iff)

text \<open>A command in parentheses is parsed as the command, up to the redirections behind it.\<close>

lemma exec_paren:
  assumes line: "\<And>s r. drop s b = show_cmd c @ r \<Longrightarrow> closed r \<Longrightarrow>
      \<exists>d s'. ev (\<lambda>k. parseline k b s = POk d s') \<and> drop s' b = r \<and> cmd_text (segment b) d = c"
    and start: "\<And>r. closed r \<Longrightarrow> show_cmd c @ r = [] \<or> \<not> is_white (hd (show_cmd c @ r))"
    and d: "drop s b = paren (show_cmd c) @ x" and x: "x = [] \<or> \<not> is_white (hd x)"
  shows "\<exists>d s'. ev (\<lambda>k. parseexec k b s = parseredirs d b s') \<and> drop s' b = x \<and> cmd_text (segment b) d = c"
proof -
  have d: "drop s b = 40 # show_cmd c @ 41 # x" using d by (simp add: paren_def)
  have "closed (41 # x)" by (simp add: closed_def)
  note st = symbol_step [OF d _ start [OF this], simplified]
  from line [OF st(3) \<open>closed (41 # x)\<close>] obtain d s' where
    d': "ev (\<lambda>k. parseline k b (s + 1) = POk d s')" "drop s' b = 41 # x" "cmd_text (segment b) d = c" by auto
  note st' = symbol_step [OF d'(2) _ x, simplified]
  have "ev (\<lambda>k. parseexec (Suc (Suc k)) b s = parseredirs d b (s' + 1))"
    by (rule ev_mono [OF d'(1)]) (use st st' in simp)
  then have "ev (\<lambda>k. parseexec k b s = parseredirs d b (s' + 1))"
    by (intro ev_Suc [of "\<lambda>k. parseexec k b s = parseredirs d b (s' + 1)"] ev_Suc [of "\<lambda>k. parseexec (Suc k) b s = parseredirs d b (s' + 1)"])
  then show ?thesis using st'(3) d'(3) by (intro exI [of _ d] exI [of _ "s' + 1"]) simp
qed

lemma exec_closed:
  assumes "ev (\<lambda>k. parseexec k b s = POk c s')" "drop s' b = x" "closed x"
  shows "ev (\<lambda>k. parsepipe k b s = POk c s')" "ev (\<lambda>k. parseline k b s = POk c s')"
proof -
  show "ev (\<lambda>k. parsepipe k b s = POk c s')"
    by (rule pipe_single [OF assms(1,2) closed_stops [OF assms(3)]]) (use assms(3) in \<open>auto simp: closed_def\<close>)
  then show "ev (\<lambda>k. parseline k b s = POk c s')" by (rule line_single [OF _ assms(2,3)])
qed

lemma show_start: "scmd_ok c \<Longrightarrow> closed r \<Longrightarrow> show_cmd c @ r = [] \<or> \<not> is_white (hd (show_cmd c @ r))"
  using plain_nonwhite [OF plain_words] by (cases c) (auto simp: paren_def is_white_iff)

lemma closed_nonwhite: "closed r \<Longrightarrow> r = [] \<or> \<not> is_white (hd r)"
  by (rule plain_nonwhite [OF closed_plain])

definition reads :: "u8 list \<Rightarrow> scmd \<Rightarrow> bool" where
  "reads b c \<longleftrightarrow> scmd_ok c \<and> (\<forall>s r. drop s b = show_cmd c @ r \<longrightarrow> closed r \<longrightarrow>
     (\<exists>d s'. ev (\<lambda>k. parseline k b s = POk d s') \<and> drop s' b = r \<and> cmd_text (segment b) d = c))"

lemma reads_paren:
  assumes "reads b c" "drop s b = paren (show_cmd c) @ x" "x = [] \<or> \<not> is_white (hd x)"
  shows "\<exists>d s'. ev (\<lambda>k. parseexec k b s = parseredirs d b s') \<and> drop s' b = x \<and> cmd_text (segment b) d = c"
  by (rule exec_paren [OF _ show_start assms(2,3)]) (use assms(1) in \<open>auto simp: reads_def\<close>)

lemma reads_last:
  assumes "reads b c" "drop s b = paren (show_cmd c) @ x" "closed x"
  shows "\<exists>d s'. ev (\<lambda>k. parsepipe k b s = POk d s') \<and> ev (\<lambda>k. parseline k b s = POk d s') \<and> drop s' b = x \<and> cmd_text (segment b) d = c"
proof -
  from reads_paren [OF assms(1,2) closed_nonwhite [OF assms(3)]] obtain d s' where
    d: "ev (\<lambda>k. parseexec k b s = parseredirs d b s')" "drop s' b = x" "cmd_text (segment b) d = c" by auto
  from d(1) have "ev (\<lambda>k. parseexec k b s = POk d s')" unfolding parseredirs_stops [OF d(2) closed_stops [OF assms(3)]] .
  from exec_closed [OF this d(2) assms(3)] show ?thesis using d(2,3) by blast
qed

lemma reads_before:
  assumes "reads b c" "drop s b = paren (show_cmd c) @ y # x" "y \<in> {124, 59, 38}" "x = [] \<or> \<not> is_white (hd x)"
  shows "\<exists>d s'. ev (\<lambda>k. parseexec k b s = POk d s') \<and> drop s' b = y # x \<and> cmd_text (segment b) d = c
     \<and> peek b s' [y] = (s', True) \<and> gettoken b s' = (y, s', s' + 1, s' + 1) \<and> drop (s' + 1) b = x"
proof -
  have y: "y # x = [] \<or> \<not> is_white (hd (y # x))" "stops (y # x)" using assms(3) by (auto simp: is_white_iff stops_def)
  from reads_paren [OF assms(1,2) y(1)] obtain d s' where
    d: "ev (\<lambda>k. parseexec k b s = parseredirs d b s')" "drop s' b = y # x" "cmd_text (segment b) d = c" by auto
  have "y \<in> {124, 40, 41, 59, 38}" using assms(3) by auto
  note st = symbol_step [OF d(2) this assms(4)]
  have "ev (\<lambda>k. parseexec k b s = POk d s')" using d(1) unfolding parseredirs_stops [OF d(2) y(2)] .
  then show ?thesis using d(2,3) st by blast
qed

lemma reads_SEXEC:
  assumes ok: "scmd_ok (SEXEC ws)"
  shows "reads b (SEXEC ws)"
  unfolding reads_def
proof (intro conjI allI impI ok)
  fix s r assume d: "drop s b = show_cmd (SEXEC ws) @ r" and r: "closed r"
  have ws: "list_all sword ws" "0 + length ws < MAXARGS" using ok by auto
  have d: "drop s b = concat (map (\<lambda>w. w @ [32]) ws) @ r" using d by simp
  have pl: "plain (concat (map (\<lambda>w. w @ [32]) ws) @ r)" using plain_words [OF ws(1) r] .
  from parse_args_words [OF d ws(1) r ws(2), of "[]"] obtain ts s' where
    ts: "parse_args (EXEC []) 0 b s = POk (EXEC ts) s'" "drop s' b = r" "map (\<lambda>(q, e). segment b q e) ts = ws" by auto
  have "peek b s [40] = (s, False)" using peek_plain [OF d pl, of "[40]"] by (simp add: symbols_def)
  then have "parseexec (Suc k) b s = POk (EXEC ts) s'" for k
    using ts(1) parseredirs_none [OF d pl] by (simp add: execcmd_def)
  then have "ev (\<lambda>k. parseexec k b s = POk (EXEC ts) s')" by (intro ev_Suc [of "\<lambda>k. parseexec k b s = POk (EXEC ts) s'"]) (simp add: ev_def)
  from exec_closed(2) [OF this ts(2) r]
  show "\<exists>d s'. ev (\<lambda>k. parseline k b s = POk d s') \<and> drop s' b = r \<and> cmd_text (segment b) d = SEXEC ws"
    using ts(2,3) by (intro exI [of _ "EXEC ts"] exI [of _ s']) simp
qed

lemma reads_SREDIR:
  assumes c: "reads b c" and ok: "scmd_ok (SREDIR c f mode fd)"
  shows "reads b (SREDIR c f mode fd)"
  unfolding reads_def
proof (intro conjI allI impI ok)
  fix s r assume d: "drop s b = show_cmd (SREDIR c f mode fd) @ r" and r: "closed r"
  obtain op where op: "redir_sym mode fd = Some op" using ok by auto
  have f: "sword f" using ok by auto
  have d: "drop s b = paren (show_cmd c) @ op @ f @ r" using d op by simp
  have nw: "op @ f @ r = [] \<or> \<not> is_white (hd (op @ f @ r))" using op by (auto simp: redir_sym_def is_white_iff split: if_splits)
  from reads_paren [OF c d nw] obtain d s' where
    d': "ev (\<lambda>k. parseexec k b s = parseredirs d b s')" "drop s' b = op @ f @ r" "cmd_text (segment b) d = c" by auto
  from parseredirs_one [OF d'(2) op f r, of d] obtain q e s2 where
    p: "parseredirs d b s' = POk (REDIR d q e mode fd) s2" "segment b q e = f" "drop s2 b = r" by auto
  from exec_closed(2) [OF d'(1) [unfolded p(1)] p(3) r]
  show "\<exists>d s'. ev (\<lambda>k. parseline k b s = POk d s') \<and> drop s' b = r \<and> cmd_text (segment b) d = SREDIR c f mode fd"
    using p(2,3) d'(3) by (intro exI [of _ "REDIR d q e mode fd"] exI [of _ s2]) simp
qed

lemma reads_SPIPE:
  assumes c1: "reads b c1" and c2: "reads b c2"
  shows "reads b (SPIPE c1 c2)"
  unfolding reads_def
proof (intro conjI allI impI)
  show "scmd_ok (SPIPE c1 c2)" using c1 c2 by (simp add: reads_def)
  fix s r assume d: "drop s b = show_cmd (SPIPE c1 c2) @ r" and r: "closed r"
  have d: "drop s b = paren (show_cmd c1) @ 124 # paren (show_cmd c2) @ r" using d by simp
  from reads_before [OF c1 d] obtain d1 s1 where
    d1: "ev (\<lambda>k. parseexec k b s = POk d1 s1)" "cmd_text (segment b) d1 = c1"
    and st: "peek b s1 [124] = (s1, True)" "gettoken b s1 = (124, s1, s1 + 1, s1 + 1)" "drop (s1 + 1) b = paren (show_cmd c2) @ r"
    by (auto simp: is_white_iff paren_def)
  from reads_last [OF c2 st(3) r] obtain d2 s2 where
    d2: "ev (\<lambda>k. parsepipe k b (s1 + 1) = POk d2 s2)" "drop s2 b = r" "cmd_text (segment b) d2 = c2" by auto
  from ev_conj [OF d1(1) d2(1)] have "ev (\<lambda>k. parsepipe (Suc k) b s = POk (PIPE d1 d2) s2)"
    by (rule ev_mono) (use st in simp)
  then have "ev (\<lambda>k. parsepipe k b s = POk (PIPE d1 d2) s2)" by (rule ev_Suc)
  from line_single [OF this d2(2) r]
  show "\<exists>d s'. ev (\<lambda>k. parseline k b s = POk d s') \<and> drop s' b = r \<and> cmd_text (segment b) d = SPIPE c1 c2"
    using d1(2) d2(2,3) by (intro exI [of _ "PIPE d1 d2"] exI [of _ s2]) simp
qed

lemma reads_SLIST:
  assumes c1: "reads b c1" and c2: "reads b c2"
  shows "reads b (SLIST c1 c2)"
  unfolding reads_def
proof (intro conjI allI impI)
  show "scmd_ok (SLIST c1 c2)" using c1 c2 by (simp add: reads_def)
  fix s r assume d: "drop s b = show_cmd (SLIST c1 c2) @ r" and r: "closed r"
  have d: "drop s b = paren (show_cmd c1) @ 59 # paren (show_cmd c2) @ r" using d by simp
  from reads_before [OF c1 d] obtain d1 s1 where
    d1: "ev (\<lambda>k. parseexec k b s = POk d1 s1)" "drop s1 b = 59 # paren (show_cmd c2) @ r" "cmd_text (segment b) d1 = c1"
    and st: "peek b s1 [59] = (s1, True)" "gettoken b s1 = (59, s1, s1 + 1, s1 + 1)" "drop (s1 + 1) b = paren (show_cmd c2) @ r"
    by (auto simp: is_white_iff paren_def)
  have p1: "ev (\<lambda>k. parsepipe k b s = POk d1 s1)" by (rule pipe_single [OF d1(1,2)]) (simp_all add: stops_def)
  have b1: "parse_back d1 b s1 = (d1, s1)" by (rule parse_back_stops [OF d1(2)]) (simp_all add: stops_def)
  from reads_last [OF c2 st(3) r] obtain d2 s2 where
    d2: "ev (\<lambda>k. parseline k b (s1 + 1) = POk d2 s2)" "drop s2 b = r" "cmd_text (segment b) d2 = c2" by auto
  from ev_conj [OF p1 d2(1)] have "ev (\<lambda>k. parseline (Suc k) b s = POk (LIST d1 d2) s2)"
    by (rule ev_mono) (use st b1 in simp)
  then have "ev (\<lambda>k. parseline k b s = POk (LIST d1 d2) s2)" by (rule ev_Suc)
  then show "\<exists>d s'. ev (\<lambda>k. parseline k b s = POk d s') \<and> drop s' b = r \<and> cmd_text (segment b) d = SLIST c1 c2"
    using d1(3) d2(2,3) by (intro exI [of _ "LIST d1 d2"] exI [of _ s2]) simp
qed

lemma reads_SBACK:
  assumes c: "reads b c"
  shows "reads b (SBACK c)"
  unfolding reads_def
proof (intro conjI allI impI)
  show "scmd_ok (SBACK c)" using c by (simp add: reads_def)
  fix s r assume d: "drop s b = show_cmd (SBACK c) @ r" and r: "closed r"
  have d: "drop s b = paren (show_cmd c) @ 38 # r" using d by simp
  from reads_before [OF c d _ closed_nonwhite [OF r]] obtain d1 s1 where
    d1: "ev (\<lambda>k. parseexec k b s = POk d1 s1)" "drop s1 b = 38 # r" "cmd_text (segment b) d1 = c"
    and st: "peek b s1 [38] = (s1, True)" "gettoken b s1 = (38, s1, s1 + 1, s1 + 1)" "drop (s1 + 1) b = r" by auto
  have p1: "ev (\<lambda>k. parsepipe k b s = POk d1 s1)" by (rule pipe_single [OF d1(1,2)]) (simp_all add: stops_def)
  have x: "stops r" "r = [] \<or> hd r = 41" using r by (auto simp: closed_def stops_def)
  have "parse_back (BACK d1) b (s1 + 1) = (BACK d1, s1 + 1)" using x by (intro parse_back_stops [OF st(3)]) auto
  then have b1: "parse_back d1 b s1 = (BACK d1, s1 + 1)" using st by (subst parse_back.simps) simp
  have "peek b (s1 + 1) [59] = (s1 + 1, False)" using x by (intro peek_stops [OF st(3)]) auto
  then have "ev (\<lambda>k. parseline (Suc k) b s = POk (BACK d1) (s1 + 1))" by (intro ev_mono [OF p1]) (use b1 in simp)
  then have "ev (\<lambda>k. parseline k b s = POk (BACK d1) (s1 + 1))" by (rule ev_Suc)
  then show "\<exists>d s'. ev (\<lambda>k. parseline k b s = POk d s') \<and> drop s' b = r \<and> cmd_text (segment b) d = SBACK c"
    using d1(3) st(3) by (intro exI [of _ "BACK d1"] exI [of _ "s1 + 1"]) simp
qed

lemma scmd_reads: "scmd_ok c \<Longrightarrow> reads b c"
  by (induction c) (auto intro: reads_SEXEC reads_SREDIR reads_SPIPE reads_SLIST reads_SBACK)

lemma parsecmd_URet:
  assumes "parsecmd b rs = URet (c, buf) rs' t"
  shows "\<exists>s. parseline (parse_bound b) b 0 = POk c s \<and> buf = nulterminate c (b @ [0])"
proof (cases "parseline (parse_bound b) b 0")
  case (POk d s)
  have "noreturn (ubind (ufprintf 2 (nl ''leftovers: %s'') [VStr (Some (drop x b))]) (\<lambda>_. sh_panic ''syntax'' :: (cmd \<times> u8 list) uprog))" for x
    by (rule noreturn_ubind) simp
  then show ?thesis using assms POk by (auto simp: parsecmd_def Let_def ureturn_def noreturn_def split: if_splits)
next
  case (PPanic e)
  then show ?thesis using assms noreturn_sh_panic [where 'a = "cmd \<times> u8 list", of e] by (simp add: parsecmd_def noreturn_def)
next
  case PDeep
  then show ?thesis using parse_bound_enough by simp
qed

lemma parsecmd_all: "parseline (parse_bound b) b 0 = POk c (length b) \<Longrightarrow> parsecmd b rs = URet (c, nulterminate c (b @ [0])) rs []"
  by (simp add: parsecmd_def peek_end ureturn_def)

text \<open>C38: The strings a command is run with are the words of the line: when the shell has parsed a
  line, the NUL-terminated string at the start of each word in the buffer is that word, although the
  terminators are stored into the line itself and one word may end where a symbol stood.\<close>

theorem parsed_strings:
  assumes "parsecmd b rs = URet (c, buf) rs' t" and "0 \<notin> set b"
  shows "cmd_text (\<lambda>q eq. sh_str buf q) c = cmd_text (segment b) c"
proof -
  obtain s where "parseline (parse_bound b) b 0 = POk c s" and buf: "buf = nulterminate c (b @ [0])"
    using parsecmd_URet [OF assms(1)] by blast
  then have "cmd_ok b c" using parse_ok [of 0 b "parse_bound b"] by simp
  from nulterminate_strings [OF this assms(2)] show ?thesis by (simp add: buf)
qed

theorem parsed_strings_witness:
  "\<exists>c buf. parsecmd [97, 62, 98, 59, 99] [] = URet (c, buf) [] []
     \<and> cmd_text (\<lambda>q eq. sh_str buf q) c = SLIST (SREDIR (SEXEC [[97]]) [98] 1537 1) (SEXEC [[99]])"
proof -
  let ?c = "LIST (REDIR (EXEC [(0, 1)]) 2 3 1537 1) (EXEC [(4, 5)])"
  have "parsecmd [97, 62, 98, 59, 99] [] = URet (?c, [97, 0, 98, 0, 99, 0]) [] []" by code_simp
  moreover have "cmd_text (segment [97, 62, 98, 59, 99]) ?c = SLIST (SREDIR (SEXEC [[97]]) [98] 1537 1) (SEXEC [[99]])" by code_simp
  ultimately show ?thesis using parsed_strings [of "[97, 62, 98, 59, 99]" "[]" ?c "[97, 0, 98, 0, 99, 0]" "[]" "[]"] by auto
qed

lemma show_nonzero: "scmd_ok c \<Longrightarrow> 0 \<notin> set (show_cmd c)"
  by (induction c) (auto simp: paren_def sword_def list_all_iff redir_sym_def split: if_splits)

text \<open>C37: Every command can be written: parsing the fully parenthesised form of a command succeeds,
  makes no system call and gives back the command, with its arguments, files, modes and descriptors.\<close>

theorem parse_show_cmd:
  assumes "scmd_ok c"
  shows "\<exists>d buf. parsecmd (show_cmd c) rs = URet (d, buf) rs [] \<and> cmd_text (\<lambda>q eq. sh_str buf q) d = c"
proof -
  let ?b = "show_cmd c"
  have "drop 0 ?b = show_cmd c @ []" "closed []" by (simp_all add: closed_def)
  with scmd_reads [OF assms, of ?b] obtain d s' n where n: "\<And>k. n \<le> k \<Longrightarrow> parseline k ?b 0 = POk d s'"
    and s': "drop s' ?b = []" and d: "cmd_text (segment ?b) d = c" unfolding reads_def ev_def by meson
  have "parseline (parse_bound ?b) ?b 0 = parseline (max n (parse_bound ?b)) ?b 0"
    using parse_more [of "parse_bound ?b" "max n (parse_bound ?b)" ?b 0] parse_bound_enough [of ?b] by simp
  then have p: "parseline (parse_bound ?b) ?b 0 = POk d s'" using n by simp
  then have ok: "cmd_ok ?b d" "s' = length ?b" using parse_ok [of 0 ?b "parse_bound ?b"] s' by auto
  then have "parsecmd ?b rs = URet (d, nulterminate d (?b @ [0])) rs []" using p by (simp add: parsecmd_all)
  moreover have "cmd_text (\<lambda>q eq. sh_str (nulterminate d (?b @ [0])) q) d = c"
    using nulterminate_strings [OF ok(1) show_nonzero [OF assms]] d by simp
  ultimately show ?thesis by blast
qed

theorem parse_show_cmd_witness:
  "\<exists>d buf. parsecmd (ascii ''(ls )|((wc )>out)'') [] = URet (d, buf) [] []
     \<and> cmd_text (\<lambda>q eq. sh_str buf q) d = SPIPE (SEXEC [ascii ''ls'']) (SREDIR (SEXEC [ascii ''wc'']) (ascii ''out'') 1537 1)"
proof -
  let ?c = "SPIPE (SEXEC [ascii ''ls'']) (SREDIR (SEXEC [ascii ''wc'']) (ascii ''out'') 1537 1)"
  have "scmd_ok ?c" "show_cmd ?c = ascii ''(ls )|((wc )>out)''" by code_simp+
  then show ?thesis using parse_show_cmd [of ?c "[]"] by simp
qed

end
