(* ===== verification/Spec2Isabelle.thy ===== *)
theory Spec2Isabelle
  imports Smp Boot Printf Pagemap Fifo Image Crash Asm Grep Uprogs Umalloc Ps Parse
begin

text \<open>
  Verification of xv6 for RISC-V with a multilevel feedback queue scheduler and the system call
  \<open>getpinfo\<close>: the kernel (\<^verbatim>\<open>kernel/\<close>), the user programs and their library (\<^verbatim>\<open>user/\<close>) and the builder
  of the file system image (\<^verbatim>\<open>mkfs/\<close>).

  \<^bold>\<open>How the parts fit.\<close>  \<^verbatim>\<open>mkfs\<close> writes the image the kernel mounts.  At start-up the kernel hands all free
  pages to the page allocator, builds its page table and starts \<open>init\<close>.  User programs enter the
  kernel through the trampoline; system calls work on processes, memory, files and pipes; all changes
  of the disk go through the log and the buffer cache.  Every hart runs the scheduler, which picks
  a process from the best queue that has one.

  \<^bold>\<open>Conventions.\<close>  C integers are words of their width, or \<open>int\<close> within 32 bits with \<open>int32\<close> for the
  wrap-around.  A kernel routine is a function from the state to an outcome (\<open>Prelude\<close>): \<open>Done\<close> with the
  result and the new state, \<open>Panic\<close>, \<open>Asleep\<close> on a channel, or \<open>Spins\<close> on a lock.  Memory is a function from addresses
  to bytes.  The record \<open>kernel\<close> of theory \<open>State\<close> extends the process table of \<open>Proc\<close> by the globals of
  the other files; a pointer into a table is an index.  Where a routine sleeps, what the rest of the system does
  meanwhile is a parameter.  A user program is a function of the results of its system calls
  and yields the calls it makes (\<open>Ulib\<close>).

  \<^bold>\<open>Theories and sources.\<close>

  \<^item> \<open>Prelude\<close>, \<open>Params\<close>, \<open>State\<close>: outcomes, shared lemmas, the constants of \<^verbatim>\<open>param.h\<close> and \<^verbatim>\<open>memlayout.h\<close>, the state.

  \<^item> \<open>Spinlock\<close> (\<^verbatim>\<open>spinlock.c\<close>): \<open>push_off\<close> to \<open>release\<close>, and harts that interleave step by step:
    mutual exclusion, and no panic for harts that follow the discipline.

  \<^item> \<open>Proc\<close>, \<open>Sched\<close>, \<open>Smp\<close>, \<open>Life\<close> (\<^verbatim>\<open>proc.c\<close>): the table, the scheduler, its loops on several harts, and the life of
    a process.  The search takes a process of the best queue and moves the cursor of that queue behind it,
    bypassing is bounded, promotion reaches queue 0, the queue fields stay consistent.  The theorems also show what
    the code does not do: no process is demoted but at its exit, and two harts can run one process.

  \<^item> \<open>Strings\<close>, \<open>Kalloc\<close>, \<open>Vm\<close> (\<^verbatim>\<open>string.c\<close>, \<^verbatim>\<open>kalloc.c\<close>, \<^verbatim>\<open>vm.c\<close>): bytes, the free list threaded through the pages, the page
    tables.  The locale \<open>page_allocator\<close> is the contract of the allocator.  \<open>Addrspace\<close> shows what the
    copies to and from user memory do, \<open>Pagemap\<close> that a table in memory is a map from pages to entries.

  \<^item> \<open>Bio\<close>, \<open>Log\<close>, \<open>Fs\<close>, \<open>Dir\<close>, \<open>File\<close>, \<open>Pipe\<close>, \<open>Sysfile\<close>: sleep locks, buffer cache, log, inodes, directories, open
    files, pipes and the system calls on them.  \<open>Cache\<close> is the cache as its users see it; \<open>Crash\<close> shows that a
    transaction is on the disk wholly or not at all after a crash at any write, and that recovery may itself
    be cut off and repeated; \<open>Fifo\<close> that a pipe is a bounded queue (locale \<open>bounded_fifo\<close>); \<open>Filemap\<close> and \<open>Content\<close>
    that \<open>readi\<close> delivers the bytes of a file (locale \<open>sink\<close> for where they go).

  \<^item> \<open>Exec\<close>, \<open>Sysproc\<close>, \<open>Trap\<close>, \<open>Console\<close>, \<open>Virtio\<close>, \<open>Printf\<close>, \<open>Boot\<close>: the remaining C files of the kernel.  \<open>Asm\<close>: the assembly
    files as instruction sequences; a trap, a context switch and a kernel interrupt restore the registers they save.

  \<^item> \<open>Mkfs\<close> (\<^verbatim>\<open>mkfs/mkfs.c\<close>) and \<open>Image\<close>: every file named on the command line is in the image with its bytes, the free map
    marks exactly the blocks in use, and the kernel reads the files back.

  \<^item> \<open>Ulib\<close>, \<open>Umalloc\<close>, \<open>Uprogs\<close>, \<open>Ps\<close>, \<open>Grep\<close>, \<open>Sh\<close>, \<open>Parse\<close> (\<^verbatim>\<open>user/\<close>): the library, the allocator, the programs and the shell.  The
    blocks \<open>malloc\<close> hands out never overlap, \<open>free\<close> keeps the ring in order and loses nothing, \<open>grep\<close> decides its patterns, \<open>wc\<close>
    counts (locale \<open>read_loop\<close>), the parser of the shell ends, stays within the line and reads back what is printed, and \<open>ps\<close> lists
    the processes of the table.

  \<^bold>\<open>Bounds.\<close>  The recursion of \<open>freewalk\<close> carries a depth of 64 (\<open>FREEWALK_DEPTH\<close>); a page table is three levels deep, and a table
    with a cycle makes the C code overflow its stack.  The parser carries the depth of its calls,
    \<open>parse_bound\<close>, four times the length of the line and four: \<open>parseline_terminates\<close> shows that this is enough for
    every line.  Loops that may run forever (\<open>freerange\<close>, \<open>strlen\<close>, the searches of \<open>malloc\<close> and \<open>free\<close>) are
    partial functions into \<open>option\<close>, and the theorems about them show that they return.  The recursion of a program over its system calls
    ends because each call uses up one result.

  \<^bold>\<open>Not modelled.\<close>  The locks of the objects other than processes: outside \<open>Spinlock\<close>, \<open>Sched\<close> and \<open>Smp\<close> a critical section is one step, and
  memory is sequentially consistent.  Device registers are inputs, and the disk is a map of blocks with the
  sequence of its writes; \<open>Virtio\<close> has the driver's side of the rings.  Not modelled are the test programs \<^verbatim>\<open>usertests.c\<close>, \<^verbatim>\<open>grind.c\<close> and
  \<^verbatim>\<open>logstress.c\<close>, which add no behaviour to the kernel, \<^verbatim>\<open>test-xv6.py\<close>, the generated stubs of \<^verbatim>\<open>usys.pl\<close>, prototypes and linker
  scripts.  What \<open>sbrk\<close> returns and the reads of \<^verbatim>\<open>mkfs\<close> on its host are parameters.
\<close>

end
